(* ===== verification/Prelude.thy ===== *)
theory Prelude
  imports Complex_Main "HOL-Library.Word" "HOL-Library.Char_ord" "HOL-Library.List_Lexorder"
begin

unbundle bit_operations_syntax

text \<open>
  What every component shares: the machine integers of the plugin as words, the
  constants of \<^verbatim>\<open>errno.h\<close> and \<^verbatim>\<open>fcntl.h\<close> the code names, the few operations of
  \<^verbatim>\<open>std::string\<close> and \<^verbatim>\<open>string.h\<close> it calls, and the two interfaces that several
  components implement: a machine whose steps keep an invariant, and a byte source
  that fills a buffer.

  Signed and unsigned C integers of one width are the same word type, as a cast between
  them keeps the bits; where the code compares a signed value the model reads it with
  \<open>sint\<close>. Strings are \<^typ>\<open>string\<close>, a list of 8-bit characters ordered as
  \<^verbatim>\<open>std::string\<close> orders them (lexicographically by unsigned byte).
\<close>

section \<open>Machine integers and constants\<close>

type_synonym path = string
type_synonym byte = "8 word"
type_synonym i32 = "32 word"
type_synonym u32 = "32 word"
type_synonym i64 = "64 word"
type_synonym u64 = "64 word"

named_theorems bh_defs \<open>definitions of the operations, for unfolding one call\<close>
named_theorems bh_frame \<open>what an operation leaves unchanged\<close>

abbreviation (input) ENOENT :: int where "ENOENT \<equiv> 2"
abbreviation (input) EEXIST :: int where "EEXIST \<equiv> 17"
abbreviation (input) EINVAL :: int where "EINVAL \<equiv> 22"
abbreviation (input) ERANGE :: int where "ERANGE \<equiv> 34"
abbreviation (input) ENAMETOOLONG :: int where "ENAMETOOLONG \<equiv> 36"
abbreviation (input) ENOTSUP :: int where "ENOTSUP \<equiv> 95"
abbreviation (input) XrdOssOK :: int where "XrdOssOK \<equiv> 0"

abbreviation (input) O_RDONLY :: i32 where "O_RDONLY \<equiv> 0"
abbreviation (input) O_WRONLY :: i32 where "O_WRONLY \<equiv> 1"
abbreviation (input) O_RDWR :: i32 where "O_RDWR \<equiv> 2"
abbreviation (input) O_ACCMODE :: i32 where "O_ACCMODE \<equiv> 3"
abbreviation (input) O_CREAT :: i32 where "O_CREAT \<equiv> 64"
abbreviation (input) O_EXCL :: i32 where "O_EXCL \<equiv> 128"
abbreviation (input) O_TRUNC :: i32 where "O_TRUNC \<equiv> 512"

text \<open>A 64-bit value returned as \<^verbatim>\<open>int\<close>: the low 32 bits, read as two's complement.\<close>

definition to_int :: "u64 \<Rightarrow> int" where
  "to_int w = sint (ucast w :: 32 word)"

lemma sint_eq_uint_small:
  assumes "uint (w :: 'a::len word) < 2 ^ (LENGTH('a) - 1)"
  shows "sint w = uint w"
proof -
  have "- (2 ^ (LENGTH('a) - 1)) \<le> (0 :: int)" by simp
  also have "0 \<le> uint w" by simp
  finally show ?thesis
    using assms by (simp add: sint_uint signed_take_bit_int_eq_self)
qed

lemma to_int_small: "uint w < 2 ^ 31 \<Longrightarrow> to_int w = uint w"
  unfolding to_int_def
  by (subst sint_eq_uint_small) (simp_all add: unsigned_ucast_eq take_bit_int_eq_self)

lemma uint_word_Suc:
  assumes "(w :: 'a::len word) \<noteq> - 1"
  shows "uint (w + 1) = uint w + 1"
proof -
  have "w < - 1" using assms by (simp add: word_order.not_eq_extremum)
  then have "uint w + 1 < 2 ^ LENGTH('a)"
    by (simp add: word_less_def unsigned_minus_1_eq_mask mask_eq_exp_minus_1)
  then show ?thesis by (simp add: uint_word_ariths(1))
qed

lemma uint_Suc_room: "uint (w :: u64) + 1 \<le> 2 ^ 64 - 1 \<Longrightarrow> uint (w + 1) = uint w + 1"
  by (rule uint_word_Suc) (auto simp: unsigned_minus_1_eq_mask mask_eq_exp_minus_1)

lemma sint_uint_nonneg:
  assumes "0 \<le> sint (w :: 'a::len word)"
  shows "sint w = uint w"
proof -
  have "(2 :: int) ^ (LENGTH('a) - 1) \<le> 2 ^ LENGTH('a)" by (rule power_increasing) auto
  then have "sint w < 2 ^ LENGTH('a)" using sint_lt [of w] by linarith
  then show ?thesis using assms by (simp add: uint_sint take_bit_int_eq_self)
qed

section \<open>Strings\<close>

text \<open>
  \<^verbatim>\<open>std::string::rfind(c)\<close>: the last position of the character; \<^verbatim>\<open>npos\<close> is \<^const>\<open>None\<close>.
\<close>

fun rfind :: "char \<Rightarrow> string \<Rightarrow> nat option" where
  "rfind c [] = None"
| "rfind c (x # xs) =
     (case rfind c xs of Some i \<Rightarrow> Some (Suc i)
      | None \<Rightarrow> (if x = c then Some 0 else None))"

lemma rfind_None_iff [simp]: "rfind c s = None \<longleftrightarrow> c \<notin> set s"
  by (induction s) (auto split: option.splits)

lemma rfind_append: "c \<notin> set b \<Longrightarrow> rfind c (a @ c # b) = Some (length a)"
  by (induction a) (auto split: option.splits)

lemma rfind_SomeE:
  assumes "rfind c s = Some i"
  obtains a b where "s = a @ c # b" "c \<notin> set b" "length a = i"
proof -
  from assms have "c \<in> set s" by (metis option.distinct(1) rfind_None_iff)
  then obtain a b where ab: "s = a @ c # b" "c \<notin> set b"
    by (auto dest: split_list_last)
  with assms have "length a = i" by (simp add: rfind_append)
  with ab that show ?thesis by blast
qed

text \<open>A string splits at its last separator in one way only.\<close>

lemma last_split_iff:
  assumes "(c :: char) \<notin> set b"
  shows "d @ c # n = a @ c # b \<and> c \<notin> set n \<longleftrightarrow> d = a \<and> n = b"
proof (intro iffI conjI)
  assume eq: "d @ c # n = a @ c # b \<and> c \<notin> set n"
  then have "length d = length a"
    using rfind_append [of c n d] rfind_append [OF assms, of a] by simp
  with eq show "d = a" and "n = b" by simp_all
qed (use assms in auto)

text \<open>Cutting a string at a separator that its first part does not hold.\<close>

lemma split_at_first:
  "\<forall>c \<in> set xs. c \<noteq> d \<Longrightarrow> takeWhile (\<lambda>c. c \<noteq> d) (xs @ d # ys) = xs"
  "\<forall>c \<in> set xs. c \<noteq> d \<Longrightarrow> dropWhile (\<lambda>c. c \<noteq> d) (xs @ d # ys) = d # ys"
  by (induction xs) auto

text \<open>\<^verbatim>\<open>strncmp(s, prefix, strlen(prefix)) == 0\<close>.\<close>

definition starts_with :: "string \<Rightarrow> string \<Rightarrow> bool" where
  "starts_with p s \<longleftrightarrow> take (length p) s = p"

lemma append_less_append [simp]: "(a @ x < a @ y) = (x < (y :: 'a::linorder list))"
  by (induction a) auto

section \<open>Machines whose steps keep an invariant\<close>

text \<open>
  The contract that the operations of one component share. Each event may spend part
  of a bounded resource (the 64-bit descriptor counter, a 32-bit operation counter);
  while the budget lasts every step keeps the invariant, so a whole run does.
\<close>

locale budgeted_system =
  fixes step :: "'e \<Rightarrow> 's \<Rightarrow> 's"
    and cost :: "'e \<Rightarrow> int"
    and used :: "'s \<Rightarrow> int"
    and cap :: int
    and inv :: "'s \<Rightarrow> bool"
  assumes cost_nonneg: "0 \<le> cost e"
    and step_inv: "inv s \<Longrightarrow> used s + cost e \<le> cap \<Longrightarrow> inv (step e s)"
    and step_used: "inv s \<Longrightarrow> used s + cost e \<le> cap \<Longrightarrow> used (step e s) \<le> used s + cost e"
begin

lemma total_cost_nonneg: "0 \<le> sum_list (map cost es)"
  by (induction es) (auto simp: cost_nonneg)

lemma run_inv:
  assumes "inv s" and "used s + sum_list (map cost es) \<le> cap"
  shows "inv (fold step es s) \<and> used (fold step es s) \<le> used s + sum_list (map cost es)"
  using assms
proof (induction es arbitrary: s)
  case (Cons e es)
  have room: "used s + cost e \<le> cap"
    using Cons.prems(2) total_cost_nonneg [of es] by simp
  with Cons.prems(1) have "inv (step e s)" and used: "used (step e s) \<le> used s + cost e"
    by (auto intro: step_inv step_used)
  with Cons.IH [of "step e s"] Cons.prems(2) show ?case by auto
qed simp

lemma run_rel:
  assumes "inv s" and "used s + sum_list (map cost es) \<le> cap"
    and "\<And>t. R t t" and "\<And>t u v. R t u \<Longrightarrow> R u v \<Longrightarrow> R t v"
    and "\<And>e t. e \<in> set es \<Longrightarrow> inv t \<Longrightarrow> used t + cost e \<le> cap \<Longrightarrow> R t (step e t)"
  shows "R s (fold step es s)"
  using assms(1,2,5)
proof (induction es arbitrary: s)
  case Nil
  show ?case by (simp add: assms(3))
next
  case (Cons e es)
  have room: "used s + cost e \<le> cap"
    using Cons.prems(2) total_cost_nonneg [of es] by simp
  with Cons.prems have "R s (step e s)" by simp
  moreover have "R (step e s) (fold step es (step e s))"
    using Cons.prems step_inv [OF Cons.prems(1) room] step_used [OF Cons.prems(1) room]
    by (intro Cons.IH) auto
  ultimately show ?case by (auto intro: assms(4))
qed

end

locale step_system =
  fixes step :: "'e \<Rightarrow> 's \<Rightarrow> 's"
    and inv :: "'s \<Rightarrow> bool"
  assumes step_keeps: "inv s \<Longrightarrow> inv (step e s)"

sublocale step_system \<subseteq> budgeted_system step "\<lambda>_. 0" "\<lambda>_. 0" 0 inv
  by unfold_locales (auto intro: step_keeps)

section \<open>Machines that refine a specification\<close>

text \<open>A run of calls, with the list of what they return, and calls that keep to a rule.\<close>

fun run_with :: "('e \<Rightarrow> 's \<Rightarrow> 'a \<times> 's) \<Rightarrow> 'e list \<Rightarrow> 's \<Rightarrow> 'a list \<times> 's" where
  "run_with f [] s = ([], s)"
| "run_with f (e # es) s =
     (let (rc, s1) = f e s; (rcs, s2) = run_with f es s1 in (rc # rcs, s2))"

fun run_allowed :: "('e \<Rightarrow> 's \<Rightarrow> bool) \<Rightarrow> ('e \<Rightarrow> 's \<Rightarrow> 'a \<times> 's) \<Rightarrow> 'e list \<Rightarrow> 's \<Rightarrow> bool" where
  "run_allowed ok f [] s \<longleftrightarrow> True"
| "run_allowed ok f (e # es) s \<longleftrightarrow> ok e s \<and> run_allowed ok f es (snd (f e s))"

lemma run_allowed_always [simp]: "run_allowed (\<lambda>_ _. True) f es s"
  by (induction es arbitrary: s) simp_all

text \<open>
  The contract between a machine and its specification: while the budget lasts, each
  call that the rule allows returns the specified value and ends in a state whose
  abstraction is the specified one.
\<close>

locale simulation =
  fixes exec :: "'e \<Rightarrow> 's \<Rightarrow> 'a \<times> 's"
    and spec :: "'e \<Rightarrow> 'n \<Rightarrow> 'a \<times> 'n"
    and abs :: "'s \<Rightarrow> 'n"
    and ok :: "'e \<Rightarrow> 'n \<Rightarrow> bool"
    and inv :: "'s \<Rightarrow> bool"
    and used :: "'s \<Rightarrow> int"
    and cost cap :: int
  assumes cost_pos: "0 \<le> cost"
    and exec_refines: "inv s \<Longrightarrow> ok e (abs s) \<Longrightarrow> used s + cost \<le> cap \<Longrightarrow>
      spec e (abs s) = (fst (exec e s), abs (snd (exec e s)))"
    and exec_keeps: "inv s \<Longrightarrow> ok e (abs s) \<Longrightarrow> used s + cost \<le> cap \<Longrightarrow>
      inv (snd (exec e s)) \<and> used (snd (exec e s)) \<le> used s + cost"
begin

lemma run_refines:
  assumes "inv s" and "run_allowed ok spec es (abs s)" and "used s + cost * int (length es) \<le> cap"
  shows "run_with spec es (abs s) = (fst (run_with exec es s), abs (snd (run_with exec es s)))"
  using assms
proof (induction es arbitrary: s)
  case (Cons e es)
  have "0 \<le> cost * int (length es)" using cost_pos by simp
  then have room: "used s + cost \<le> cap" using Cons.prems(3) by (simp add: distrib_left)
  have "ok e (abs s)" using Cons.prems(2) by simp
  note step = exec_refines [OF Cons.prems(1) this room] exec_keeps [OF Cons.prems(1) this room]
  have "run_with spec es (abs (snd (exec e s))) =
    (fst (run_with exec es (snd (exec e s))), abs (snd (run_with exec es (snd (exec e s)))))"
    using Cons.prems(2,3) step by (intro Cons.IH) (auto simp: distrib_left)
  then show ?case by (simp add: step(1) case_prod_beta)
qed simp

end

end
