(* ===== verification/Ordered_Map.thy ===== *)
theory Ordered_Map
  imports Prelude
begin

text \<open>
  \<^verbatim>\<open>std::map<std::string, T>\<close> as the plugin uses it: \<^verbatim>\<open>find\<close>, \<^verbatim>\<open>insert\<close> (which
  keeps an entry that is already there), \<^verbatim>\<open>erase\<close> and iteration in key order. The
  container is an association list kept strictly sorted by key; the locale
  \<open>std_map\<close> states the laws the namespace relies on, and the interpretation at the
  end proves them for the container.
\<close>

section \<open>The container\<close>

type_synonym ('k, 'v) omap = "('k \<times> 'v) list"

definition om_find :: "('k, 'v) omap \<Rightarrow> 'k \<Rightarrow> 'v option" where
  "om_find m = map_of m"

fun om_insert :: "'k::linorder \<Rightarrow> 'v \<Rightarrow> ('k, 'v) omap \<Rightarrow> ('k, 'v) omap" where
  "om_insert k v [] = [(k, v)]"
| "om_insert k v ((a, b) # m) =
     (if k < a then (k, v) # (a, b) # m
      else if k = a then (a, b) # m
      else (a, b) # om_insert k v m)"

fun om_erase :: "'k \<Rightarrow> ('k, 'v) omap \<Rightarrow> ('k, 'v) omap" where
  "om_erase k [] = []"
| "om_erase k ((a, b) # m) = (if k = a then m else (a, b) # om_erase k m)"

definition om_wf :: "('k::linorder, 'v) omap \<Rightarrow> bool" where
  "om_wf m \<longleftrightarrow> sorted_wrt (<) (map fst m)"

lemma om_wf_Nil [simp]: "om_wf []"
  by (simp add: om_wf_def)

lemma om_wf_Cons [simp]: "om_wf ((a, b) # m) \<longleftrightarrow> (\<forall>k \<in> fst ` set m. a < k) \<and> om_wf m"
  by (auto simp: om_wf_def)

lemma om_keys_insert: "fst ` set (om_insert k v m) = insert k (fst ` set m)"
  by (induction k v m rule: om_insert.induct) auto

lemma om_keys_erase: "fst ` set (om_erase k m) \<subseteq> fst ` set m"
  by (induction k m rule: om_erase.induct) auto

lemma om_wf_insert: "om_wf m \<Longrightarrow> om_wf (om_insert k v m)"
  by (induction k v m rule: om_insert.induct) (auto simp: om_keys_insert)

lemma om_wf_erase: "om_wf m \<Longrightarrow> om_wf (om_erase k m)"
  by (induction k m rule: om_erase.induct) (use om_keys_erase in auto, fastforce)

lemma om_wf_distinct: "om_wf m \<Longrightarrow> distinct (map fst m)"
  by (auto simp: om_wf_def strict_sorted_iff)

lemma om_find_insert:
  "om_wf m \<Longrightarrow> om_find (om_insert k v m) =
     (if om_find m k = None then (om_find m)(k \<mapsto> v) else om_find m)"
  unfolding om_find_def
proof (induction k v m rule: om_insert.induct)
  case (2 k v a b m)
  have "k < a \<Longrightarrow> map_of m k = None"
    using "2.prems" by (auto simp: map_of_eq_None_iff)
  with 2 show ?case by (auto simp: fun_eq_iff)
qed auto

lemma om_find_erase: "om_wf m \<Longrightarrow> om_find (om_erase k m) = (om_find m)(k := None)"
  unfolding om_find_def
proof (induction k m rule: om_erase.induct)
  case (2 k a b m)
  have "map_of m a = None"
    using "2.prems" by (auto simp: map_of_eq_None_iff)
  with 2 show ?case by (auto simp: fun_eq_iff)
qed auto

lemma map_of_keys_eq:
  assumes "map fst xs = map fst ys" "distinct (map fst xs)" "map_of xs = map_of ys"
  shows "xs = ys"
proof -
  have expand: "zs = map (\<lambda>k. (k, the (map_of zs k))) (map fst zs)"
    if "distinct (map fst zs)" for zs :: "('a \<times> 'b) list"
  proof -
    have "map (\<lambda>p. (fst p, the (map_of zs (fst p)))) zs = zs"
      using that by (intro map_idI) (auto simp: map_of_eq_Some_iff)
    then show ?thesis by (simp add: comp_def)
  qed
  have "xs = map (\<lambda>k. (k, the (map_of xs k))) (map fst xs)"
    using assms(2) by (rule expand)
  also have "\<dots> = map (\<lambda>k. (k, the (map_of ys k))) (map fst ys)"
    using assms by simp
  also have "\<dots> = ys"
    using assms by (intro expand [symmetric]) simp
  finally show ?thesis .
qed

section \<open>The interface\<close>

locale std_map =
  fixes find :: "'m \<Rightarrow> 'k::linorder \<Rightarrow> 'v option"
    and ins :: "'k \<Rightarrow> 'v \<Rightarrow> 'm \<Rightarrow> 'm"
    and del :: "'k \<Rightarrow> 'm \<Rightarrow> 'm"
    and entries :: "'m \<Rightarrow> ('k \<times> 'v) list"
    and wf :: "'m \<Rightarrow> bool"
  assumes wf_ins: "wf m \<Longrightarrow> wf (ins k v m)"
    and wf_del: "wf m \<Longrightarrow> wf (del k m)"
    and find_ins: "wf m \<Longrightarrow>
      find (ins k v m) = (if find m k = None then (find m)(k \<mapsto> v) else find m)"
    and find_del: "wf m \<Longrightarrow> find (del k m) = (find m)(k := None)"
    and entries_sorted: "wf m \<Longrightarrow> sorted_wrt (<) (map fst (entries m))"
    and entries_find: "wf m \<Longrightarrow> map_of (entries m) = find m"
    and entries_inj: "wf m \<Longrightarrow> wf m' \<Longrightarrow> entries m = entries m' \<Longrightarrow> m = m'"
begin

lemma find_replace: "wf m \<Longrightarrow> find (ins k v (del k m)) = (find m)(k \<mapsto> v)"
  by (simp add: find_ins find_del wf_del)

lemma find_move:
  "wf m \<Longrightarrow> a \<noteq> b \<Longrightarrow> find (del a (ins b v (del b m))) = (find m)(b \<mapsto> v, a := None)"
  by (simp add: find_replace find_del wf_ins wf_del)

lemma wf_replace: "wf m \<Longrightarrow> wf (ins k v (del k m))"
  by (intro wf_ins wf_del)

lemma entries_distinct: "wf m \<Longrightarrow> distinct (map fst (entries m))"
  using entries_sorted by (auto simp: strict_sorted_iff)

lemma entries_iff: "wf m \<Longrightarrow> (k, v) \<in> set (entries m) \<longleftrightarrow> find m k = Some v"
  by (metis entries_distinct entries_find map_of_eq_Some_iff)

text \<open>The container is canonical: its lookup function determines it.\<close>

lemma find_ext:
  assumes "wf m" "wf m'" "find m = find m'"
  shows "m = m'"
proof -
  have dom: "set (map fst (entries m)) = set (map fst (entries m'))"
    using assms by (metis dom_map_of_conv_image_fst entries_find list.set_map)
  have keys: "map fst (entries m) = map fst (entries m')"
    using assms dom by (auto intro!: sorted_distinct_set_unique
        dest!: entries_sorted simp: strict_sorted_iff)
  have "entries m = entries m'"
    using keys assms by (intro map_of_keys_eq) (auto simp: entries_find entries_distinct)
  with assms show ?thesis by (blast intro: entries_inj)
qed

end

interpretation om: std_map om_find om_insert om_erase "\<lambda>m. m" om_wf
  by unfold_locales
    (simp_all add: om_wf_insert om_wf_erase om_find_insert om_find_erase,
     simp_all add: om_wf_def om_find_def)

end
