(* ===== verification/BlackholeFS.thy ===== *)
theory BlackholeFS
  imports Ordered_Map
begin

text \<open>
  \<^verbatim>\<open>BlackholeFS.hh\<close> and \<^verbatim>\<open>BlackholeFS.cc\<close>: the in-memory namespace. Every public
  method takes the one mutex for its whole body, so a method is one function on the
  state. A \<^verbatim>\<open>shared_ptr<Stub>\<close> is a reference (a number) into the store of stubs
  \<open>cell\<close>; two handles that hold the same pointer hold the same reference, so the
  aliasing between the map and the open files is explicit. A stub is never freed while
  a pointer to it exists, so the store only grows.
\<close>

section \<open>Data\<close>

text \<open>The fields of \<^verbatim>\<open>struct stat\<close> that the plugin sets; all others stay zero.\<close>

record c_stat =
  st_dev :: u64
  st_ino :: u64
  st_mode :: u32
  st_size :: i64

record stub =
  m_isOpenWrite :: bool
  m_flags :: i32
  m_mode :: i32
  m_size :: u64
  m_stat :: c_stat
  m_special :: bool
  m_readtype :: string
  m_checksums :: "(string, string) omap"

text \<open>\<^verbatim>\<open>make_shared<Stub>()\<close> value-initialises: zero but for the member initialisers.\<close>

definition new_stub :: stub where
  "new_stub = \<lparr>m_isOpenWrite = False, m_flags = 0, m_mode = 0, m_size = 0,
     m_stat = \<lparr>st_dev = 0, st_ino = 0, st_mode = 0, st_size = 0\<rparr>,
     m_special = False, m_readtype = ''zeros'', m_checksums = []\<rparr>"

record bhfs =
  m_files :: "(path, nat) omap"
  m_fd_last :: u64
  cell :: "nat \<Rightarrow> stub"
  next_ref :: nat

definition empty_fs :: bhfs where
  "empty_fs = \<lparr>m_files = [], m_fd_last = 0, cell = (\<lambda>_. new_stub), next_ref = 0\<rparr>"

text \<open>Writing through a pointer, and allocating a stub.\<close>

definition upd_stub :: "nat \<Rightarrow> (stub \<Rightarrow> stub) \<Rightarrow> bhfs \<Rightarrow> bhfs" where
  "upd_stub r f fs = fs\<lparr>cell := (cell fs)(r := f (cell fs r))\<rparr>"

definition alloc_stub :: "stub \<Rightarrow> bhfs \<Rightarrow> nat \<times> bhfs" where
  "alloc_stub s fs =
     (next_ref fs,
      fs\<lparr>cell := (cell fs)(next_ref fs := s), next_ref := Suc (next_ref fs)\<rparr>)"

section \<open>Operations\<close>

definition getStub :: "bhfs \<Rightarrow> path \<Rightarrow> nat option" where
  "getStub fs fname = om_find (m_files fs) fname"

definition exists_fs :: "bhfs \<Rightarrow> path \<Rightarrow> bool" where
  "exists_fs fs fname \<longleftrightarrow> om_find (m_files fs) fname \<noteq> None"

text \<open>
  \<^verbatim>\<open>readdir\<close>. Without a slash \<^verbatim>\<open>rfind\<close> is \<^verbatim>\<open>npos\<close>: \<^verbatim>\<open>substr(0, npos)\<close> is the whole
  path and \<^verbatim>\<open>npos + 1\<close> wraps to 0, so the name is the whole path too.
\<close>

definition normalise :: "path \<Rightarrow> path" where
  "normalise path =
     (if 1 < length path \<and> last path = CHR ''/'' then butlast path else path)"

definition parent_of :: "path \<Rightarrow> path" where
  "parent_of fpath =
     (case rfind CHR ''/'' fpath of
        None \<Rightarrow> fpath
      | Some slash \<Rightarrow> (if slash = 0 then ''/'' else take slash fpath))"

definition leaf_of :: "path \<Rightarrow> string" where
  "leaf_of fpath =
     (case rfind CHR ''/'' fpath of None \<Rightarrow> fpath | Some slash \<Rightarrow> drop (Suc slash) fpath)"

fun readdir_loop :: "path \<Rightarrow> (path \<times> nat) list \<Rightarrow> string list \<Rightarrow> string list" where
  "readdir_loop prefix [] entries = entries"
| "readdir_loop prefix ((fpath, _) # kvs) entries =
     (if parent_of fpath \<noteq> prefix then readdir_loop prefix kvs entries
      else readdir_loop prefix kvs (entries @ [leaf_of fpath]))"

definition readdir :: "bhfs \<Rightarrow> path \<Rightarrow> string list \<Rightarrow> string list" where
  "readdir fs path entries = readdir_loop (normalise path) (m_files fs) entries"

definition rename_fs :: "path \<Rightarrow> path \<Rightarrow> bhfs \<Rightarrow> int \<times> bhfs" where
  "rename_fs from to fs =
     (case om_find (m_files fs) from of
        None \<Rightarrow> (- ENOENT, fs)
      | Some stub \<Rightarrow>
          let files1 = om_erase to (m_files fs);
              files2 = om_insert to stub files1;
              files3 = (if from \<noteq> to then om_erase from files2 else files2)
          in (0, fs\<lparr>m_files := files3\<rparr>))"

definition unlink :: "path \<Rightarrow> bhfs \<Rightarrow> int \<times> bhfs" where
  "unlink fname fs =
     (case om_find (m_files fs) fname of
        None \<Rightarrow> (- ENOENT, fs)
      | Some _ \<Rightarrow> (0, fs\<lparr>m_files := om_erase fname (m_files fs)\<rparr>))"

text \<open>
  \<^verbatim>\<open>open\<close>, with its tail that creates a fresh stub as a definition of its own (the
  path never existed, or was erased by \<^verbatim>\<open>O_TRUNC\<close>). The 64-bit counter is returned
  as \<^verbatim>\<open>int\<close>.
\<close>

definition open_create :: "path \<Rightarrow> i32 \<Rightarrow> i32 \<Rightarrow> bhfs \<Rightarrow> int \<times> bhfs" where
  "open_create fname flags mode fs =
     (let tmp = m_fd_last fs + 1;
          st = new_stub\<lparr>m_isOpenWrite := True, m_size := 0, m_flags := flags,
                 m_mode := mode, m_stat := (m_stat new_stub)\<lparr>st_dev := 1, st_ino := tmp\<rparr>\<rparr>;
          (stub_owned, fs1) = alloc_stub st (fs\<lparr>m_fd_last := tmp\<rparr>)
      in (to_int tmp, fs1\<lparr>m_files := om_insert fname stub_owned (m_files fs1)\<rparr>))"

definition open_fs :: "path \<Rightarrow> i32 \<Rightarrow> i32 \<Rightarrow> bhfs \<Rightarrow> int \<times> bhfs" where
  "open_fs fname flags mode fs =
     (let citr = om_find (m_files fs) fname in
      if flags AND O_ACCMODE = O_RDONLY then
        (case citr of
           None \<Rightarrow> (- ENOENT, fs)
         | Some stub \<Rightarrow>
             let fd = m_fd_last fs + 1 in
             (to_int fd,
              upd_stub stub (\<lambda>s. s\<lparr>m_flags := flags, m_mode := mode\<rparr>)
                (fs\<lparr>m_fd_last := fd\<rparr>)))
      else
        (case citr of
           Some stub \<Rightarrow>
             if flags AND O_EXCL \<noteq> 0 then (- EEXIST, fs)
             else if flags AND O_TRUNC \<noteq> 0 then
               open_create fname flags mode (fs\<lparr>m_files := om_erase fname (m_files fs)\<rparr>)
             else
               let fd = m_fd_last fs + 1 in
               (to_int fd,
                upd_stub stub (\<lambda>s. s\<lparr>m_isOpenWrite := True, m_flags := flags, m_mode := mode\<rparr>)
                  (fs\<lparr>m_fd_last := fd\<rparr>))
         | None \<Rightarrow> open_create fname flags mode fs))"

definition close_fs :: "path \<Rightarrow> bhfs \<Rightarrow> bhfs" where
  "close_fs fname fs =
     (case om_find (m_files fs) fname of
        None \<Rightarrow> fs
      | Some stub \<Rightarrow> upd_stub stub (\<lambda>s. s\<lparr>m_isOpenWrite := False\<rparr>) fs)"

definition seed :: "path \<Rightarrow> u64 \<Rightarrow> string \<Rightarrow> bhfs \<Rightarrow> bhfs" where
  "seed path sz readtype fs =
     (let tmp = m_fd_last fs + 1;
          st = new_stub\<lparr>m_special := True, m_readtype := readtype, m_size := sz,
                 m_stat := (m_stat new_stub)\<lparr>st_size := sz, st_dev := 1, st_ino := tmp\<rparr>\<rparr>;
          (stub, fs1) = alloc_stub st (fs\<lparr>m_fd_last := tmp\<rparr>)
      in fs1\<lparr>m_files := om_insert path stub (m_files fs1)\<rparr>)"

definition default_specs :: "(string \<times> u64) list" where
  "default_specs =
     [(''/testfile_zeros_1MiB'', 1 * 1024 * 1024),
      (''/testfile_zeros_1GiB'', 1 * 1024 * 1024 * 1024),
      (''/testfile_zeros_10GiB'', 10 * 1024 * 1024 * 1024)]"

definition create_defaults :: "path \<Rightarrow> bhfs \<Rightarrow> bhfs" where
  "create_defaults path fs =
     fold (\<lambda>(suffix, sz). seed (path @ suffix) sz ''zeros'') default_specs fs"

section \<open>Lookup after each operation\<close>

definition files_wf :: "bhfs \<Rightarrow> bool" where
  "files_wf fs \<longleftrightarrow> om_wf (m_files fs)"

lemma exists_getStub: "exists_fs fs p \<longleftrightarrow> getStub fs p \<noteq> None"
  by (simp add: exists_fs_def getStub_def)

lemma upd_stub_frame [bh_frame, simp]:
  "m_files (upd_stub r f fs) = m_files fs" "m_fd_last (upd_stub r f fs) = m_fd_last fs"
  "next_ref (upd_stub r f fs) = next_ref fs" "getStub (upd_stub r f fs) = getStub fs"
  "cell (upd_stub r f fs) = (cell fs)(r := f (cell fs r))"
  by (simp_all add: upd_stub_def getStub_def fun_eq_iff)

lemma getStub_update [simp]:
  "getStub (fs\<lparr>m_files := m\<rparr>) = om_find m"
  "getStub (fs\<lparr>m_fd_last := n\<rparr>) = getStub fs"
  "getStub (fs\<lparr>cell := c\<rparr>) = getStub fs"
  "getStub (fs\<lparr>next_ref := i\<rparr>) = getStub fs"
  by (simp_all add: getStub_def fun_eq_iff)

lemma om_find_files [simp]: "om_find (m_files fs) = getStub fs"
  by (simp add: getStub_def fun_eq_iff)

lemma rename_fs_enoent: "getStub fs from = None \<Longrightarrow> rename_fs from to fs = (- ENOENT, fs)"
  by (simp add: rename_fs_def)

lemma rename_fs_ok:
  assumes "files_wf fs" "getStub fs from = Some r"
  shows "fst (rename_fs from to fs) = 0"
    and "getStub (snd (rename_fs from to fs)) =
      (if from = to then getStub fs else (getStub fs)(to \<mapsto> r, from := None))"
    and "files_wf (snd (rename_fs from to fs))"
    and "cell (snd (rename_fs from to fs)) = cell fs"
    and "next_ref (snd (rename_fs from to fs)) = next_ref fs"
    and "m_fd_last (snd (rename_fs from to fs)) = m_fd_last fs"
  using assms
  by (auto simp: rename_fs_def files_wf_def om.find_replace om.find_move om.wf_replace
      om.wf_del Let_def fun_upd_idem)

lemma unlink_enoent: "getStub fs p = None \<Longrightarrow> unlink p fs = (- ENOENT, fs)"
  by (simp add: unlink_def)

lemma unlink_ok:
  assumes "files_wf fs" "getStub fs p \<noteq> None"
  shows "fst (unlink p fs) = 0"
    and "getStub (snd (unlink p fs)) = (getStub fs)(p := None)"
    and "files_wf (snd (unlink p fs))"
    and "cell (snd (unlink p fs)) = cell fs"
    and "next_ref (snd (unlink p fs)) = next_ref fs"
    and "m_fd_last (snd (unlink p fs)) = m_fd_last fs"
  using assms by (auto simp: unlink_def files_wf_def om.find_del om.wf_del)

lemma open_create_eq:
  "open_create p fl md fs =
     (to_int (m_fd_last fs + 1),
      fs\<lparr>m_fd_last := m_fd_last fs + 1,
         cell := (cell fs)(next_ref fs :=
           \<lparr>m_isOpenWrite = True, m_flags = fl, m_mode = md, m_size = 0,
            m_stat = \<lparr>st_dev = 1, st_ino = m_fd_last fs + 1, st_mode = 0, st_size = 0\<rparr>,
            m_special = False, m_readtype = ''zeros'', m_checksums = []\<rparr>),
         next_ref := Suc (next_ref fs),
         m_files := om_insert p (next_ref fs) (m_files fs)\<rparr>)"
  by (simp add: open_create_def alloc_stub_def new_stub_def Let_def)

lemma seed_eq:
  "seed p n rt fs =
     fs\<lparr>m_fd_last := m_fd_last fs + 1,
        cell := (cell fs)(next_ref fs :=
          \<lparr>m_isOpenWrite = False, m_flags = 0, m_mode = 0, m_size = n,
           m_stat = \<lparr>st_dev = 1, st_ino = m_fd_last fs + 1, st_mode = 0, st_size = n\<rparr>,
           m_special = True, m_readtype = rt, m_checksums = []\<rparr>),
        next_ref := Suc (next_ref fs),
        m_files := om_insert p (next_ref fs) (m_files fs)\<rparr>"
  by (simp add: seed_def alloc_stub_def new_stub_def Let_def)

text \<open>The five outcomes of \<^verbatim>\<open>open\<close>.\<close>

abbreviation read_only :: "i32 \<Rightarrow> bool" where
  "read_only flags \<equiv> flags AND O_ACCMODE = O_RDONLY"

lemma open_fs_enoent:
  "read_only fl \<Longrightarrow> getStub fs p = None \<Longrightarrow> open_fs p fl md fs = (- ENOENT, fs)"
  by (simp add: open_fs_def)

lemma open_fs_read:
  "read_only fl \<Longrightarrow> getStub fs p = Some r \<Longrightarrow> open_fs p fl md fs =
     (to_int (m_fd_last fs + 1),
      upd_stub r (\<lambda>s. s\<lparr>m_flags := fl, m_mode := md\<rparr>) (fs\<lparr>m_fd_last := m_fd_last fs + 1\<rparr>))"
  by (simp add: open_fs_def Let_def)

lemma open_fs_eexist:
  "\<not> read_only fl \<Longrightarrow> getStub fs p \<noteq> None \<Longrightarrow> fl AND O_EXCL \<noteq> 0 \<Longrightarrow>
   open_fs p fl md fs = (- EEXIST, fs)"
  by (auto simp: open_fs_def)

lemma open_fs_trunc:
  "\<not> read_only fl \<Longrightarrow> getStub fs p \<noteq> None \<Longrightarrow> fl AND O_EXCL = 0 \<Longrightarrow>
   fl AND O_TRUNC \<noteq> 0 \<Longrightarrow>
   open_fs p fl md fs = open_create p fl md (fs\<lparr>m_files := om_erase p (m_files fs)\<rparr>)"
  by (auto simp: open_fs_def)

lemma open_fs_reuse:
  "\<not> read_only fl \<Longrightarrow> getStub fs p = Some r \<Longrightarrow> fl AND O_EXCL = 0 \<Longrightarrow>
   fl AND O_TRUNC = 0 \<Longrightarrow> open_fs p fl md fs =
     (to_int (m_fd_last fs + 1),
      upd_stub r (\<lambda>s. s\<lparr>m_isOpenWrite := True, m_flags := fl, m_mode := md\<rparr>)
        (fs\<lparr>m_fd_last := m_fd_last fs + 1\<rparr>))"
  by (auto simp: open_fs_def Let_def)

lemma open_fs_new:
  "\<not> read_only fl \<Longrightarrow> getStub fs p = None \<Longrightarrow>
   open_fs p fl md fs = open_create p fl md fs"
  by (simp add: open_fs_def)

text \<open>Every call of \<^verbatim>\<open>open\<close> is one of them.\<close>

lemma open_fs_cases [case_names enoent read eexist trunc reuse new]:
  assumes "read_only fl \<Longrightarrow> getStub fs p = None \<Longrightarrow> P"
    and "\<And>r. read_only fl \<Longrightarrow> getStub fs p = Some r \<Longrightarrow> P"
    and "\<not> read_only fl \<Longrightarrow> getStub fs p \<noteq> None \<Longrightarrow> fl AND O_EXCL \<noteq> 0 \<Longrightarrow> P"
    and "\<And>r. \<not> read_only fl \<Longrightarrow> getStub fs p = Some r \<Longrightarrow> fl AND O_EXCL = 0 \<Longrightarrow>
      fl AND O_TRUNC \<noteq> 0 \<Longrightarrow> P"
    and "\<And>r. \<not> read_only fl \<Longrightarrow> getStub fs p = Some r \<Longrightarrow> fl AND O_EXCL = 0 \<Longrightarrow>
      fl AND O_TRUNC = 0 \<Longrightarrow> P"
    and "\<not> read_only fl \<Longrightarrow> getStub fs p = None \<Longrightarrow> P"
  shows P
  using assms by (cases "getStub fs p") blast+

lemmas open_fs_simps = open_fs_enoent open_fs_read open_fs_eexist open_fs_trunc
  open_fs_reuse open_fs_new

section \<open>The namespace invariant\<close>

text \<open>
  Every path leads to an allocated stub, no two paths share one, the container is
  sorted, and every stub ever made has \<^verbatim>\<open>st_dev = 1\<close>, a non-zero inode of its own that
  was handed out by the counter (XRootD takes a file with both zero for offline), and
  the same size in \<^verbatim>\<open>m_size\<close> and in \<^verbatim>\<open>m_stat\<close>.
\<close>

definition stub_ok :: "u64 \<Rightarrow> stub \<Rightarrow> bool" where
  "stub_ok fd_last s \<longleftrightarrow>
     st_dev (m_stat s) = 1 \<and> 0 < uint (st_ino (m_stat s)) \<and>
     uint (st_ino (m_stat s)) \<le> uint fd_last \<and> st_size (m_stat s) = m_size s"

definition ino_of :: "bhfs \<Rightarrow> nat \<Rightarrow> u64" where
  "ino_of fs r = st_ino (m_stat (cell fs r))"

definition fs_inv :: "bhfs \<Rightarrow> bool" where
  "fs_inv fs \<longleftrightarrow> files_wf fs \<and>
     (\<forall>p r. getStub fs p = Some r \<longrightarrow> r < next_ref fs) \<and>
     (\<forall>p q r. getStub fs p = Some r \<longrightarrow> getStub fs q = Some r \<longrightarrow> p = q) \<and>
     (\<forall>r < next_ref fs. stub_ok (m_fd_last fs) (cell fs r)) \<and>
     inj_on (ino_of fs) {..<next_ref fs}"

lemma fs_inv_empty: "fs_inv empty_fs"
  by (simp add: fs_inv_def empty_fs_def files_wf_def getStub_def om_find_def)

lemma fs_inv_wf: "fs_inv fs \<Longrightarrow> files_wf fs"
  by (simp add: fs_inv_def)

lemma fs_inv_ref: "fs_inv fs \<Longrightarrow> getStub fs p = Some r \<Longrightarrow> r < next_ref fs"
  by (simp add: fs_inv_def)

lemma stub_ok_mono: "stub_ok n s \<Longrightarrow> uint n \<le> uint n' \<Longrightarrow> stub_ok n' s"
  by (auto simp: stub_ok_def)

text \<open>The state changes the operations are made of keep it.\<close>

lemma fs_inv_bump:
  "fs_inv fs \<Longrightarrow> m_fd_last fs \<noteq> - 1 \<Longrightarrow> fs_inv (fs\<lparr>m_fd_last := m_fd_last fs + 1\<rparr>)"
  by (auto simp: fs_inv_def files_wf_def uint_word_Suc ino_of_def inj_on_def
      intro: stub_ok_mono)

lemma fs_inv_upd:
  assumes "fs_inv fs"
    and "\<And>s. st_dev (m_stat (f s)) = st_dev (m_stat s)"
    and "\<And>s. st_ino (m_stat (f s)) = st_ino (m_stat s)"
    and "\<And>s. st_size (m_stat s) = m_size s \<Longrightarrow> st_size (m_stat (f s)) = m_size (f s)"
  shows "fs_inv (upd_stub r f fs)"
proof -
  have "ino_of (upd_stub r f fs) = ino_of fs"
    using assms(3) by (simp add: ino_of_def fun_eq_iff)
  moreover have "stub_ok n (cell (upd_stub r f fs) q) \<longleftrightarrow> stub_ok n (cell fs q)"
    if "stub_ok n (cell fs q)" for n q
    using that assms(2-4) by (auto simp: stub_ok_def)
  ultimately show ?thesis
    using assms(1) by (simp add: fs_inv_def files_wf_def)
qed

lemma fs_inv_restrict:
  assumes "fs_inv fs" "om_wf m" "\<And>p r. om_find m p = Some r \<Longrightarrow> getStub fs p = Some r"
  shows "fs_inv (fs\<lparr>m_files := m\<rparr>)"
  using assms unfolding fs_inv_def files_wf_def ino_of_def inj_on_def by auto

lemma fs_inv_alloc:
  assumes "fs_inv fs" "m_fd_last fs \<noteq> - 1"
    and "st_dev (m_stat s) = 1" "st_ino (m_stat s) = m_fd_last fs + 1"
    and "st_size (m_stat s) = m_size s"
  shows "fs_inv (fs\<lparr>m_fd_last := m_fd_last fs + 1, cell := (cell fs)(next_ref fs := s),
           next_ref := Suc (next_ref fs), m_files := om_insert p (next_ref fs) (m_files fs)\<rparr>)"
    (is "fs_inv ?fs")
proof -
  have wf: "om_wf (m_files fs)" using assms(1) by (simp add: fs_inv_def files_wf_def)
  have get: "getStub ?fs =
      (if getStub fs p = None then (getStub fs)(p \<mapsto> next_ref fs) else getStub fs)"
    by (simp add: om.find_ins [OF wf])
  have stubs: "stub_ok (m_fd_last fs + 1) (cell fs r)" if "r < next_ref fs" for r
    using that assms(1,2) by (auto simp: fs_inv_def uint_word_Suc intro: stub_ok_mono)
  have old: "ino_of fs r \<noteq> m_fd_last fs + 1" if "r < next_ref fs" for r
  proof -
    have "uint (ino_of fs r) \<le> uint (m_fd_last fs)"
      using that assms(1) by (auto simp: fs_inv_def stub_ok_def ino_of_def)
    then show ?thesis using uint_word_Suc [OF assms(2)] by auto
  qed
  have "0 < uint (m_fd_last fs + 1)"
    using uint_word_Suc [OF assms(2)] by (simp add: add_nonneg_pos)
  then have new: "stub_ok (m_fd_last fs + 1) s"
    using assms(3-5) by (simp add: stub_ok_def)
  have "inj_on (ino_of ?fs) {..<Suc (next_ref fs)}"
  proof -
    have eq: "ino_of ?fs r = ino_of fs r" if "r < next_ref fs" for r
      using that by (simp add: ino_of_def)
    have "inj_on (ino_of ?fs) {..<next_ref fs} \<longleftrightarrow> inj_on (ino_of fs) {..<next_ref fs}"
      by (rule inj_on_cong) (simp add: eq)
    then have "inj_on (ino_of ?fs) {..<next_ref fs}"
      using assms(1) by (simp add: fs_inv_def)
    moreover have "ino_of ?fs (next_ref fs) \<notin> ino_of ?fs ` {..<next_ref fs}"
    proof -
      have "ino_of ?fs (next_ref fs) = m_fd_last fs + 1"
        using assms(4) by (simp add: ino_of_def)
      moreover have "m_fd_last fs + 1 \<noteq> ino_of ?fs r" if "r < next_ref fs" for r
        using old [OF that] eq [OF that] by simp
      ultimately show ?thesis by (auto simp del: fun_upd_apply)
    qed
    ultimately show ?thesis by (simp add: lessThan_Suc)
  qed
  moreover have "\<forall>r < next_ref ?fs. stub_ok (m_fd_last ?fs) (cell ?fs r)"
    using stubs new by (simp add: All_less_Suc)
  moreover have "\<forall>q r. getStub ?fs q = Some r \<longrightarrow> r < next_ref ?fs"
    and "\<forall>q q' r. getStub ?fs q = Some r \<longrightarrow> getStub ?fs q' = Some r \<longrightarrow> q = q'"
  proof -
    have ref: "r < next_ref fs" if "getStub fs q = Some r" for q r
      using fs_inv_ref [OF assms(1) that] .
    then show "\<forall>q r. getStub ?fs q = Some r \<longrightarrow> r < next_ref ?fs"
      unfolding get by (auto intro: less_SucI)
    have uniq: "q = q'" if "getStub fs q = Some r" "getStub fs q' = Some r" for q q' r
      using that assms(1) unfolding fs_inv_def by blast
    have fresh: "getStub fs q \<noteq> Some (next_ref fs)" for q
      using ref by blast
    show "\<forall>q q' r. getStub ?fs q = Some r \<longrightarrow> getStub ?fs q' = Some r \<longrightarrow> q = q'"
    proof (intro allI impI)
      fix q q' r
      assume a: "getStub ?fs q = Some r" "getStub ?fs q' = Some r"
      have new: "x = p" if "getStub ?fs x = Some (next_ref fs)" for x
        using that fresh [of x] unfolding get by (simp split: if_splits)
      have before: "getStub fs x = Some r" if "getStub ?fs x = Some r" "r \<noteq> next_ref fs" for x
        using that unfolding get by (simp split: if_splits)
      show "q = q'"
      proof (cases "r = next_ref fs")
        case True
        have "q = p" by (rule new) (use a(1) True in simp)
        moreover have "q' = p" by (rule new) (use a(2) True in simp)
        ultimately show ?thesis by simp
      next
        case False
        show ?thesis by (rule uniq [OF before [OF a(1) False] before [OF a(2) False]])
      qed
    qed
  qed
  ultimately show ?thesis
    using wf by (simp add: fs_inv_def files_wf_def om.wf_ins)
qed

section \<open>Every operation keeps the invariant\<close>

lemma fs_inv_seed: "fs_inv fs \<Longrightarrow> m_fd_last fs \<noteq> - 1 \<Longrightarrow> fs_inv (seed p n rt fs)"
  unfolding seed_eq by (rule fs_inv_alloc) auto

lemma fs_inv_erase: "fs_inv fs \<Longrightarrow> fs_inv (fs\<lparr>m_files := om_erase p (m_files fs)\<rparr>)"
  by (rule fs_inv_restrict)
    (auto simp: om.wf_del om.find_del fs_inv_def files_wf_def split: if_splits)

lemma fs_inv_open_create:
  "fs_inv fs \<Longrightarrow> m_fd_last fs \<noteq> - 1 \<Longrightarrow> fs_inv (snd (open_create p fl md fs))"
  unfolding open_create_eq snd_conv by (rule fs_inv_alloc) auto

lemma fs_inv_open:
  assumes "fs_inv fs" "m_fd_last fs \<noteq> - 1"
  shows "fs_inv (snd (open_fs p fl md fs))"
  using assms
  by (cases rule: open_fs_cases [of fl fs p])
    (auto simp: open_fs_simps intro!: fs_inv_open_create fs_inv_erase fs_inv_upd fs_inv_bump)

lemma fs_inv_close: "fs_inv fs \<Longrightarrow> fs_inv (close_fs p fs)"
  by (auto simp: close_fs_def intro!: fs_inv_upd split: option.splits)

lemma fs_inv_unlink: "fs_inv fs \<Longrightarrow> fs_inv (snd (unlink p fs))"
  by (auto simp: unlink_def fs_inv_erase split: option.splits)

lemma fs_inv_rename:
  assumes "fs_inv fs"
  shows "fs_inv (snd (rename_fs from to fs))"
proof (cases "getStub fs from")
  case None
  then show ?thesis using assms by (simp add: rename_fs_enoent)
next
  case (Some r)
  note ok = rename_fs_ok [OF fs_inv_wf [OF assms] Some, of to]
  show ?thesis
    using assms Some unfolding fs_inv_def ino_of_def ok(4-6)
    by (auto simp: ok(2,3) split: if_splits)
qed

section \<open>The namespace as a machine\<close>

text \<open>
  One call of a method, and the value it returns (0 for the methods that return
  nothing). The counter \<^verbatim>\<open>m_fd_last\<close> is the bounded resource: a call draws at most
  three numbers from it.
\<close>

datatype fs_event =
    EOpen path i32 i32
  | EClose path
  | ERename path path
  | EUnlink path
  | ESeed path u64 string
  | EDefaults path

fun fs_exec :: "fs_event \<Rightarrow> bhfs \<Rightarrow> int \<times> bhfs" where
  "fs_exec (EOpen p fl md) fs = open_fs p fl md fs"
| "fs_exec (EClose p) fs = (0, close_fs p fs)"
| "fs_exec (ERename a b) fs = rename_fs a b fs"
| "fs_exec (EUnlink p) fs = unlink p fs"
| "fs_exec (ESeed p n rt) fs = (0, seed p n rt fs)"
| "fs_exec (EDefaults p) fs = (0, create_defaults p fs)"

definition fs_step :: "fs_event \<Rightarrow> bhfs \<Rightarrow> bhfs" where
  "fs_step e fs = snd (fs_exec e fs)"

definition fs_used :: "bhfs \<Rightarrow> int" where
  "fs_used fs = uint (m_fd_last fs)"

abbreviation fd_cap :: int where "fd_cap \<equiv> 2 ^ 64 - 1"

lemma fd_room: "fs_used fs + n \<le> fd_cap \<Longrightarrow> 0 < n \<Longrightarrow> m_fd_last fs \<noteq> - 1"
  by (auto simp: fs_used_def unsigned_minus_1_eq_mask mask_eq_exp_minus_1)

lemma seed_used: "fs_used fs < fd_cap \<Longrightarrow> fs_used (seed p n rt fs) = fs_used fs + 1"
  using fd_room [of fs 1] by (simp add: fs_used_def seed_eq uint_word_Suc)

lemma open_used:
  assumes "fs_used fs < fd_cap"
  shows "fs_used (snd (open_fs p fl md fs)) \<le> fs_used fs + 1"
  using assms fd_room [of fs 1]
  by (cases rule: open_fs_cases [of fl fs p])
    (auto simp: open_fs_simps open_create_eq fs_used_def uint_word_Suc)

lemma create_defaults_eq:
  "create_defaults p fs =
     seed (p @ ''/testfile_zeros_10GiB'') 10737418240 ''zeros''
       (seed (p @ ''/testfile_zeros_1GiB'') 1073741824 ''zeros''
         (seed (p @ ''/testfile_zeros_1MiB'') 1048576 ''zeros'' fs))"
  by (simp add: create_defaults_def default_specs_def)

lemma fs_inv_defaults:
  assumes "fs_inv fs" "fs_used fs + 3 \<le> fd_cap"
  shows "fs_inv (create_defaults p fs)" and "fs_used (create_defaults p fs) = fs_used fs + 3"
proof -
  have room: "m_fd_last gs \<noteq> - 1" if "fs_used gs < fd_cap" for gs
    using that fd_room [of gs 1] by simp
  show "fs_used (create_defaults p fs) = fs_used fs + 3"
    using assms(2) by (simp add: create_defaults_eq seed_used)
  show "fs_inv (create_defaults p fs)"
    using assms unfolding create_defaults_eq
    by (intro fs_inv_seed room) (simp_all add: seed_used)
qed

lemma close_used [simp]: "fs_used (close_fs p fs) = fs_used fs"
  by (simp add: close_fs_def fs_used_def split: option.splits)

lemma unlink_used [simp]: "fs_used (snd (unlink p fs)) = fs_used fs"
  by (simp add: unlink_def fs_used_def split: option.splits)

lemma rename_used [simp]: "fs_used (snd (rename_fs a b fs)) = fs_used fs"
  by (simp add: rename_fs_def fs_used_def Let_def split: option.splits)

lemma fs_step_inv:
  assumes "fs_inv fs" "fs_used fs + 3 \<le> fd_cap"
  shows "fs_inv (fs_step e fs)" "fs_used (fs_step e fs) \<le> fs_used fs + 3"
proof -
  have room: "m_fd_last fs \<noteq> - 1" using assms(2) by (rule fd_room) simp
  show "fs_inv (fs_step e fs)"
    using assms room fs_inv_defaults
    by (cases e) (auto simp: fs_step_def fs_inv_open fs_inv_close fs_inv_rename
        fs_inv_unlink fs_inv_seed)
  show "fs_used (fs_step e fs) \<le> fs_used fs + 3"
  proof (cases e)
    case (EOpen p fl md)
    then show ?thesis
      using open_used [of fs p fl md] assms(2) by (simp add: fs_step_def)
  qed (use assms fs_inv_defaults seed_used in \<open>auto simp: fs_step_def\<close>)
qed

interpretation fs_machine: budgeted_system fs_step "\<lambda>_. 3" fs_used fd_cap fs_inv
  by unfold_locales (simp_all add: fs_step_inv)

lemma empty_fs_simps [simp]:
  "m_files empty_fs = []" "m_fd_last empty_fs = 0" "next_ref empty_fs = 0"
  "getStub empty_fs = Map.empty" "fs_used empty_fs = 0"
  by (simp_all add: empty_fs_def getStub_def om_find_def fs_used_def fun_eq_iff)

lemma fs_inv_seeded: "fs_inv (seed p n rt empty_fs)"
  by (rule fs_inv_seed) (simp_all add: fs_inv_empty)

section \<open>The abstract namespace\<close>

text \<open>
  What the namespace promises, without pointers and containers: a partial map from
  paths to stub values and the counter.
\<close>

record namespace =
  ns_map :: "path \<rightharpoonup> stub"
  ns_fd :: u64

definition abs_fs :: "bhfs \<Rightarrow> namespace" where
  "abs_fs fs = \<lparr>ns_map = (\<lambda>p. map_option (cell fs) (getStub fs p)), ns_fd = m_fd_last fs\<rparr>"

definition fresh_stub :: "u64 \<Rightarrow> stub" where
  "fresh_stub ino =
     \<lparr>m_isOpenWrite = False, m_flags = 0, m_mode = 0, m_size = 0,
      m_stat = \<lparr>st_dev = 1, st_ino = ino, st_mode = 0, st_size = 0\<rparr>,
      m_special = False, m_readtype = ''zeros'', m_checksums = []\<rparr>"

definition spec_seed :: "path \<Rightarrow> u64 \<Rightarrow> string \<Rightarrow> namespace \<Rightarrow> namespace" where
  "spec_seed p n rt ns =
     (let ino = ns_fd ns + 1;
          s = (fresh_stub ino)\<lparr>m_special := True, m_readtype := rt, m_size := n,
                m_stat := (m_stat (fresh_stub ino))\<lparr>st_size := n\<rparr>\<rparr>
      in \<lparr>ns_map = (if ns_map ns p = None then (ns_map ns)(p \<mapsto> s) else ns_map ns),
          ns_fd = ino\<rparr>)"

definition spec_open :: "path \<Rightarrow> i32 \<Rightarrow> i32 \<Rightarrow> namespace \<Rightarrow> int \<times> namespace" where
  "spec_open p fl md ns =
     (let ino = ns_fd ns + 1;
          opened = (\<lambda>s. s\<lparr>m_flags := fl, m_mode := md\<rparr>);
          store = (\<lambda>s. (to_int ino, \<lparr>ns_map = (ns_map ns)(p \<mapsto> s), ns_fd = ino\<rparr>));
          created = (opened (fresh_stub ino))\<lparr>m_isOpenWrite := True\<rparr>
      in case ns_map ns p of
           None \<Rightarrow> if read_only fl then (- ENOENT, ns) else store created
         | Some s \<Rightarrow>
             if read_only fl then store (opened s)
             else if fl AND O_EXCL \<noteq> 0 then (- EEXIST, ns)
             else if fl AND O_TRUNC \<noteq> 0 then store created
             else store ((opened s)\<lparr>m_isOpenWrite := True\<rparr>))"

fun spec_exec :: "fs_event \<Rightarrow> namespace \<Rightarrow> int \<times> namespace" where
  "spec_exec (EOpen p fl md) ns = spec_open p fl md ns"
| "spec_exec (EClose p) ns =
     (0, ns\<lparr>ns_map := (ns_map ns)(p := map_option (\<lambda>s. s\<lparr>m_isOpenWrite := False\<rparr>) (ns_map ns p))\<rparr>)"
| "spec_exec (ERename a b) ns =
     (case ns_map ns a of
        None \<Rightarrow> (- ENOENT, ns)
      | Some s \<Rightarrow> (0, ns\<lparr>ns_map := ((ns_map ns)(a := None))(b \<mapsto> s)\<rparr>))"
| "spec_exec (EUnlink p) ns =
     (if ns_map ns p = None then (- ENOENT, ns) else (0, ns\<lparr>ns_map := (ns_map ns)(p := None)\<rparr>))"
| "spec_exec (ESeed p n rt) ns = (0, spec_seed p n rt ns)"
| "spec_exec (EDefaults p) ns =
     (0, fold (\<lambda>(suffix, sz). spec_seed (p @ suffix) sz ''zeros'') default_specs ns)"

section \<open>The namespace refines its specification\<close>

abbreviation abs_exec :: "int \<times> bhfs \<Rightarrow> int \<times> namespace" where
  "abs_exec r \<equiv> (fst r, abs_fs (snd r))"

lemma abs_fs_map: "ns_map (abs_fs fs) p = map_option (cell fs) (getStub fs p)"
  by (simp add: abs_fs_def)

lemma abs_fs_fd [simp]: "ns_fd (abs_fs fs) = m_fd_last fs"
  by (simp add: abs_fs_def)

lemma abs_fs_bump: "abs_fs (fs\<lparr>m_fd_last := n\<rparr>) = (abs_fs fs)\<lparr>ns_fd := n\<rparr>"
  by (simp add: abs_fs_def)

lemma namespace_eqI:
  "ns_map a = ns_map b \<Longrightarrow> ns_fd a = ns_fd b \<Longrightarrow> (a :: namespace) = b"
  by (cases a, cases b) simp

text \<open>A write through a pointer shows at one path only: the pointers are not shared.\<close>

lemma abs_fs_upd:
  assumes "fs_inv fs" "getStub fs p = Some r"
  shows "abs_fs (upd_stub r f fs) = (abs_fs fs)\<lparr>ns_map := (ns_map (abs_fs fs))(p \<mapsto> f (cell fs r))\<rparr>"
proof (rule namespace_eqI)
  show "ns_map (abs_fs (upd_stub r f fs)) =
      ns_map ((abs_fs fs)\<lparr>ns_map := (ns_map (abs_fs fs))(p \<mapsto> f (cell fs r))\<rparr>)"
  proof
    fix q
    have "getStub fs q = Some r \<longleftrightarrow> q = p"
      using assms by (auto simp: fs_inv_def)
    then show "ns_map (abs_fs (upd_stub r f fs)) q =
        ns_map ((abs_fs fs)\<lparr>ns_map := (ns_map (abs_fs fs))(p \<mapsto> f (cell fs r))\<rparr>) q"
      using assms(2) by (cases "getStub fs q") (auto simp: abs_fs_map)
  qed
qed (simp add: abs_fs_def)

text \<open>A new stub inserted at a free path shows there, and nowhere else.\<close>

lemma abs_fs_insert:
  assumes "fs_inv fs" "files_wf fs"
  shows "abs_fs (fs\<lparr>m_fd_last := n, cell := (cell fs)(next_ref fs := s),
           next_ref := Suc (next_ref fs), m_files := om_insert p (next_ref fs) (m_files fs)\<rparr>) =
    \<lparr>ns_map = (if ns_map (abs_fs fs) p = None then (ns_map (abs_fs fs))(p \<mapsto> s)
               else ns_map (abs_fs fs)), ns_fd = n\<rparr>"
proof (rule namespace_eqI)
  have old: "r \<noteq> next_ref fs" if "getStub fs q = Some r" for q r
    using fs_inv_ref [OF assms(1) that] by simp
  have get: "getStub (fs\<lparr>m_fd_last := n, cell := (cell fs)(next_ref fs := s),
           next_ref := Suc (next_ref fs), m_files := om_insert p (next_ref fs) (m_files fs)\<rparr>) =
      (if getStub fs p = None then (getStub fs)(p \<mapsto> next_ref fs) else getStub fs)"
    using assms(2) by (simp add: files_wf_def om.find_ins)
  show "ns_map (abs_fs (fs\<lparr>m_fd_last := n, cell := (cell fs)(next_ref fs := s),
           next_ref := Suc (next_ref fs), m_files := om_insert p (next_ref fs) (m_files fs)\<rparr>)) =
    ns_map \<lparr>ns_map = (if ns_map (abs_fs fs) p = None then (ns_map (abs_fs fs))(p \<mapsto> s)
               else ns_map (abs_fs fs)), ns_fd = n\<rparr>"
  proof
    fix q
    show "ns_map (abs_fs (fs\<lparr>m_fd_last := n, cell := (cell fs)(next_ref fs := s),
           next_ref := Suc (next_ref fs), m_files := om_insert p (next_ref fs) (m_files fs)\<rparr>)) q =
      ns_map \<lparr>ns_map = (if ns_map (abs_fs fs) p = None then (ns_map (abs_fs fs))(p \<mapsto> s)
               else ns_map (abs_fs fs)), ns_fd = n\<rparr> q"
      unfolding abs_fs_map get using old [of q] by (cases "getStub fs q") (auto simp: abs_fs_map)
  qed
qed (simp add: abs_fs_def)

lemma abs_fs_erase:
  assumes "files_wf fs"
  shows "abs_fs (fs\<lparr>m_files := om_erase p (m_files fs)\<rparr>) =
    (abs_fs fs)\<lparr>ns_map := (ns_map (abs_fs fs))(p := None)\<rparr>"
  using assms by (intro namespace_eqI)
    (auto simp: abs_fs_map files_wf_def om.find_del fun_eq_iff)

lemma abs_seed: "fs_inv fs \<Longrightarrow> abs_fs (seed p n rt fs) = spec_seed p n rt (abs_fs fs)"
  unfolding seed_eq
  by (subst abs_fs_insert) (simp_all add: fs_inv_wf spec_seed_def fresh_stub_def Let_def)

lemma abs_open_create:
  assumes "fs_inv fs" "getStub fs p = None"
  shows "abs_exec (open_create p fl md fs) =
    (to_int (m_fd_last fs + 1),
     \<lparr>ns_map = (ns_map (abs_fs fs))(p \<mapsto> (fresh_stub (m_fd_last fs + 1))
        \<lparr>m_flags := fl, m_mode := md, m_isOpenWrite := True\<rparr>), ns_fd = m_fd_last fs + 1\<rparr>)"
  using assms unfolding open_create_eq fst_conv snd_conv
  by (subst abs_fs_insert) (simp_all add: fs_inv_wf abs_fs_map fresh_stub_def)

lemma getStub_erase: "files_wf fs \<Longrightarrow> om_find (om_erase p (m_files fs)) p = None"
  by (simp add: files_wf_def om.find_del)

lemma abs_open:
  assumes "fs_inv fs"
  shows "abs_exec (open_fs p fl md fs) = spec_open p fl md (abs_fs fs)"
proof -
  have abs: "ns_map (abs_fs fs) p = map_option (cell fs) (getStub fs p)"
    by (rule abs_fs_map)
  have wf: "files_wf fs" using assms by (rule fs_inv_wf)
  have bumped: "abs_fs (upd_stub r f (fs\<lparr>m_fd_last := n\<rparr>)) =
      (abs_fs fs)\<lparr>ns_map := (ns_map (abs_fs fs))(p \<mapsto> f (cell fs r)), ns_fd := n\<rparr>"
    if "getStub fs p = Some r" for r f n
  proof -
    have "upd_stub r f (fs\<lparr>m_fd_last := n\<rparr>) = (upd_stub r f fs)\<lparr>m_fd_last := n\<rparr>"
      by (simp add: upd_stub_def)
    then show ?thesis by (simp only: abs_fs_bump abs_fs_upd [OF assms that])
  qed
  show ?thesis
  proof (cases rule: open_fs_cases [of fl fs p])
    case (trunc r)
    then show ?thesis
      using abs_open_create [OF fs_inv_erase [OF assms], of p p fl md] wf abs
      by (simp add: open_fs_trunc spec_open_def Let_def abs_fs_erase getStub_erase)
  next
    case new
    then show ?thesis
      using abs_open_create [OF assms, of p fl md] abs
      by (simp add: open_fs_new spec_open_def Let_def)
  qed (use abs in \<open>auto simp: open_fs_simps spec_open_def Let_def bumped intro!: namespace_eqI\<close>)
qed

lemma abs_rename:
  assumes "fs_inv fs"
  shows "abs_exec (rename_fs a b fs) = spec_exec (ERename a b) (abs_fs fs)"
proof (cases "getStub fs a")
  case None
  then show ?thesis by (simp add: rename_fs_enoent abs_fs_map)
next
  case (Some r)
  note ok = rename_fs_ok [OF fs_inv_wf [OF assms] Some, of b]
  show ?thesis
    unfolding ok(1) spec_exec.simps abs_fs_def ok(2,4,6) using Some
    by auto
qed

lemma abs_unlink:
  "fs_inv fs \<Longrightarrow> abs_exec (unlink p fs) = spec_exec (EUnlink p) (abs_fs fs)"
  by (cases "getStub fs p") (auto simp: unlink_def abs_fs_map abs_fs_erase fs_inv_wf)

lemma abs_close: "fs_inv fs \<Longrightarrow> abs_exec (0, close_fs p fs) = spec_exec (EClose p) (abs_fs fs)"
  by (cases "getStub fs p") (auto simp: close_fs_def abs_fs_map abs_fs_upd fun_upd_idem
      intro!: namespace_eqI)

lemma abs_defaults:
  assumes "fs_inv fs" "fs_used fs + 3 \<le> fd_cap"
  shows "abs_fs (create_defaults p fs) = snd (spec_exec (EDefaults p) (abs_fs fs))"
proof -
  have room: "m_fd_last gs \<noteq> - 1" if "fs_used gs < fd_cap" for gs
    using that fd_room [of gs 1] by simp
  show ?thesis
    using assms by (simp add: create_defaults_eq default_specs_def abs_seed fs_inv_seed
        room seed_used)
qed

lemma fs_exec_refines:
  assumes "fs_inv fs" "fs_used fs + 3 \<le> fd_cap"
  shows "abs_exec (fs_exec e fs) = spec_exec e (abs_fs fs)"
proof (cases e)
  case (EOpen p fl md)
  then show ?thesis using abs_open [OF assms(1)] by simp
next
  case (EClose p)
  then show ?thesis using abs_close [OF assms(1)] by simp
next
  case (ERename a b)
  then show ?thesis using abs_rename [OF assms(1)] by simp
next
  case (EUnlink p)
  then show ?thesis using abs_unlink [OF assms(1)] by simp
next
  case (ESeed p n rt)
  then show ?thesis using abs_seed [OF assms(1)] by simp
next
  case (EDefaults p)
  then show ?thesis using abs_defaults [OF assms] by (simp del: fold_simps)
qed

interpretation fs_spec: simulation fs_exec spec_exec abs_fs "\<lambda>_ _. True" fs_inv fs_used 3 fd_cap
  by unfold_locales (use fs_exec_refines fs_step_inv in \<open>auto simp: fs_step_def\<close>)

text \<open>
  C5: Over any sequence of calls, as long as the descriptor counter does not wrap, the
  namespace with its sorted container and shared stub pointers returns the same values
  and reaches the same state as the abstract specification, a plain map from paths to
  stub values.
\<close>

theorem fs_run_refines:
  assumes "fs_inv fs" and "fs_used fs + 3 * int (length es) \<le> fd_cap"
  shows "run_with spec_exec es (abs_fs fs) =
    (fst (run_with fs_exec es fs), abs_fs (snd (run_with fs_exec es fs)))"
  using fs_spec.run_refines [of fs es] assms by simp

theorem fs_run_refines_witness:
  "run_with spec_exec [EOpen ''/a'' 65 420, ERename ''/a'' ''/b'', EUnlink ''/c''] (abs_fs empty_fs) =
    (fst (run_with fs_exec [EOpen ''/a'' 65 420, ERename ''/a'' ''/b'', EUnlink ''/c''] empty_fs),
     abs_fs (snd (run_with fs_exec
       [EOpen ''/a'' 65 420, ERename ''/a'' ''/b'', EUnlink ''/c''] empty_fs)))"
  by (rule fs_run_refines) (simp_all add: fs_inv_empty)

text \<open>
  C6: Every sequence of namespace calls keeps the namespace invariant: the container is
  sorted, no two paths share a stub, every path leads to an allocated stub, and every
  stub has device 1, a non-zero inode of its own and one size in both places.
\<close>

theorem fs_run_invariant:
  assumes "fs_inv fs" and "fs_used fs + 3 * int (length es) \<le> fd_cap"
  shows "fs_inv (fold fs_step es fs)"
  using assms fs_machine.run_inv [of fs es] by (simp add: sum_list_triv mult.commute)

theorem fs_run_invariant_witness:
  "fs_inv (fold fs_step [EDefaults ''/t'', EOpen ''/a'' 1 420, ERename ''/a'' ''/b''] empty_fs)"
  by (rule fs_run_invariant) (simp_all add: fs_inv_empty)

text \<open>What open returns, and what it leaves behind.\<close>

lemma open_outcome:
  assumes "fs_inv fs" and "uint (m_fd_last fs) + 1 < 2 ^ 31"
  shows "fst (open_fs p fl md fs) =
      (if read_only fl \<and> \<not> exists_fs fs p then - ENOENT
       else if \<not> read_only fl \<and> exists_fs fs p \<and> fl AND O_EXCL \<noteq> 0 then - EEXIST
       else uint (m_fd_last fs) + 1)
    \<and> (if fst (open_fs p fl md fs) < 0 then snd (open_fs p fl md fs) = fs
       else exists_fs (snd (open_fs p fl md fs)) p)"
proof -
  have fd: "m_fd_last fs \<noteq> - 1"
    using assms(2) by (auto simp: unsigned_minus_1_eq_mask mask_eq_exp_minus_1)
  have rc: "to_int (m_fd_last fs + 1) = uint (m_fd_last fs) + 1"
    using assms(2) by (simp add: to_int_small uint_word_Suc [OF fd])
  have pos: "\<not> uint (m_fd_last fs) + 1 < 0" using uint_nonnegative [of "m_fd_last fs"] by linarith
  have wf: "om_wf m \<Longrightarrow> om_find (om_insert p r m) p \<noteq> None" for m :: "(path, nat) omap" and r
    by (simp add: om.find_ins)
  have "om_wf (m_files fs)" using fs_inv_wf [OF assms(1)] by (simp add: files_wf_def)
  then show ?thesis
    by (cases rule: open_fs_cases [of fl fs p])
      (auto simp: open_fs_simps exists_getStub open_create_eq rc om.wf_del wf pos)
qed

text \<open>
  C37: The descriptor is a 64-bit counter returned as int: when it reaches 2^31 the open
  of a new file makes the file but returns -2^31, which the caller takes for an error.
\<close>

theorem open_fd_overflow:
  assumes "fs_inv fs" and "m_fd_last fs = 2 ^ 31 - 1"
    and "\<not> read_only fl" and "\<not> exists_fs fs p"
  shows "fst (open_fs p fl md fs) = - (2 ^ 31) \<and> exists_fs (snd (open_fs p fl md fs)) p"
proof -
  have "om_wf (m_files fs)" using fs_inv_wf [OF assms(1)] by (simp add: files_wf_def)
  then show ?thesis
    using assms(2-) by (simp add: open_fs_new exists_getStub open_create_eq om.find_ins to_int_def)
qed

theorem open_fd_overflow_witness:
  "fst (open_fs ''/a'' 65 420 (empty_fs\<lparr>m_fd_last := 2 ^ 31 - 1\<rparr>)) = - (2 ^ 31)"
  using open_fd_overflow [of "empty_fs\<lparr>m_fd_last := 2 ^ 31 - 1\<rparr>" 65 "''/a''" 420]
  by (simp add: fs_inv_def files_wf_def exists_getStub)

section \<open>Directory listing\<close>

lemma readdir_loop_eq:
  "readdir_loop d kvs entries =
     entries @ map leaf_of (filter (\<lambda>k. parent_of k = d) (map fst kvs))"
  by (induction d kvs entries rule: readdir_loop.induct) auto

lemma leaf_no_slash: "CHR ''/'' \<notin> set (leaf_of k) \<or> CHR ''/'' \<notin> set k"
  by (auto simp: leaf_of_def split: option.splits elim!: rfind_SomeE)

text \<open>For an absolute directory other than the root, the children are its extensions
  by one name.\<close>

lemma child_iff:
  assumes "CHR ''/'' \<in> set d" "d \<noteq> ''/''"
  shows "parent_of k = d \<and> leaf_of k = n \<longleftrightarrow> k = d @ ''/'' @ n \<and> CHR ''/'' \<notin> set n"
proof (cases "rfind CHR ''/'' k")
  case None
  then have "CHR ''/'' \<notin> set k" and "parent_of k = k"
    by (simp, simp only: parent_of_def option.case)
  then show ?thesis using assms by auto
next
  case (Some i)
  then obtain a b where ab: "k = a @ CHR ''/'' # b" "CHR ''/'' \<notin> set b" "length a = i"
    by (rule rfind_SomeE)
  have "parent_of k = (if a = [] then ''/'' else a)" and "leaf_of k = b"
    using Some ab by (auto simp: parent_of_def leaf_of_def)
  moreover have "k = d @ ''/'' @ n \<and> CHR ''/'' \<notin> set n \<longleftrightarrow> d = a \<and> n = b"
    using last_split_iff [OF ab(2), of d n a] unfolding ab(1) by auto
  moreover have "d \<noteq> []" using assms(1) by auto
  ultimately show ?thesis using assms(2) by auto
qed

lemma child_split:
  assumes "CHR ''/'' \<in> set d" "d \<noteq> ''/''" "parent_of k = d"
  shows "k = d @ ''/'' @ leaf_of k"
  using child_iff [OF assms(1,2), of k "leaf_of k"] assms(3) by simp

text \<open>
  C23: Listing a directory other than the root gives exactly the names, free of slashes,
  whose path below the directory exists, each once and in order.
\<close>

theorem readdir_lists_children:
  assumes "fs_inv fs" and "CHR ''/'' \<in> set (normalise path)" and "normalise path \<noteq> ''/''"
  shows "set (readdir fs path []) =
      {n. CHR ''/'' \<notin> set n \<and> exists_fs fs (normalise path @ ''/'' @ n)}
    \<and> sorted_wrt (<) (readdir fs path [])"
proof
  let ?d = "normalise path"
  have wf: "om_wf (m_files fs)" using fs_inv_wf [OF assms(1)] by (simp add: files_wf_def)
  have keys: "k \<in> set (map fst (m_files fs)) \<longleftrightarrow> exists_fs fs k" for k
    by (simp add: exists_fs_def om_find_def map_of_eq_None_iff del: om_find_files)
  show "set (readdir fs path []) = {n. CHR ''/'' \<notin> set n \<and> exists_fs fs (?d @ ''/'' @ n)}"
  proof (rule set_eqI)
    fix n
    have "n \<in> set (readdir fs path []) \<longleftrightarrow>
        (\<exists>k. k \<in> set (map fst (m_files fs)) \<and> (parent_of k = ?d \<and> leaf_of k = n))"
      by (simp only: readdir_def readdir_loop_eq append_Nil set_map [of leaf_of] set_filter
          image_iff mem_Collect_eq bex_simps) (auto simp del: set_map)
    then show "n \<in> set (readdir fs path []) \<longleftrightarrow>
        n \<in> {n. CHR ''/'' \<notin> set n \<and> exists_fs fs (?d @ ''/'' @ n)}"
      unfolding child_iff [OF assms(2,3)] keys by blast
  qed
  have "sorted_wrt (<) (filter (\<lambda>k. parent_of k = ?d) (map fst (m_files fs)))" (is "sorted_wrt _ ?ks")
    using wf by (simp add: om_wf_def sorted_wrt_filter)
  moreover have "leaf_of x < leaf_of y" if "x \<in> set ?ks" "y \<in> set ?ks" "x < y" for x y
  proof -
    have "x = ?d @ ''/'' @ leaf_of x" "y = ?d @ ''/'' @ leaf_of y"
      using child_split [OF assms(2,3), of x] child_split [OF assms(2,3), of y] that(1,2) by auto
    then have "?d @ ''/'' @ leaf_of x < ?d @ ''/'' @ leaf_of y"
      using that(3) by argo
    then show ?thesis by simp
  qed
  ultimately show "sorted_wrt (<) (readdir fs path [])"
    unfolding readdir_def readdir_loop_eq append_Nil sorted_wrt_map
    by (rule sorted_wrt_mono_rel [rotated])
qed

theorem readdir_lists_children_witness:
  "set (readdir (seed ''/d/b'' 1 ''zeros'' (seed ''/d/a'' 1 ''zeros'' empty_fs)) ''/d/'' []) =
    {n. CHR ''/'' \<notin> set n \<and>
      exists_fs (seed ''/d/b'' 1 ''zeros'' (seed ''/d/a'' 1 ''zeros'' empty_fs)) (''/d'' @ ''/'' @ n)}"
proof -
  let ?fs = "seed ''/d/b'' 1 ''zeros'' (seed ''/d/a'' 1 ''zeros'' empty_fs)"
  have "fs_inv ?fs" by (intro fs_inv_seed fs_inv_empty) (simp_all add: seed_eq)
  from readdir_lists_children [OF this, of "''/d/''"] show ?thesis
    by (simp add: normalise_def)
qed

section \<open>Renaming, seeding and inode numbers\<close>

text \<open>
  Renaming an existing file to a free path and back restores the namespace exactly.
\<close>

lemma rename_round_trip:
  assumes "fs_inv fs" and "exists_fs fs a" and "\<not> exists_fs fs b"
  shows "rename_fs b a (snd (rename_fs a b fs)) = (0, fs)"
proof -
  obtain r where r: "getStub fs a = Some r" using assms(2) by (auto simp: exists_getStub)
  have nb: "getStub fs b = None" and neq: "a \<noteq> b"
    using assms(2,3) by (auto simp: exists_getStub)
  let ?fs1 = "snd (rename_fs a b fs)" and ?fs2 = "snd (rename_fs b a (snd (rename_fs a b fs)))"
  have wf: "files_wf fs" using assms(1) by (rule fs_inv_wf)
  note ok1 = rename_fs_ok [OF wf r, of b]
  have "getStub ?fs1 b = Some r" using neq by (simp add: ok1(2))
  note ok2 = rename_fs_ok [OF ok1(3) this, of a]
  have "getStub ?fs2 = getStub fs"
    unfolding ok2(2) ok1(2) using neq r nb by (auto simp: fun_eq_iff)
  then have "m_files ?fs2 = m_files fs"
    using ok2(3) wf unfolding files_wf_def by (intro om.find_ext) simp_all
  then have "?fs2 = fs"
    using ok1(4-6) ok2(4-6) by (intro bhfs.equality) simp_all
  then show ?thesis using ok2(1) by (simp add: prod_eq_iff)
qed

lemma rename_replaces:
  assumes "fs_inv fs" and "getStub fs a = Some r" and "a \<noteq> b"
  shows "fst (rename_fs a b fs) = 0
    \<and> getStub (snd (rename_fs a b fs)) b = Some r
    \<and> getStub (snd (rename_fs a b fs)) a = None
    \<and> (\<forall>p. p \<noteq> a \<and> p \<noteq> b \<longrightarrow> getStub (snd (rename_fs a b fs)) p = getStub fs p)
    \<and> cell (snd (rename_fs a b fs)) = cell fs"
  using rename_fs_ok [OF fs_inv_wf [OF assms(1)] assms(2), of b] assms(3) by simp

text \<open>A path that is already taken keeps its stub; a free one gets the seeded stub.\<close>

lemma seed_first_wins:
  assumes "fs_inv fs"
  shows "ns_map (abs_fs (seed p n rt fs)) q =
    (if q = p \<and> \<not> exists_fs fs p then
       Some \<lparr>m_isOpenWrite = False, m_flags = 0, m_mode = 0, m_size = n,
             m_stat = \<lparr>st_dev = 1, st_ino = m_fd_last fs + 1, st_mode = 0, st_size = n\<rparr>,
             m_special = True, m_readtype = rt, m_checksums = []\<rparr>
     else ns_map (abs_fs fs) q)"
  using assms by (simp add: abs_seed spec_seed_def fresh_stub_def Let_def abs_fs_map exists_getStub)

text \<open>
  The default files, when their paths are free, are there with 1 MiB, 1 GiB and 10
  GiB, marked special, closed, and of the zeros pattern.
\<close>

lemma create_defaults_files:
  assumes "fs_inv fs" and "fs_used fs + 3 \<le> fd_cap"
    and "\<not> exists_fs fs (p @ ''/testfile_zeros_1MiB'')"
    and "\<not> exists_fs fs (p @ ''/testfile_zeros_1GiB'')"
    and "\<not> exists_fs fs (p @ ''/testfile_zeros_10GiB'')"
  shows "map (\<lambda>f. map_option (\<lambda>s. (unat (m_size s), m_special s, m_isOpenWrite s, m_readtype s))
        (ns_map (abs_fs (create_defaults p fs)) (p @ f)))
      [''/testfile_zeros_1MiB'', ''/testfile_zeros_1GiB'', ''/testfile_zeros_10GiB''] =
    [Some (2 ^ 20, True, False, ''zeros''), Some (2 ^ 30, True, False, ''zeros''),
     Some (10 * 2 ^ 30, True, False, ''zeros'')]"
  using assms(3-)
  by (simp add: abs_defaults [OF assms(1,2)] default_specs_def spec_seed_def fresh_stub_def
      Let_def abs_fs_map exists_getStub)

lemma inodes_distinct:
  assumes "fs_inv fs" and "ns_map (abs_fs fs) p = Some s" and "ns_map (abs_fs fs) q = Some t"
    and "p \<noteq> q"
  shows "st_ino (m_stat s) \<noteq> st_ino (m_stat t) \<and> st_ino (m_stat s) \<noteq> 0 \<and> st_dev (m_stat s) = 1"
proof -
  obtain r u where r: "getStub fs p = Some r" "s = cell fs r"
    and u: "getStub fs q = Some u" "t = cell fs u"
    using assms(2,3) by (auto simp: abs_fs_map)
  have "r \<noteq> u" using assms(1,4) r(1) u(1) by (auto simp: fs_inv_def)
  moreover have "r < next_ref fs" "u < next_ref fs"
    using fs_inv_ref [OF assms(1)] r(1) u(1) by auto
  moreover have "inj_on (ino_of fs) {..<next_ref fs}" "stub_ok (m_fd_last fs) (cell fs r)"
    using assms(1) \<open>r < next_ref fs\<close> by (auto simp: fs_inv_def)
  ultimately show ?thesis
    using r(2) u(2) by (auto simp: inj_on_def ino_of_def stub_ok_def)
qed

end
