(* ===== verification/Binary64.thy ===== *)
theory Binary64
  imports Prelude "HOL-Library.Log_Nat"
begin

text \<open>
  \<^verbatim>\<open>double\<close>: IEEE-754 binary64 with rounding to nearest, ties to even. A double is the
  rational number it denotes and an operation is the exact one followed by the rounding
  \<open>fl\<close> to 53 significant bits. The plugin's doubles are quotients and products of 64-bit
  counts and of constants, and sums of at most \<open>2 ^ 64\<close> of those: their magnitudes lie
  between \<open>2 powi (-128)\<close> and \<open>2 ^ 256\<close>, far inside the exponent range, and every
  division in the code is guarded. So the exponent is left unbounded here, and
  infinities, NaNs, subnormals and negative zeros do not occur.
\<close>

section \<open>Rounding\<close>

definition ilog2 :: "rat \<Rightarrow> int" where
  "ilog2 x = (if 1 \<le> x then bitlen \<lfloor>x\<rfloor> - 1 else - bitlen (\<lceil>1 / x\<rceil> - 1))"

definition round_half_even :: "rat \<Rightarrow> int" where
  "round_half_even y =
     (let f = \<lfloor>y\<rfloor>; d = y - of_int f
      in if d < 1 / 2 \<or> (d = 1 / 2 \<and> even f) then f else f + 1)"

definition ulp :: "rat \<Rightarrow> rat" where
  "ulp x = 2 powi (ilog2 \<bar>x\<bar> - 52)"

definition fl :: "rat \<Rightarrow> rat" where
  "fl x = (if x = 0 then 0 else sgn x * of_int (round_half_even (\<bar>x\<bar> / ulp x)) * ulp x)"

definition d_add :: "rat \<Rightarrow> rat \<Rightarrow> rat" where "d_add x y = fl (x + y)"
definition d_mul :: "rat \<Rightarrow> rat \<Rightarrow> rat" where "d_mul x y = fl (x * y)"
definition d_div :: "rat \<Rightarrow> rat \<Rightarrow> rat" where "d_div x y = fl (x / y)"

text \<open>Conversions from the unsigned and the signed 64-bit integers.\<close>

definition d_of_u64 :: "u64 \<Rightarrow> rat" where "d_of_u64 w = fl (of_int (uint w))"
definition d_of_i64 :: "i64 \<Rightarrow> rat" where "d_of_i64 w = fl (of_int (sint w))"

section \<open>The exponent\<close>

lemma bitlen_range:
  assumes "0 < (n :: int)"
  shows "(2 :: rat) powi (bitlen n - 1) \<le> of_int n" and "of_int (n + 1) \<le> (2 :: rat) powi (bitlen n)"
    and "1 \<le> bitlen n"
proof -
  from bitlen_bounds [OF assms]
  have b: "2 ^ nat (bitlen n - 1) \<le> n" "n < 2 ^ nat (bitlen n)" by auto
  show one: "1 \<le> bitlen n" using b(2) assms by (cases "bitlen n \<le> 0") auto
  have "of_int (2 ^ nat (bitlen n - 1)) \<le> (of_int n :: rat)" using b(1) by (simp only: of_int_le_iff)
  then show "(2 :: rat) powi (bitlen n - 1) \<le> of_int n" using one by (simp add: power_int_def)
  have "of_int (n + 1) \<le> (of_int (2 ^ nat (bitlen n)) :: rat)" using b(2) by (simp only: of_int_le_iff)
  then show "of_int (n + 1) \<le> (2 :: rat) powi (bitlen n)" using one by (simp add: power_int_def)
qed

lemma ilog2_bounds:
  assumes "0 < x"
  shows "2 powi (ilog2 x) \<le> x" and "x < 2 powi (ilog2 x + 1)"
proof -
  have "2 powi (ilog2 x) \<le> x \<and> x < 2 powi (ilog2 x + 1)"
  proof (cases "1 \<le> x")
    case True
    then have "0 < \<lfloor>x\<rfloor>" by simp
    from bitlen_range [OF this] show ?thesis
      using True floor_correct [of x] by (simp add: ilog2_def) linarith
  next
    case False
    let ?m = "\<lceil>1 / x\<rceil> - 1"
    have y: "1 < 1 / x" using False assms by (simp add: field_simps)
    then have "0 < ?m" by linarith
    note b = bitlen_range [OF this]
    have "of_int ?m < 1 / x" "1 / x \<le> of_int (?m + 1)"
      using ceiling_correct [of "1 / x"] by auto
    then have "2 powi (bitlen ?m - 1) < 1 / x" "1 / x \<le> 2 powi (bitlen ?m)"
      using b by linarith+
    then have "x < inverse (2 powi (bitlen ?m - 1))" "inverse (2 powi (bitlen ?m)) \<le> x"
      using assms by (simp_all add: field_simps)
    then show ?thesis
      using False by (simp add: ilog2_def power_int_minus [symmetric])
  qed
  then show "2 powi (ilog2 x) \<le> x" and "x < 2 powi (ilog2 x + 1)" by auto
qed

lemma powi_mono: "i \<le> j \<Longrightarrow> (2 :: rat) powi i \<le> 2 powi j"
  by (rule power_int_increasing) auto

lemma powi_less_cancel: "(2 :: rat) powi i < 2 powi j \<Longrightarrow> i < j"
  using powi_mono [of j i] by fastforce

lemma ilog2_unique:
  assumes "2 powi e \<le> x" "x < 2 powi (e + 1)"
  shows "ilog2 x = e"
proof -
  have pos: "0 < x" using assms(1) by (meson less_le_trans zero_less_numeral zero_less_power_int)
  have "e < ilog2 x + 1"
    by (rule powi_less_cancel) (use assms(1) ilog2_bounds(2) [OF pos] in linarith)
  moreover have "ilog2 x < e + 1"
    by (rule powi_less_cancel) (use assms(2) ilog2_bounds(1) [OF pos] in linarith)
  ultimately show ?thesis by simp
qed

lemma ilog2_mono: "0 < x \<Longrightarrow> x \<le> y \<Longrightarrow> ilog2 x \<le> ilog2 y"
  using ilog2_bounds [of x] ilog2_bounds [of y] powi_less_cancel [of "ilog2 x" "ilog2 y + 1"]
  by (auto simp: order.strict_trans1)

section \<open>Rounding to an integer\<close>

lemma round_half_even_error: "\<bar>of_int (round_half_even y) - y\<bar> \<le> 1 / 2"
proof -
  define f where "f = \<lfloor>y\<rfloor>"
  have "of_int f \<le> y" "y < of_int f + 1" using floor_correct [of y] by (auto simp: f_def)
  then show ?thesis
    unfolding round_half_even_def Let_def f_def [symmetric] by (auto simp: abs_if)
qed

lemma round_half_even_of_int [simp]: "round_half_even (of_int n) = n"
  by (simp add: round_half_even_def)

lemma round_half_even_mono:
  assumes "x \<le> y"
  shows "round_half_even x \<le> round_half_even y"
proof (cases "\<lfloor>x\<rfloor> = \<lfloor>y\<rfloor>")
  case True
  then show ?thesis using assms by (auto simp: round_half_even_def Let_def)
next
  case False
  then have "\<lfloor>x\<rfloor> + 1 \<le> \<lfloor>y\<rfloor>" using floor_mono [OF assms] by linarith
  moreover have "round_half_even x \<le> \<lfloor>x\<rfloor> + 1" "\<lfloor>y\<rfloor> \<le> round_half_even y"
    by (auto simp: round_half_even_def Let_def)
  ultimately show ?thesis by linarith
qed

section \<open>Rounding to a double\<close>

lemma ulp_pos [simp]: "0 < ulp x"
  by (simp add: ulp_def)

lemma fl_pos_eq: "0 < x \<Longrightarrow> fl x = of_int (round_half_even (x / ulp x)) * ulp x"
  by (simp add: fl_def)

lemma fl_zero [simp]: "fl 0 = 0"
  by (simp add: fl_def)

lemma fl_uminus: "fl (- x) = - fl x"
  by (simp add: fl_def ulp_def sgn_minus)

lemma ulp_relative: "0 < x \<Longrightarrow> ulp x \<le> x / 2 ^ 52"
proof -
  assume "0 < x"
  have "ulp x * 2 ^ 52 = 2 powi (ilog2 \<bar>x\<bar>)"
    using power_int_add [of "2 :: rat" "ilog2 \<bar>x\<bar> - 52" 52] by (simp add: ulp_def)
  then show "ulp x \<le> x / 2 ^ 52" using ilog2_bounds(1) [OF \<open>0 < x\<close>] \<open>0 < x\<close> by simp
qed

lemma fl_error:
  assumes "0 \<le> x"
  shows "\<bar>fl x - x\<bar> \<le> x / 2 ^ 53"
proof (cases "x = 0")
  case False
  with assms have pos: "0 < x" by simp
  have "fl x - x = (of_int (round_half_even (x / ulp x)) - x / ulp x) * ulp x"
    using ulp_pos [of x] by (simp add: fl_pos_eq [OF pos] field_simps del: ulp_pos)
  then have "\<bar>fl x - x\<bar> = \<bar>of_int (round_half_even (x / ulp x)) - x / ulp x\<bar> * ulp x"
    using ulp_pos [of x] by (simp add: abs_mult less_imp_le)
  also have "\<dots> \<le> 1 / 2 * ulp x"
    by (intro mult_right_mono round_half_even_error) (simp add: less_imp_le)
  also have "\<dots> \<le> x / 2 ^ 53" using ulp_relative [OF pos] by simp
  finally show ?thesis .
qed simp

lemma fl_pos: "0 < x \<Longrightarrow> 0 < fl x"
proof -
  assume pos: "0 < x"
  then have "x / 2 ^ 53 < x" by simp
  with fl_error [of x] pos show "0 < fl x" unfolding abs_le_iff by linarith
qed

lemma fl_nonneg: "0 \<le> x \<Longrightarrow> 0 \<le> fl x"
  using fl_pos [of x] by (cases "x = 0") auto

text \<open>Integers below \<open>2 ^ 53\<close>, scaled by any power of two, are doubles.\<close>

lemma fl_exact:
  assumes "0 \<le> n" "n < 2 ^ 53"
  shows "fl (of_int n * 2 powi k) = of_int n * 2 powi k"
proof (cases "n = 0")
  case False
  with assms have n: "1 \<le> n" by simp
  let ?x = "of_int n * 2 powi k :: rat"
  have pos: "0 < ?x" using n by simp
  have "of_int n < (of_int (2 ^ 53) :: rat)" using assms(2) by (simp only: of_int_less_iff)
  then have "?x < 2 ^ 53 * 2 powi k" by simp
  also have "\<dots> = 2 powi (k + 53)" by (simp add: power_int_add)
  finally have "ilog2 ?x < k + 53"
    using ilog2_bounds(1) [OF pos] by (intro powi_less_cancel) linarith
  then obtain j where j: "k = (ilog2 ?x - 52) + int j"
    using zle_iff_zadd [of "ilog2 ?x - 52" k] by auto
  have "(2 :: rat) powi k = ulp ?x * 2 ^ j"
    using pos by (subst j) (simp add: ulp_def power_int_add)
  then have x: "?x = of_int (n * 2 ^ j) * ulp ?x" by (simp add: mult.commute)
  then have "?x / ulp ?x = of_int (n * 2 ^ j)"
    using ulp_pos [of ?x] by (metis less_irrefl nonzero_mult_div_cancel_right)
  then have "round_half_even (?x / ulp ?x) = n * 2 ^ j"
    by (simp only: round_half_even_of_int)
  with x show ?thesis by (simp only: fl_pos_eq [OF pos])
qed simp

lemma fl_of_int: "0 \<le> n \<Longrightarrow> n < 2 ^ 53 \<Longrightarrow> fl (of_int n) = of_int n"
  using fl_exact [of n 0] by simp

lemma fl_power: "fl (2 powi k) = 2 powi k"
  using fl_exact [of 1 k] by simp

text \<open>Rounding is monotone, also across a change of exponent.\<close>

lemma fl_binade:
  assumes "0 < x"
  shows "2 powi (ilog2 x) \<le> fl x" and "fl x \<le> 2 powi (ilog2 x + 1)"
proof -
  have u: "ulp x = 2 powi (ilog2 x - 52)" using assms by (simp add: ulp_def)
  have p: "(2 :: rat) powi (ilog2 x + of_nat i) = of_int (2 ^ (52 + i)) * ulp x" for i
    unfolding u using power_int_add [of "2 :: rat" "52 + int i" "ilog2 x - 52"]
    by (simp add: power_int_add power_add algebra_simps)
  have "of_int (2 ^ 52) \<le> x / ulp x" "x / ulp x \<le> of_int (2 ^ 53)"
    using ilog2_bounds [OF assms] p [of 0] p [of 1] ulp_pos [of x] by (simp_all add: field_simps)
  then have "2 ^ 52 \<le> round_half_even (x / ulp x)" "round_half_even (x / ulp x) \<le> 2 ^ 53"
    by (metis round_half_even_mono round_half_even_of_int)+
  then have "of_int (2 ^ 52) \<le> (of_int (round_half_even (x / ulp x)) :: rat)"
    and "(of_int (round_half_even (x / ulp x)) :: rat) \<le> of_int (2 ^ 53)"
    by (simp_all only: of_int_le_iff)
  then show "2 powi (ilog2 x) \<le> fl x" "fl x \<le> 2 powi (ilog2 x + 1)"
    using p [of 0] p [of 1] by (simp_all add: fl_pos_eq [OF assms] mult_right_mono less_imp_le)
qed

lemma fl_mono:
  assumes "0 \<le> x" "x \<le> y"
  shows "fl x \<le> fl y"
proof (cases "x = 0")
  case True
  then show ?thesis using assms by (simp add: fl_nonneg)
next
  case False
  with assms have pos: "0 < x" "0 < y" by auto
  show ?thesis
  proof (cases "ilog2 x = ilog2 y")
    case True
    then have "ulp x = ulp y" using pos by (simp add: ulp_def)
    then show ?thesis
      using assms(2) pos ulp_pos [of y]
      by (simp add: fl_pos_eq round_half_even_mono divide_right_mono mult_right_mono less_imp_le
          del: ulp_pos)
  next
    case False
    then have "ilog2 x + 1 \<le> ilog2 y" using ilog2_mono [OF pos(1) assms(2)] by simp
    then have "(2 :: rat) powi (ilog2 x + 1) \<le> 2 powi (ilog2 y)" by (rule powi_mono)
    then show ?thesis using fl_binade(2) [OF pos(1)] fl_binade(1) [OF pos(2)] by linarith
  qed
qed

section \<open>Doubles are fixed points, and relative errors\<close>

lemma fl_idem [simp]:
  assumes "0 \<le> x"
  shows "fl (fl x) = fl x"
proof (cases "x = 0")
  case False
  with assms have pos: "0 < x" by simp
  let ?e = "ilog2 x - 52" and ?m = "round_half_even (x / ulp x)"
  have u: "ulp x = 2 powi ?e" using pos by (simp add: ulp_def)
  have f: "fl x = of_int ?m * 2 powi ?e" by (simp add: fl_pos_eq [OF pos] u)
  have top: "(2 :: rat) powi (ilog2 x + 1) = 2 ^ 53 * 2 powi ?e"
    using power_int_add [of "2 :: rat" 53 ?e] by (simp add: algebra_simps)
  have "0 < of_int ?m * (2 :: rat) powi ?e" using fl_pos [OF pos] by (simp add: f)
  moreover have "\<not> (2 :: rat) powi ?e < 0" by (simp add: not_less)
  ultimately have m: "0 \<le> ?m" by (auto simp: zero_less_mult_iff)
  have "of_int ?m * 2 powi ?e \<le> 2 ^ 53 * (2 :: rat) powi ?e"
    using fl_binade(2) [OF pos] top by (simp add: f)
  then have "(of_int ?m :: rat) \<le> of_int (2 ^ 53)" by simp
  then have "?m \<le> 2 ^ 53" by (simp only: of_int_le_iff)
  then consider "?m < 2 ^ 53" | "?m = 2 ^ 53" by linarith
  then show ?thesis
  proof cases
    case 1
    show ?thesis unfolding f by (rule fl_exact [OF m 1])
  next
    case 2
    then have "fl x = 2 powi (ilog2 x + 1)" by (simp add: f top)
    then show ?thesis by (simp only: fl_power)
  qed
qed simp

lemma d_of_i64_nonneg: "0 \<le> sint w \<Longrightarrow> 0 \<le> d_of_i64 w"
  unfolding d_of_i64_def by (rule fl_nonneg) (simp only: of_int_0_le_iff)

lemma d_of_i64_exact: "0 \<le> sint w \<Longrightarrow> sint w < 2 ^ 53 \<Longrightarrow> d_of_i64 w = of_int (sint w)"
  unfolding d_of_i64_def by (rule fl_of_int)

lemma d_of_u64_nonneg [simp]: "0 \<le> d_of_u64 w"
  unfolding d_of_u64_def by (rule fl_nonneg) (simp only: of_int_0_le_iff uint_nonnegative)

lemma d_of_u64_exact: "uint w < 2 ^ 53 \<Longrightarrow> d_of_u64 w = of_int (uint w)"
  unfolding d_of_u64_def by (rule fl_of_int) simp_all

lemma d_add_ge:
  assumes "0 \<le> s" "fl s = s" "0 \<le> x"
  shows "s \<le> d_add s x"
  using fl_mono [of s "s + x"] assms by (simp add: d_add_def)

lemma fl_idem_d_add [simp]: "0 \<le> s \<Longrightarrow> 0 \<le> x \<Longrightarrow> fl (d_add s x) = d_add s x"
  by (simp add: d_add_def)

text \<open>\<open>near e x y\<close>: \<open>x\<close> is \<open>y\<close> up to the relative error \<open>e\<close>.\<close>

definition near :: "rat \<Rightarrow> rat \<Rightarrow> rat \<Rightarrow> bool" where
  "near e x y \<longleftrightarrow> (1 - e) * y \<le> x \<and> x \<le> (1 + e) * y"

lemma near_refl: "near 0 x x"
  by (simp add: near_def)

lemma near_weaken: "near e x y \<Longrightarrow> e \<le> e' \<Longrightarrow> 0 \<le> y \<Longrightarrow> near e' x y"
  unfolding near_def
  by (meson add_left_mono diff_left_mono mult_right_mono order_trans)

lemma near_abs: "near e x y \<longleftrightarrow> \<bar>x - y\<bar> \<le> e * y"
  by (auto simp: near_def abs_le_iff algebra_simps)

lemma near_mult: "near e x y \<Longrightarrow> 0 \<le> c \<Longrightarrow> near e (x * c) (y * c)"
  unfolding near_def by (metis mult.assoc mult_right_mono)

lemma near_divide: "near e x y \<Longrightarrow> 0 \<le> c \<Longrightarrow> near e (x / c) (y / c)"
  using near_mult [of e x y "1 / c"] by simp

lemma near_fl:
  assumes "near e x y" "0 \<le> e" "e \<le> 1" "0 \<le> y"
  shows "near (e + (1 + e) / 2 ^ 53) (fl x) y"
proof -
  have "0 \<le> (1 - e) * y" using assms by (intro mult_nonneg_nonneg) auto
  then have x: "0 \<le> x" "x \<le> (1 + e) * y" using assms(1) by (auto simp: near_def)
  have "\<bar>fl x - y\<bar> \<le> \<bar>fl x - x\<bar> + \<bar>x - y\<bar>" by linarith
  also have "\<dots> \<le> (1 + e) * y / 2 ^ 53 + e * y"
    using fl_error [OF x(1)] x(2) assms(1) by (intro add_mono) (auto simp: near_abs)
  also have "\<dots> = (e + (1 + e) / 2 ^ 53) * y" by (simp add: algebra_simps)
  finally show ?thesis by (simp only: near_abs)
qed

lemma near_inverse:
  assumes "near e x y" "0 \<le> e" "e \<le> 1 / 2" "0 < y" "0 \<le> c"
  shows "near (2 * e) (c / x) (c / y)"
proof -
  have "0 < (1 - e) * y" using assms by (intro mult_pos_pos) auto
  then have x: "(1 - e) * y \<le> x" "x \<le> (1 + e) * y" "0 < x"
    using assms(1) by (auto simp: near_def)
  have "(1 - 2 * e) * x \<le> (1 - 2 * e) * ((1 + e) * y)"
    using assms(3) x by (intro mult_left_mono) auto
  also have "\<dots> = y - (e + 2 * e * e) * y" by (simp add: algebra_simps)
  also have "\<dots> \<le> y" using assms by simp
  finally have lo: "(1 - 2 * e) * x \<le> y" .
  have "y \<le> y + (e - 2 * e * e) * y"
    using assms mult_left_mono [of "2 * e" 1 e] by simp
  also have "\<dots> = (1 + 2 * e) * ((1 - e) * y)" by (simp add: algebra_simps)
  also have "\<dots> \<le> (1 + 2 * e) * x" using assms(2) x by (intro mult_left_mono) auto
  finally have hi: "y \<le> (1 + 2 * e) * x" .
  have "(1 - 2 * e) * (c / y) \<le> c / x" "c / x \<le> (1 + 2 * e) * (c / y)"
    using mult_right_mono [OF lo assms(5)] mult_right_mono [OF hi assms(5)] x(3) assms(4)
    by (simp_all add: field_simps)
  then show ?thesis by (simp add: near_def)
qed

end
