(* ===== verification/CText.thy ===== *)
theory CText
  imports Binary64
begin

text \<open>
  The text functions of the C and C++ libraries the plugin calls: decimal output of
  integers and of doubles with two decimals (\<^verbatim>\<open>std::ostream\<close> with \<^verbatim>\<open>fixed\<close> and
  \<^verbatim>\<open>setprecision(2)\<close>), and \<^verbatim>\<open>strtoul\<close>/\<^verbatim>\<open>strtoull\<close> in base 10, both 64 bits wide on
  the platform.
\<close>

section \<open>Decimal output\<close>

definition digit :: "nat \<Rightarrow> char" where
  "digit d = char_of (48 + d)"

definition digit_val :: "char \<Rightarrow> nat" where
  "digit_val c = of_char c - 48"

definition is_digit :: "char \<Rightarrow> bool" where
  "is_digit c \<longleftrightarrow> 48 \<le> (of_char c :: nat) \<and> (of_char c :: nat) \<le> 57"

fun show_nat :: "nat \<Rightarrow> string" where
  "show_nat n = (if n < 10 then [digit n] else show_nat (n div 10) @ [digit (n mod 10)])"

declare show_nat.simps [simp del]

definition show_int :: "int \<Rightarrow> string" where
  "show_int i = (if i < 0 then CHR ''-'' # show_nat (nat (- i)) else show_nat (nat i))"

abbreviation show_u64 :: "u64 \<Rightarrow> string" where "show_u64 w \<equiv> show_nat (unat w)"
abbreviation show_u32 :: "u32 \<Rightarrow> string" where "show_u32 w \<equiv> show_nat (unat w)"
abbreviation show_i64 :: "i64 \<Rightarrow> string" where "show_i64 w \<equiv> show_int (sint w)"

text \<open>\<^verbatim>\<open>std::fixed << std::setprecision(2)\<close>: the exact value, rounded half to even.\<close>

definition show_fixed2 :: "rat \<Rightarrow> string" where
  "show_fixed2 x =
     (let n = nat (round_half_even (\<bar>x\<bar> * 100))
      in (if x < 0 then ''-'' else '''') @ show_nat (n div 100) @ ''.'' @
         [digit (n div 10 mod 10), digit (n mod 10)])"

section \<open>Decimal input\<close>

fun dec_val :: "nat \<Rightarrow> string \<Rightarrow> nat" where
  "dec_val acc [] = acc"
| "dec_val acc (c # cs) = dec_val (acc * 10 + digit_val c) cs"

definition is_space :: "char \<Rightarrow> bool" where
  "is_space c \<longleftrightarrow> (of_char c :: nat) = 32 \<or> 9 \<le> (of_char c :: nat) \<and> (of_char c :: nat) \<le> 13"

text \<open>
  \<^verbatim>\<open>strtoull(s, &endp, 10)\<close>: the value, the number of characters before \<^verbatim>\<open>endp\<close> (0
  when nothing was converted), and whether \<^verbatim>\<open>errno\<close> became \<^verbatim>\<open>ERANGE\<close>. White space and
  one sign may precede the digits, a minus sign negates modulo \<open>2 ^ 64\<close>, and a number out
  of range gives the largest value.
\<close>

definition strtoull :: "string \<Rightarrow> u64 \<times> nat \<times> bool" where
  "strtoull s =
     (let ws = takeWhile is_space s;
          s1 = dropWhile is_space s;
          neg = (case s1 of c # _ \<Rightarrow> c = CHR ''-'' | [] \<Rightarrow> False);
          signed = (case s1 of c # _ \<Rightarrow> c = CHR ''-'' \<or> c = CHR ''+'' | [] \<Rightarrow> False);
          s2 = (if signed then tl s1 else s1);
          ds = takeWhile is_digit s2;
          v = dec_val 0 ds;
          used = length ws + (if signed then 1 else 0) + length ds
      in if ds = [] then (0, 0, False)
         else if 2 ^ 64 \<le> v then (- 1, used, True)
         else (if neg then - of_nat v else of_nat v, used, False))"

section \<open>Reading back what was written\<close>

lemma of_char_digit: "d < 10 \<Longrightarrow> (of_char (digit d) :: nat) = 48 + d"
  by (simp add: digit_def)

lemma is_digit_digit [simp]: "d < 10 \<Longrightarrow> is_digit (digit d)"
  by (simp add: is_digit_def of_char_digit)

lemma digit_val_digit [simp]: "d < 10 \<Longrightarrow> digit_val (digit d) = d"
  by (simp add: digit_val_def of_char_digit)

lemma show_nat_digits: "\<forall>c \<in> set (show_nat n). is_digit c"
  by (induction n rule: show_nat.induct) (subst show_nat.simps, auto)

lemma show_chars:
  assumes "\<not> is_digit c"
  shows "c \<notin> set (show_nat n)" and "c \<noteq> CHR ''-'' \<Longrightarrow> c \<notin> set (show_int i)"
    and "c \<noteq> CHR ''-'' \<Longrightarrow> c \<noteq> CHR ''.'' \<Longrightarrow> c \<notin> set (show_fixed2 x)"
proof -
  show n: "c \<notin> set (show_nat n)" for n using show_nat_digits [of n] assms by auto
  have "c \<noteq> digit d" if "d < 10" for d using is_digit_digit [OF that] assms by auto
  with n show "c \<noteq> CHR ''-'' \<Longrightarrow> c \<notin> set (show_int i)"
    "c \<noteq> CHR ''-'' \<Longrightarrow> c \<noteq> CHR ''.'' \<Longrightarrow> c \<notin> set (show_fixed2 x)"
    by (auto simp: show_int_def show_fixed2_def Let_def)
qed

lemma show_nat_nonempty [simp]: "show_nat n \<noteq> []"
  by (subst show_nat.simps) simp

lemma dec_val_append: "dec_val acc (xs @ ys) = dec_val (dec_val acc xs) ys"
  by (induction acc xs rule: dec_val.induct) auto

lemma dec_val_show_nat [simp]: "dec_val 0 (show_nat n) = n"
proof (induction n rule: show_nat.induct)
  case (1 n)
  then show ?case
    by (cases "n < 10") (simp_all add: show_nat.simps [of n] dec_val_append)
qed

lemma show_nat_inject [simp]: "show_nat m = show_nat n \<longleftrightarrow> m = n"
  by (metis dec_val_show_nat)

lemma digit_not_space: "is_digit c \<Longrightarrow> \<not> is_space c"
  by (auto simp: is_digit_def is_space_def)

lemma digit_not_sign: "is_digit c \<Longrightarrow> c \<noteq> CHR ''-'' \<and> c \<noteq> CHR ''+''"
  by (auto simp: is_digit_def)

lemma strtoull_digits:
  assumes "ds \<noteq> []" "\<forall>c \<in> set ds. is_digit c" "\<And>c cs. rest = c # cs \<Longrightarrow> \<not> is_digit c"
  shows "strtoull (ds @ rest) =
    (if 2 ^ 64 \<le> dec_val 0 ds then (- 1, length ds, True)
     else (of_nat (dec_val 0 ds), length ds, False))"
proof -
  obtain c cs where ds: "ds = c # cs" using assms(1) by (cases ds) auto
  then have c: "is_digit c" "\<not> is_space c" "c \<noteq> CHR ''-''" "c \<noteq> CHR ''+''"
    using assms(2) digit_not_space digit_not_sign by auto
  have "takeWhile is_digit (ds @ rest) = ds"
    using assms(2,3) by (cases rest) (auto simp: takeWhile_append2 takeWhile_tail)
  then have "takeWhile is_digit (c # cs @ rest) = c # cs" by (simp add: ds)
  then show ?thesis
    unfolding strtoull_def ds by (simp add: c Let_def)
qed

lemma strtoull_show_nat:
  "n < 2 ^ 64 \<Longrightarrow> strtoull (show_nat n) = (of_nat n, length (show_nat n), False)"
  using strtoull_digits [of "show_nat n" "[]"] show_nat_digits by simp

end
