(* ===== verification/Printf.thy ===== *)
theory Printf
  imports CText
begin

text \<open>
  \<^verbatim>\<open>snprintf(buf, n, format, i)\<close> with one \<^verbatim>\<open>int\<close> argument and a format that comes from
  the configuration file. \<^const>\<open>None\<close> stands for a format C leaves undefined with this
  argument: a second conversion, one that wants another type, an unfinished one.
\<close>

section \<open>One conversion\<close>

record conv_spec =
  cs_flags :: string
  cs_width :: nat
  cs_prec :: "nat option"
  cs_bits :: nat

definition is_flag :: "char \<Rightarrow> bool" where
  "is_flag c \<longleftrightarrow> c \<in> set ''-+ #0''"

definition xdigit :: "bool \<Rightarrow> nat \<Rightarrow> char" where
  "xdigit upper d = (if d < 10 then digit d else char_of ((if upper then 55 else 87) + d))"

fun show_base :: "nat \<Rightarrow> bool \<Rightarrow> nat \<Rightarrow> string" where
  "show_base b upper n =
     (if n < b \<or> b < 2 then [xdigit upper n]
      else show_base b upper (n div b) @ [xdigit upper (n mod b)])"

declare show_base.simps [simp del]

text \<open>Precision: at least so many digits, and none for zero when it is zero.\<close>

definition with_prec :: "conv_spec \<Rightarrow> nat \<Rightarrow> string \<Rightarrow> string" where
  "with_prec sp n ds =
     (case cs_prec sp of
        None \<Rightarrow> ds
      | Some p \<Rightarrow> if p = 0 \<and> n = 0 then '''' else replicate (p - length ds) (CHR ''0'') @ ds)"

definition layout :: "conv_spec \<Rightarrow> string \<Rightarrow> string \<Rightarrow> string" where
  "layout sp sign body =
     (let gap = cs_width sp - (length sign + length body) in
      if CHR ''-'' \<in> set (cs_flags sp) then sign @ body @ replicate gap (CHR '' '')
      else if CHR ''0'' \<in> set (cs_flags sp) \<and> cs_prec sp = None
      then sign @ replicate gap (CHR ''0'') @ body
      else replicate gap (CHR '' '') @ sign @ body)"

definition show_conv :: "conv_spec \<Rightarrow> char \<Rightarrow> i32 \<Rightarrow> string option" where
  "show_conv sp c i =
     (let s = signed_take_bit (cs_bits sp - 1) (sint i);
          u = nat (take_bit (cs_bits sp) (uint i));
          alt = CHR ''#'' \<in> set (cs_flags sp);
          sign = (if s < 0 then ''-'' else if CHR ''+'' \<in> set (cs_flags sp) then ''+''
                  else if CHR '' '' \<in> set (cs_flags sp) then '' '' else '''')
      in if c = CHR ''d'' \<or> c = CHR ''i'' then
           Some (layout sp sign (with_prec sp (nat \<bar>s\<bar>) (show_nat (nat \<bar>s\<bar>))))
         else if c = CHR ''u'' then Some (layout sp '''' (with_prec sp u (show_nat u)))
         else if c = CHR ''o'' then
           (let ds = with_prec sp u (show_base 8 False u)
            in Some (layout sp ''''
                 (if alt \<and> (ds = [] \<or> hd ds \<noteq> CHR ''0'') then CHR ''0'' # ds else ds)))
         else if c = CHR ''x'' \<or> c = CHR ''X'' then
           Some (layout sp (if alt \<and> u \<noteq> 0 then [CHR ''0'', c] else '''')
             (with_prec sp u (show_base 16 (c = CHR ''X'') u)))
         else if c = CHR ''c'' \<and> set (cs_flags sp) \<subseteq> {CHR ''-''} \<and> cs_prec sp = None
              \<and> cs_bits sp = 32
         then Some (layout sp '''' [char_of (nat (take_bit 8 (uint i)))])
         else None)"

section \<open>The format\<close>

text \<open>The specification after a percent sign, and what follows it.\<close>

definition conv_prec :: "string \<Rightarrow> nat option \<times> string" where
  "conv_prec cs =
     (case cs of
        [] \<Rightarrow> (None, [])
      | c # r \<Rightarrow> if c = CHR ''.'' then (Some (dec_val 0 (takeWhile is_digit r)), dropWhile is_digit r)
                else (None, cs))"

definition conv_bits :: "string \<Rightarrow> nat \<times> string" where
  "conv_bits cs =
     (if starts_with ''hh'' cs then (8, drop 2 cs)
      else if starts_with ''h'' cs then (16, drop 1 cs) else (32, cs))"

definition parse_conv :: "string \<Rightarrow> conv_spec \<times> string" where
  "parse_conv cs =
     (let flags = takeWhile is_flag cs; r1 = dropWhile is_flag cs;
          width = dec_val 0 (takeWhile is_digit r1); r2 = dropWhile is_digit r1;
          (prec, r3) = conv_prec r2; (bits, r4) = conv_bits r3
      in (\<lparr>cs_flags = flags, cs_width = width, cs_prec = prec, cs_bits = bits\<rparr>, r4))"

lemma length_parse_conv: "length (snd (parse_conv cs)) \<le> length cs"
proof -
  have "length (dropWhile is_digit (dropWhile is_flag cs)) \<le> length cs"
    by (meson length_dropWhile_le order_trans)
  moreover have "length (snd (conv_prec r)) \<le> length r" for r
    by (auto simp: conv_prec_def le_SucI length_dropWhile_le split: list.split)
  moreover have "length (snd (conv_bits r)) \<le> length r" for r
    by (simp add: conv_bits_def)
  ultimately show ?thesis
    by (simp add: parse_conv_def Let_def case_prod_beta) (meson order_trans)
qed

lemma parse_conv_shorter: "(sp, cv # rest) = parse_conv cs \<Longrightarrow> length rest < Suc (length cs)"
  using length_parse_conv [of cs] by (cases "parse_conv cs") auto

function format_int :: "string \<Rightarrow> bool \<Rightarrow> i32 \<Rightarrow> string option" where
  "format_int [] used i = Some []"
| "format_int (c # cs) used i =
     (if c \<noteq> CHR ''%'' then map_option ((#) c) (format_int cs used i)
      else if starts_with ''%'' cs then map_option ((#) c) (format_int (tl cs) used i)
      else case parse_conv cs of (sp, r) \<Rightarrow>
        (case r of
           [] \<Rightarrow> None
         | cv # rest \<Rightarrow>
             if used then None
             else case show_conv sp cv i of
               None \<Rightarrow> None
             | Some text \<Rightarrow> map_option ((@) text) (format_int rest True i)))"
  by pat_completeness auto
termination
  by (relation "measure (\<lambda>(cs, _, _). length cs)") (auto dest: parse_conv_shorter)

declare format_int.simps [simp del]

text \<open>A result that does not fit an \<^verbatim>\<open>int\<close> has no defined count either.\<close>

definition snprintf_int :: "string \<Rightarrow> i32 \<Rightarrow> string option" where
  "snprintf_int fmt i =
     (case format_int fmt False i of
        None \<Rightarrow> None | Some text \<Rightarrow> if length text < 2 ^ 31 then Some text else None)"

section \<open>Formats with one decimal conversion\<close>

lemma format_plain:
  "CHR ''%'' \<notin> set a \<Longrightarrow> format_int (a @ rest) used i = map_option ((@) a) (format_int rest used i)"
proof (induction a)
  case Nil
  have "(@) [] = (\<lambda>x :: string. x)" by auto
  then show ?case by (simp add: option.map_ident)
next
  case (Cons c a)
  have "(@) (c # a) = (\<lambda>x. c # a @ x)" by auto
  with Cons show ?case
    by (subst append_Cons, subst format_int.simps) (auto simp: option.map_comp comp_def)
qed

definition zero_padded :: "nat \<Rightarrow> nat \<Rightarrow> string" where
  "zero_padded w n = replicate (w - length (show_nat n)) (CHR ''0'') @ show_nat n"

lemma zero_padded_0 [simp]: "zero_padded 0 n = show_nat n"
  by (simp add: zero_padded_def)

lemma dec_val_zero_padded [simp]: "dec_val 0 (zero_padded w n) = n"
proof -
  have "dec_val 0 (replicate k (CHR ''0'')) = 0" for k
    by (induction k) (simp_all add: digit_val_def)
  then show ?thesis by (simp add: zero_padded_def dec_val_append)
qed

lemma zero_padded_inject: "zero_padded w m = zero_padded w n \<longleftrightarrow> m = n"
  by (metis dec_val_zero_padded)

lemma format_zero_padded:
  assumes "CHR ''%'' \<notin> set b" "n < 2 ^ 31"
    and "\<forall>c \<in> set w. is_digit c" "w = [] \<or> hd w \<noteq> CHR ''0''"
  shows "format_int (''%0'' @ w @ ''d'' @ b) False (of_nat n) =
    Some (zero_padded (dec_val 0 w) n @ b)"
proof -
  have flags: "takeWhile is_flag (w @ CHR ''d'' # b) = []" "dropWhile is_flag (w @ CHR ''d'' # b) = w @ CHR ''d'' # b"
    using assms(3,4) by (cases w; auto simp: is_flag_def is_digit_def)+
  have digits: "takeWhile is_digit (w @ CHR ''d'' # b) = w" "dropWhile is_digit (w @ CHR ''d'' # b) = CHR ''d'' # b"
    using assms(3) by (simp_all add: takeWhile_append2 dropWhile_append2 is_digit_def)
  have parse: "parse_conv (CHR ''0'' # w @ CHR ''d'' # b) =
    (\<lparr>cs_flags = ''0'', cs_width = dec_val 0 w, cs_prec = None, cs_bits = 32\<rparr>, CHR ''d'' # b)"
    by (simp add: parse_conv_def is_flag_def [of "CHR ''0''"] flags digits conv_prec_def
        conv_bits_def starts_with_def)
  have n: "sint (of_nat n :: i32) = int n"
  proof -
    have "uint (of_nat n :: i32) = int n"
      using assms(2) by (simp add: uint_nat unat_of_nat take_bit_nat_eq_self)
    then show ?thesis using assms(2) sint_eq_uint_small [of "of_nat n :: i32"] by simp
  qed
  have "signed_take_bit 31 (int n) = int n"
    using assms(2) by (simp add: signed_take_bit_int_eq_self)
  then have conv: "show_conv \<lparr>cs_flags = ''0'', cs_width = dec_val 0 w, cs_prec = None, cs_bits = 32\<rparr>
      (CHR ''d'') (of_nat n) = Some (zero_padded (dec_val 0 w) n)"
    by (simp add: show_conv_def n layout_def with_prec_def zero_padded_def)
  have "format_int b True (of_nat n) = Some b"
    using format_plain [OF assms(1), of "[]" True] by (simp add: format_int.simps)
  then show ?thesis
    by (simp add: format_int.simps starts_with_def parse conv)
qed

end
