(* ===== verification/Config.thy ===== *)
theory Config
  imports BlackholeFS Printf
begin

text \<open>
  The configuration the storage plugin object keeps (\<^verbatim>\<open>class XrdBlackholeOss\<close>), one
  member per directive, and the handlers that read it: \<^verbatim>\<open>Configure\<close> and the four
  \<^verbatim>\<open>cfg_\<close> functions of \<^verbatim>\<open>XrdBlackholeOss.cc\<close>. The tokeniser \<^verbatim>\<open>XrdOucStream\<close> belongs
  to XRootD: its calls are the fields of \<open>stream_ops\<close>, on a stream state of any type.
  What it logs is in \<open>Config_Log\<close>.
\<close>

section \<open>The plugin object\<close>

record oss =
  m_writespeedMiBs :: u64
  m_defaultspath :: string
  m_readtype_oss :: string

definition new_oss :: oss where
  "new_oss = \<lparr>m_writespeedMiBs = 0, m_defaultspath = '''', m_readtype_oss = ''zeros''\<rparr>"

definition writespeedMiBs :: "oss \<Rightarrow> u64" where
  "writespeedMiBs this = m_writespeedMiBs this"

section \<open>The calls into XRootD\<close>

text \<open>
  \<open>Attach\<close> stands for \<^verbatim>\<open>open\<close> and \<^verbatim>\<open>Attach\<close>: the error number or the stream on the
  file. \<open>GetRest\<close> gives its result and the text it left in the buffer. \<open>Emsg\<close> is the value
  the error logger returns for an error number.
\<close>

record 'st stream_ops =
  Attach :: "string \<Rightarrow> int + 'st"
  GetMyFirstWord :: "'st \<Rightarrow> string option \<times> 'st"
  GetWord :: "'st \<Rightarrow> string option \<times> 'st"
  GetRest :: "nat \<Rightarrow> 'st \<Rightarrow> bool \<times> string \<times> 'st"
  LastError :: "'st \<Rightarrow> int"
  Emsg :: "int \<Rightarrow> int"

section \<open>The directives with a fixed number of words\<close>

abbreviation (input) INT_MAX :: u64 where "INT_MAX \<equiv> 2147483647"

definition cfg_writespeedMiBps ::
  "'st stream_ops \<Rightarrow> 'st \<Rightarrow> oss \<Rightarrow> bool \<times> oss \<times> 'st" where
  "cfg_writespeedMiBps ops cfg this =
     (let (val, cfg1) = GetWord ops cfg in
      case val of
        None \<Rightarrow> (False, this, cfg1)
      | Some v \<Rightarrow>
          let (value, used, erange) = strtoull v in
          if used = 0 \<or> used \<noteq> length v then (False, this, cfg1)
          else if erange \<or> INT_MAX \<le> value then (False, this, cfg1)
          else (True, this\<lparr>m_writespeedMiBs := value\<rparr>, cfg1))"

text \<open>The outcome of \<^verbatim>\<open>GetRest\<close> only decides whether a warning is logged.\<close>

definition cfg_defaultspath ::
  "'st stream_ops \<Rightarrow> 'st \<Rightarrow> oss \<Rightarrow> bhfs \<Rightarrow> bool \<times> oss \<times> bhfs \<times> 'st" where
  "cfg_defaultspath ops cfg this fs =
     (let (val, cfg1) = GetWord ops cfg in
      case val of
        None \<Rightarrow> (False, this, fs, cfg1)
      | Some v \<Rightarrow>
          let (_, _, cfg2) = GetRest ops 1040 cfg1;
              this1 = this\<lparr>m_defaultspath := v\<rparr>
          in (True, this1, create_defaults (m_defaultspath this1) fs, cfg2))"

definition cfg_readtype ::
  "'st stream_ops \<Rightarrow> 'st \<Rightarrow> oss \<Rightarrow> bool \<times> oss \<times> 'st" where
  "cfg_readtype ops cfg this =
     (let (val, cfg1) = GetWord ops cfg in
      case val of
        None \<Rightarrow> (False, this, cfg1)
      | Some v \<Rightarrow>
          if v \<noteq> ''zeros'' then (False, this, cfg1)
          else (True, this\<lparr>m_readtype_oss := v\<rparr>, cfg1))"

section \<open>The seedfile directive\<close>

text \<open>A size: digits and one suffix letter of either case; what follows the letter is
  not looked at.\<close>

definition lower :: "char \<Rightarrow> char" where
  "lower c = char_of ((of_char c :: nat) OR 32)"

definition parse_size :: "string \<Rightarrow> u64 option" where
  "parse_size sizeval =
     (let (sz, used, erange) = strtoull sizeval in
      if used = 0 \<or> erange then None
      else case drop used sizeval of
        [] \<Rightarrow> Some sz
      | c # _ \<Rightarrow>
          if lower c = CHR ''k'' then Some (sz * 1024)
          else if lower c = CHR ''m'' then Some (sz * (1024 * 1024))
          else if lower c = CHR ''g'' then Some (sz * (1024 * 1024 * 1024))
          else if lower c = CHR ''t'' then Some (sz * (1024 * 1024 * 1024 * 1024))
          else None)"

text \<open>
  The loop over the optional words. Outer \<^const>\<open>None\<close>: it does not end; inner
  \<^const>\<open>None\<close>: a bad option.
\<close>

partial_function (option) seedfile_options ::
  "'st stream_ops \<Rightarrow> 'st \<Rightarrow> u64 \<Rightarrow> string \<Rightarrow> ((u64 \<times> string) option \<times> 'st) option" where
  "seedfile_options ops cfg count readtype =
     (case GetWord ops cfg of (tok, cfg1) \<Rightarrow>
      (case tok of
         None \<Rightarrow> Some (Some (count, readtype), cfg1)
       | Some t \<Rightarrow>
           if starts_with ''count='' t then
             (case strtoull (drop 6 t) of (value, used, erange) \<Rightarrow>
              if used = 0 \<or> used \<noteq> length (drop 6 t) \<or> erange \<or> value = 0
              then Some (None, cfg1)
              else seedfile_options ops cfg1 value readtype)
           else if starts_with ''type='' t then
             (if drop 5 t \<noteq> ''zeros'' \<and> drop 5 t \<noteq> ''random'' then Some (None, cfg1)
              else seedfile_options ops cfg1 count (drop 5 t))
           else seedfile_options ops cfg1 count readtype))"

text \<open>The seeding loop, with the number of turns left and the index; the C string in the
  buffer ends at the first NUL. \<^const>\<open>None\<close> when C leaves the format undefined.\<close>

definition c_str :: "string \<Rightarrow> string" where
  "c_str s = takeWhile (\<lambda>c. c \<noteq> CHR 0x00) s"

fun seed_numbered ::
  "nat \<Rightarrow> nat \<Rightarrow> string \<Rightarrow> u64 \<Rightarrow> string \<Rightarrow> bhfs \<Rightarrow> (bool \<times> bhfs) option" where
  "seed_numbered 0 i path sz readtype fs = Some (True, fs)"
| "seed_numbered (Suc k) i path sz readtype fs =
     (case snprintf_int path (of_nat i) of
        None \<Rightarrow> None
      | Some text \<Rightarrow>
          if 4096 \<le> length text then Some (False, fs)
          else seed_numbered k (Suc i) path sz readtype (seed (c_str text) sz readtype fs))"

definition cfg_seedfile ::
  "'st stream_ops \<Rightarrow> 'st \<Rightarrow> bhfs \<Rightarrow> (bool \<times> bhfs \<times> 'st) option" where
  "cfg_seedfile ops cfg fs =
     (case GetWord ops cfg of
        (None, cfg1) \<Rightarrow> Some (False, fs, cfg1)
      | (Some path, cfg1) \<Rightarrow>
      (case GetWord ops cfg1 of
        (None, cfg2) \<Rightarrow> Some (False, fs, cfg2)
      | (Some sizeval, cfg2) \<Rightarrow>
      (case parse_size sizeval of
        None \<Rightarrow> Some (False, fs, cfg2)
      | Some sz \<Rightarrow>
      (case seedfile_options ops cfg2 1 ''zeros'' of
        None \<Rightarrow> None
      | Some (None, cfg3) \<Rightarrow> Some (False, fs, cfg3)
      | Some (Some (count, readtype), cfg3) \<Rightarrow>
          if 1 < count \<and> CHR ''%'' \<notin> set path then Some (False, fs, cfg3)
          else if count = 1 then Some (True, seed path sz readtype fs, cfg3)
          else case seed_numbered (unat count) 0 path sz readtype fs of
            None \<Rightarrow> None
          | Some (ok, fs1) \<Rightarrow> Some (ok, fs1, cfg3)))))"

section \<open>Configure\<close>

datatype directive = Writespeed | Defaultspath | Readtype | Seedfile

definition k_directives :: "(string \<times> directive) list" where
  "k_directives =
     [(''blackhole.writespeedMiBps'', Writespeed),
      (''blackhole.defaultspath'', Defaultspath),
      (''blackhole.readtype'', Readtype),
      (''blackhole.seedfile'', Seedfile)]"

fun parse_directive ::
  "'st stream_ops \<Rightarrow> directive \<Rightarrow> 'st \<Rightarrow> oss \<Rightarrow> bhfs \<Rightarrow> (bool \<times> oss \<times> bhfs \<times> 'st) option" where
  "parse_directive ops Writespeed cfg this fs =
     (let (ok, this1, cfg1) = cfg_writespeedMiBps ops cfg this in Some (ok, this1, fs, cfg1))"
| "parse_directive ops Defaultspath cfg this fs = Some (cfg_defaultspath ops cfg this fs)"
| "parse_directive ops Readtype cfg this fs =
     (let (ok, this1, cfg1) = cfg_readtype ops cfg this in Some (ok, this1, fs, cfg1))"
| "parse_directive ops Seedfile cfg this fs =
     map_option (\<lambda>(ok, fs1, cfg1). (ok, this, fs1, cfg1)) (cfg_seedfile ops cfg fs)"

partial_function (option) configure_loop ::
  "'st stream_ops \<Rightarrow> 'st \<Rightarrow> int \<Rightarrow> oss \<Rightarrow> bhfs \<Rightarrow> (int \<times> oss \<times> bhfs \<times> 'st) option" where
  "configure_loop ops cfg NoGo this fs =
     (case GetMyFirstWord ops cfg of (var, cfg1) \<Rightarrow>
      (case var of
         None \<Rightarrow> Some (NoGo, this, fs, cfg1)
       | Some v \<Rightarrow>
           (case map_of k_directives v of
              None \<Rightarrow> configure_loop ops cfg1 NoGo this fs
            | Some d \<Rightarrow>
                (case parse_directive ops d cfg1 this fs of
                   None \<Rightarrow> None
                 | Some (ok, this1, fs1, cfg2) \<Rightarrow>
                     configure_loop ops cfg2 (if ok then NoGo else 1) this1 fs1))))"

definition Configure ::
  "'st stream_ops \<Rightarrow> string option \<Rightarrow> oss \<Rightarrow> bhfs \<Rightarrow> (int \<times> oss \<times> bhfs) option" where
  "Configure ops configfn this fs =
     (case configfn of
        None \<Rightarrow> Some (0, this, fs)
      | Some fn \<Rightarrow>
          if fn = '''' then Some (0, this, fs)
          else case Attach ops fn of
            Inl errno \<Rightarrow> Some (1, this, fs)
          | Inr cfg \<Rightarrow>
              (case configure_loop ops cfg 0 this fs of
                 None \<Rightarrow> None
               | Some (NoGo, this1, fs1, cfg1) \<Rightarrow>
                   let retc = LastError ops cfg1
                   in Some (if retc \<noteq> 0 then Emsg ops (- retc) else NoGo, this1, fs1)))"

text \<open>The summary line logged at the end, also the text an operator reads.\<close>

definition logConfig :: "oss \<Rightarrow> string" where
  "logConfig this =
     ''Configured:'' @
     '' writespeedMiBps='' @
       (if m_writespeedMiBs this = 0 then ''unlimited'' else show_u64 (m_writespeedMiBs this)) @
     '' defaultspath='' @ (if m_defaultspath this = '''' then ''(none)'' else m_defaultspath this) @
     '' readtype='' @ m_readtype_oss this"

text \<open>The constructor runs the configuration and drops its result.\<close>

definition construct_oss ::
  "'st stream_ops \<Rightarrow> string option \<Rightarrow> bhfs \<Rightarrow> (oss \<times> bhfs) option" where
  "construct_oss ops configfn fs =
     map_option (\<lambda>(_, this, fs1). (this, fs1)) (Configure ops configfn new_oss fs)"

end
