(* ===== verification/Stats.thy ===== *)
theory Stats
  imports CText
begin

text \<open>
  \<^verbatim>\<open>XrdBlackholeStats.hh\<close> and \<^verbatim>\<open>XrdBlackholeStats.cc\<close>: the record a file handle
  submits when it closes, and the manager that logs it and adds it to the totals of the
  server. \<^verbatim>\<open>recordTransfer\<close>, \<^verbatim>\<open>getSnapshot\<close> and \<^verbatim>\<open>logSummary\<close> hold the manager's
  mutex while they touch the totals, so each is one function of the manager's state;
  what they log is the text a second function gives.
\<close>

section \<open>Data\<close>

record TransferStats =
  ts_path :: string
  open_time :: int
  duration_us :: i64
  bytes_written :: i64
  bytes_read :: i64
  write_ops :: u32
  write_aio_ops :: u32
  read_ops :: u32
  ts_errors :: u32
  was_write :: bool

definition empty_stats :: TransferStats where
  "empty_stats = \<lparr>ts_path = [], open_time = 0, duration_us = 0, bytes_written = 0,
     bytes_read = 0, write_ops = 0, write_aio_ops = 0, read_ops = 0, ts_errors = 0,
     was_write = False\<rparr>"

record stats_manager =
  m_total_transfers :: u64
  m_total_bytes_written :: i64
  m_total_bytes_read :: i64
  m_total_errors :: u64
  m_sum_write_MiBs :: rat
  m_sum_read_MiBs :: rat
  m_write_transfers :: u64
  m_read_transfers :: u64

definition empty_manager :: stats_manager where
  "empty_manager = \<lparr>m_total_transfers = 0, m_total_bytes_written = 0, m_total_bytes_read = 0,
     m_total_errors = 0, m_sum_write_MiBs = 0, m_sum_read_MiBs = 0, m_write_transfers = 0,
     m_read_transfers = 0\<rparr>"

record Snapshot =
  total_transfers :: u64
  write_transfers :: u64
  read_transfers :: u64
  total_bytes_written :: i64
  total_bytes_read :: i64
  total_errors :: u64
  sum_write_MiBs :: rat
  sum_read_MiBs :: rat

section \<open>Operations\<close>

definition throughputMiBs :: "i64 \<Rightarrow> i64 \<Rightarrow> rat" where
  "throughputMiBs bytes dur_us =
     (if sint dur_us \<le> 0 \<or> sint bytes \<le> 0 then 0
      else d_div (d_mul (d_div (d_of_i64 bytes) (d_of_i64 dur_us)) 1000000)
             (d_mul 1024 1024))"

definition xfer_line :: "TransferStats \<Rightarrow> string" where
  "xfer_line s =
     ''[XFER]'' @
     '' path='' @ ts_path s @
     '' op='' @ (if was_write s then ''write'' else ''read'') @
     '' written='' @ show_i64 (bytes_written s) @
     '' read='' @ show_i64 (bytes_read s) @
     '' duration_us='' @ show_i64 (duration_us s) @
     '' write_MiBs='' @ show_fixed2 (throughputMiBs (bytes_written s) (duration_us s)) @
     '' read_MiBs='' @ show_fixed2 (throughputMiBs (bytes_read s) (duration_us s)) @
     '' write_ops='' @ show_u32 (write_ops s) @
     '' aio_ops='' @ show_u32 (write_aio_ops s) @
     '' read_ops='' @ show_u32 (read_ops s) @
     '' errors='' @ show_u32 (ts_errors s)"

definition recordTransfer :: "TransferStats \<Rightarrow> stats_manager \<Rightarrow> stats_manager" where
  "recordTransfer s m =
     (let write_MiBs = throughputMiBs (bytes_written s) (duration_us s);
          read_MiBs = throughputMiBs (bytes_read s) (duration_us s);
          m1 = m\<lparr>m_total_transfers := m_total_transfers m + 1,
                 m_total_bytes_written := m_total_bytes_written m + bytes_written s,
                 m_total_bytes_read := m_total_bytes_read m + bytes_read s,
                 m_total_errors := m_total_errors m + ucast (ts_errors s)\<rparr>;
          m2 = (if 0 < sint (bytes_written s)
                then m1\<lparr>m_sum_write_MiBs := d_add (m_sum_write_MiBs m1) write_MiBs,
                        m_write_transfers := m_write_transfers m1 + 1\<rparr> else m1)
      in if 0 < sint (bytes_read s)
         then m2\<lparr>m_sum_read_MiBs := d_add (m_sum_read_MiBs m2) read_MiBs,
                 m_read_transfers := m_read_transfers m2 + 1\<rparr> else m2)"

definition getSnapshot :: "stats_manager \<Rightarrow> Snapshot" where
  "getSnapshot m =
     \<lparr>total_transfers = m_total_transfers m, write_transfers = m_write_transfers m,
      read_transfers = m_read_transfers m, total_bytes_written = m_total_bytes_written m,
      total_bytes_read = m_total_bytes_read m, total_errors = m_total_errors m,
      sum_write_MiBs = m_sum_write_MiBs m, sum_read_MiBs = m_sum_read_MiBs m\<rparr>"

definition average :: "rat \<Rightarrow> u64 \<Rightarrow> rat" where
  "average acc n = (if 0 < n then d_div acc (d_of_u64 n) else 0)"

definition logSummary :: "stats_manager \<Rightarrow> string" where
  "logSummary m =
     ''[STATS]'' @
     '' transfers='' @ show_u64 (m_total_transfers m) @
     '' written='' @ show_i64 (m_total_bytes_written m) @
     '' read='' @ show_i64 (m_total_bytes_read m) @
     '' errors='' @ show_u64 (m_total_errors m) @
     '' avg_write_MiBs='' @ show_fixed2 (average (m_sum_write_MiBs m) (m_write_transfers m)) @
     '' avg_read_MiBs='' @ show_fixed2 (average (m_sum_read_MiBs m) (m_read_transfers m))"

section \<open>Throughput\<close>

lemma throughputMiBs_nonneg: "0 \<le> throughputMiBs b d"
proof (cases "sint d \<le> 0 \<or> sint b \<le> 0")
  case False
  then have "0 \<le> d_of_i64 b" "0 \<le> d_of_i64 d"
    by (auto intro: d_of_i64_nonneg)
  then show ?thesis
    by (auto simp: throughputMiBs_def d_div_def d_mul_def intro!: fl_nonneg divide_nonneg_nonneg
        mult_nonneg_nonneg)
qed (auto simp: throughputMiBs_def)

lemma MiB_exact: "d_mul 1024 1024 = 1048576"
  using fl_of_int [of 1048576] by (simp add: d_mul_def)

section \<open>The totals are those of the recorded transfers\<close>

lemma recordTransfer_fields:
  "m_total_transfers (recordTransfer s m) = m_total_transfers m + 1"
  "m_total_bytes_written (recordTransfer s m) = m_total_bytes_written m + bytes_written s"
  "m_total_bytes_read (recordTransfer s m) = m_total_bytes_read m + bytes_read s"
  "m_total_errors (recordTransfer s m) = m_total_errors m + ucast (ts_errors s)"
  "m_write_transfers (recordTransfer s m) =
     m_write_transfers m + (if 0 < sint (bytes_written s) then 1 else 0)"
  "m_read_transfers (recordTransfer s m) =
     m_read_transfers m + (if 0 < sint (bytes_read s) then 1 else 0)"
  "m_sum_write_MiBs (recordTransfer s m) =
     (if 0 < sint (bytes_written s)
      then d_add (m_sum_write_MiBs m) (throughputMiBs (bytes_written s) (duration_us s))
      else m_sum_write_MiBs m)"
  "m_sum_read_MiBs (recordTransfer s m) =
     (if 0 < sint (bytes_read s)
      then d_add (m_sum_read_MiBs m) (throughputMiBs (bytes_read s) (duration_us s))
      else m_sum_read_MiBs m)"
  by (simp_all add: recordTransfer_def Let_def)

text \<open>
  The throughput of a transfer, computed in double precision, is bytes * 10^6 /
  (microseconds * 2^20) up to a relative error of 2^-51.
\<close>

lemma throughput_accuracy:
  assumes "0 < sint b" "sint b < 2 ^ 53" "0 < sint d" "sint d < 2 ^ 53"
  shows "\<bar>throughputMiBs b d - of_int (sint b * 1000000) / of_int (sint d * 1048576)\<bar>
    \<le> (of_int (sint b * 1000000) / of_int (sint d * 1048576)) / 2 ^ 51"
proof -
  define x where "x = (of_int (sint b) :: rat)"
  define y where "y = (of_int (sint d) :: rat)"
  have pos: "0 < x" "0 < y" using assms by (simp_all only: x_def y_def of_int_0_less_iff)
  define u where "u = (1 / 2 ^ 53 :: rat)"
  have n1: "near u (d_div x y) (x / y)"
    using near_fl [OF near_refl [of "x / y"]] pos by (simp add: d_div_def u_def)
  have n2: "near (5 / 2 * u) (d_mul (d_div x y) 1000000) (x / y * 1000000)"
    unfolding d_mul_def
    by (rule near_weaken [OF near_fl [OF near_mult [OF n1]]])
      (use pos in \<open>simp_all add: u_def\<close>)
  have n3: "near (4 * u) (d_div (d_mul (d_div x y) 1000000) 1048576) (x / y * 1000000 / 1048576)"
  proof -
    let ?q = "d_mul (d_div x y) 1000000"
    show ?thesis
      unfolding d_div_def [of ?q]
      by (rule near_weaken [OF near_fl [OF near_divide [OF n2]]])
        (use pos in \<open>simp_all add: u_def\<close>)
  qed
  have "throughputMiBs b d = d_div (d_mul (d_div x y) 1000000) 1048576"
    using assms by (simp add: throughputMiBs_def MiB_exact d_of_i64_exact x_def y_def
        del: of_int_sint)
  with n3 show ?thesis
    by (simp add: near_abs u_def x_def y_def field_simps del: of_int_sint)
qed

section \<open>Totals over a sequence of transfers\<close>

text \<open>The mutex serialises concurrent closes; the totals count every transfer once.\<close>

lemma fold_record:
  "m_total_transfers (fold recordTransfer ts m) = m_total_transfers m + of_nat (length ts)"
  "m_total_bytes_written (fold recordTransfer ts m) =
     m_total_bytes_written m + sum_list (map bytes_written ts)"
  "m_total_bytes_read (fold recordTransfer ts m) =
     m_total_bytes_read m + sum_list (map bytes_read ts)"
  "m_total_errors (fold recordTransfer ts m) =
     m_total_errors m + sum_list (map (\<lambda>s. ucast (ts_errors s)) ts)"
  "m_write_transfers (fold recordTransfer ts m) =
     m_write_transfers m + of_nat (length (filter (\<lambda>s. 0 < sint (bytes_written s)) ts))"
  "m_read_transfers (fold recordTransfer ts m) =
     m_read_transfers m + of_nat (length (filter (\<lambda>s. 0 < sint (bytes_read s)) ts))"
  by (induction ts arbitrary: m) (simp_all add: recordTransfer_fields algebra_simps)

text \<open>
  The manager's invariant: the sums of throughputs are doubles and not negative, and no
  transfer is counted as a write (or a read) without being counted.
\<close>

definition manager_inv :: "stats_manager \<Rightarrow> bool" where
  "manager_inv m \<longleftrightarrow>
     0 \<le> m_sum_write_MiBs m \<and> fl (m_sum_write_MiBs m) = m_sum_write_MiBs m \<and>
     0 \<le> m_sum_read_MiBs m \<and> fl (m_sum_read_MiBs m) = m_sum_read_MiBs m \<and>
     uint (m_write_transfers m) \<le> uint (m_total_transfers m) \<and>
     uint (m_read_transfers m) \<le> uint (m_total_transfers m)"

lemma manager_inv_empty: "manager_inv empty_manager"
  by (simp add: manager_inv_def empty_manager_def)

lemma count_le:
  assumes "uint (n :: u64) \<le> uint (t :: u64)" "uint t + 1 \<le> 2 ^ 64 - 1"
  shows "uint (n + (if c then 1 else 0)) \<le> uint (t + 1)" "uint (t + 1) = uint t + 1"
proof -
  have "uint (t + 1) = uint t + 1"
    by (rule uint_Suc_room) (use assms in linarith)
  moreover have "uint (n + 1) = uint n + 1"
    by (rule uint_Suc_room) (use assms in linarith)
  ultimately show "uint (n + (if c then 1 else 0)) \<le> uint (t + 1)"
    "uint (t + 1) = uint t + 1" using assms(1) by auto
qed

lemma d_add_sums:
  "0 \<le> s \<Longrightarrow> 0 \<le> d_add s (throughputMiBs b d)"
  "0 \<le> s \<Longrightarrow> fl (d_add s (throughputMiBs b d)) = d_add s (throughputMiBs b d)"
  using throughputMiBs_nonneg [of b d] by (simp_all add: d_add_def fl_nonneg)

lemma manager_inv_record:
  assumes "manager_inv m" "uint (m_total_transfers m) + 1 \<le> 2 ^ 64 - 1"
  shows "manager_inv (recordTransfer s m)"
    and "uint (m_total_transfers (recordTransfer s m)) = uint (m_total_transfers m) + 1"
  using assms count_le [of "m_write_transfers m" "m_total_transfers m"]
    count_le [of "m_read_transfers m" "m_total_transfers m"]
  by (auto simp: manager_inv_def recordTransfer_fields d_add_sums)

interpretation stats_machine: budgeted_system recordTransfer "\<lambda>_. 1"
    "\<lambda>m. uint (m_total_transfers m)" "2 ^ 64 - 1" manager_inv
  by unfold_locales (simp_all add: manager_inv_record)

lemma recordTransfer_sums_grow:
  assumes "manager_inv m"
  shows "m_sum_write_MiBs m \<le> m_sum_write_MiBs (recordTransfer s m)
    \<and> m_sum_read_MiBs m \<le> m_sum_read_MiBs (recordTransfer s m)"
  using assms throughputMiBs_nonneg
  by (auto simp: manager_inv_def recordTransfer_fields intro!: d_add_ge)

text \<open>Recording transfers keeps the manager well formed, and nothing it counts decreases.\<close>

lemma stats_invariant:
  assumes "manager_inv m" and "uint (m_total_transfers m) + int (length ts) \<le> 2 ^ 64 - 1"
  shows "manager_inv (fold recordTransfer ts m)
    \<and> uint (m_total_transfers m) \<le> uint (m_total_transfers (fold recordTransfer ts m))
    \<and> m_sum_write_MiBs m \<le> m_sum_write_MiBs (fold recordTransfer ts m)
    \<and> m_sum_read_MiBs m \<le> m_sum_read_MiBs (fold recordTransfer ts m)"
proof -
  let ?R = "\<lambda>m n. uint (m_total_transfers m) \<le> uint (m_total_transfers n) \<and>
      m_sum_write_MiBs m \<le> m_sum_write_MiBs n \<and> m_sum_read_MiBs m \<le> m_sum_read_MiBs n"
  have room: "uint (m_total_transfers m) + sum_list (map (\<lambda>_. 1) ts) \<le> 2 ^ 64 - 1"
    using assms(2) by (simp add: sum_list_triv)
  have "?R m (fold recordTransfer ts m)"
    by (rule stats_machine.run_rel [OF assms(1) room, where R = ?R])
      (use recordTransfer_sums_grow manager_inv_record in \<open>auto intro: order_trans\<close>)
  then show ?thesis using stats_machine.run_inv [OF assms(1) room] by auto
qed

end
