(* ===== verification/OssFile.thy ===== *)
theory OssFile
  imports Config Stats
begin

text \<open>
  \<^verbatim>\<open>XrdBlackholeOssFile.hh\<close> and \<^verbatim>\<open>XrdBlackholeOssFile.cc\<close>: an open file. The two global
  objects a handle touches, the namespace and the statistics manager, are passed as
  \<open>globals\<close>; clock readings (nanoseconds) and the caller's buffers are arguments, and a
  buffer is returned as the call leaves it. What is logged is in \<open>Logging\<close>.
\<close>

section \<open>Data\<close>

record globals =
  g_blackholeFS :: bhfs
  g_statsManager :: stats_manager

record oss_file =
  m_stub :: "nat option"
  m_path :: path
  m_size_cached :: u64
  m_isRandom :: bool
  m_ino :: u64
  m_throttleBytesPerUs :: rat
  m_start :: int
  m_end :: int
  m_writeBytes :: i64
  m_writeBytesAIO :: i64
  m_readBytes :: i64
  m_writeOps :: u32
  m_writeAioOps :: u32
  m_readOps :: u32
  m_errors :: u32
  m_stats :: TransferStats

definition new_file :: oss_file where
  "new_file = \<lparr>m_stub = None, m_path = '''', m_size_cached = 0, m_isRandom = False, m_ino = 0,
     m_throttleBytesPerUs = 0, m_start = 0, m_end = 0, m_writeBytes = 0, m_writeBytesAIO = 0,
     m_readBytes = 0, m_writeOps = 0, m_writeAioOps = 0, m_readOps = 0, m_errors = 0,
     m_stats = empty_stats\<rparr>"

text \<open>
  The request object of an asynchronous call belongs to XRootD. The handle reads three
  fields, sets \<^verbatim>\<open>Result\<close> and calls \<^verbatim>\<open>doneRead\<close> or \<^verbatim>\<open>doneWrite\<close>; each such call is
  recorded with the result it could see.
\<close>

record sfs_aio =
  aio_nbytes :: u64
  aio_offset :: i64
  aio_buf :: "byte list"
  aio_Result :: i64
  doneRead_calls :: "i64 list"
  doneWrite_calls :: "i64 list"

record iov =
  iov_offset :: i64
  iov_size :: i32
  iov_data :: "byte list"

section \<open>Open and Close\<close>

text \<open>
  \<^verbatim>\<open>Open\<close> calls the namespace twice, and between the two calls it holds no lock; the
  two halves are definitions of their own so that other calls can come between them.
\<close>

definition Open_begin ::
  "path \<Rightarrow> i32 \<Rightarrow> i32 \<Rightarrow> oss_file \<Rightarrow> globals \<Rightarrow> int \<times> oss_file \<times> globals" where
  "Open_begin path flags mode f g =
     (let (rc, fs) = open_fs path flags mode (g_blackholeFS g)
      in (rc, f\<lparr>m_path := path\<rparr>, g\<lparr>g_blackholeFS := fs\<rparr>))"

definition throttle_rate :: "u64 \<Rightarrow> rat" where
  "throttle_rate writespeed =
     (let speed = d_of_u64 writespeed
      in if 0 < speed then d_div (d_mul (d_mul speed 1024) 1024) 1000000 else 0)"

definition Open_finish ::
  "oss \<Rightarrow> path \<Rightarrow> i32 \<Rightarrow> int \<Rightarrow> int \<Rightarrow> oss_file \<Rightarrow> globals \<Rightarrow> oss_file" where
  "Open_finish bhOss path flags hr_now sys_now f g =
     (let fs = g_blackholeFS g;
          stub = getStub fs (m_path f);
          f1 = f\<lparr>m_stub := stub, m_start := hr_now, m_writeBytes := 0, m_writeBytesAIO := 0,
                 m_readBytes := 0, m_writeOps := 0, m_writeAioOps := 0, m_readOps := 0,
                 m_errors := 0\<rparr>;
          f2 = f1\<lparr>m_size_cached := (case stub of None \<Rightarrow> 0 | Some r \<Rightarrow> m_size (cell fs r)),
                  m_isRandom := (case stub of None \<Rightarrow> False
                                 | Some r \<Rightarrow> m_readtype (cell fs r) = ''random''),
                  m_ino := (case stub of None \<Rightarrow> 0 | Some r \<Rightarrow> st_ino (m_stat (cell fs r))),
                  m_throttleBytesPerUs := throttle_rate (writespeedMiBs bhOss)\<rparr>
      in f2\<lparr>m_stats := empty_stats\<lparr>ts_path := path, open_time := sys_now,
                          was_write := (flags AND O_ACCMODE \<noteq> O_RDONLY)\<rparr>\<rparr>)"

definition Open ::
  "oss \<Rightarrow> path \<Rightarrow> i32 \<Rightarrow> i32 \<Rightarrow> int \<Rightarrow> int \<Rightarrow> oss_file \<Rightarrow> globals \<Rightarrow> int \<times> oss_file \<times> globals" where
  "Open bhOss path flags mode hr_now sys_now f g =
     (let (rc, f1, g1) = Open_begin path flags mode f g
      in if rc < 0 then (rc, f1, g1)
         else (XrdOssOK, Open_finish bhOss path flags hr_now sys_now f1 g1, g1))"

text \<open>\<^verbatim>\<open>duration_cast<microseconds>\<close> of a nanosecond count rounds towards zero.\<close>

definition micros :: "int \<Rightarrow> i64" where
  "micros ns = word_of_int (sgn ns * (\<bar>ns\<bar> div 1000))"

definition Close_begin :: "int \<Rightarrow> nat \<Rightarrow> oss_file \<Rightarrow> globals \<Rightarrow> oss_file \<times> globals" where
  "Close_begin hr_now r f g =
     (let fs = g_blackholeFS g;
          wb = m_writeBytes f + m_writeBytesAIO f;
          fs1 = (if m_isOpenWrite (cell fs r)
                 then upd_stub r (\<lambda>s. s\<lparr>m_size := wb, m_stat := (m_stat s)\<lparr>st_size := wb\<rparr>\<rparr>) fs
                 else fs);
          stats = (m_stats f)\<lparr>duration_us := micros (hr_now - m_start f), bytes_written := wb,
                    bytes_read := m_readBytes f, write_ops := m_writeOps f,
                    write_aio_ops := m_writeAioOps f, read_ops := m_readOps f,
                    ts_errors := m_errors f\<rparr>
      in (f\<lparr>m_end := hr_now, m_stats := stats\<rparr>,
          g\<lparr>g_blackholeFS := fs1, g_statsManager := recordTransfer stats (g_statsManager g)\<rparr>))"

definition Close_finish :: "oss_file \<Rightarrow> globals \<Rightarrow> oss_file \<times> globals" where
  "Close_finish f g =
     (f\<lparr>m_stub := None\<rparr>, g\<lparr>g_blackholeFS := close_fs (m_path f) (g_blackholeFS g)\<rparr>)"

definition Close :: "int \<Rightarrow> oss_file \<Rightarrow> globals \<Rightarrow> int \<times> oss_file \<times> globals" where
  "Close hr_now f g =
     (case m_stub f of
        None \<Rightarrow> (- ENOENT, f, g)
      | Some r \<Rightarrow>
          let (f1, g1) = Close_begin hr_now r f g; (f2, g2) = Close_finish f1 g1
          in (XrdOssOK, f2, g2))"

section \<open>Reading\<close>

abbreviation (input) LCG_K :: u64 where "LCG_K \<equiv> 6364136223846793005"
abbreviation (input) LCG_C :: u64 where "LCG_C \<equiv> 1442695040888963407"

definition lcg :: "u64 \<Rightarrow> u64" where
  "lcg state = state * LCG_K + LCG_C"

definition lcg_byte :: "u64 \<Rightarrow> byte" where
  "lcg_byte state = ucast (drop_bit 56 state)"

text \<open>The loop that makes eight bytes per turn, and the loop for the rest.\<close>

function lcg_unrolled :: "nat \<Rightarrow> nat \<Rightarrow> u64 \<Rightarrow> byte list \<Rightarrow> nat \<times> u64 \<times> byte list" where
  "lcg_unrolled n i state out =
     (if i + 8 \<le> n then
        let s0 = lcg state; b0 = lcg_byte s0;
            s1 = lcg s0; b1 = lcg_byte s1;
            s2 = lcg s1; b2 = lcg_byte s2;
            s3 = lcg s2; b3 = lcg_byte s3;
            s4 = lcg s3; b4 = lcg_byte s4;
            s5 = lcg s4; b5 = lcg_byte s5;
            s6 = lcg s5; b6 = lcg_byte s6;
            s7 = lcg s6; b7 = lcg_byte s7
        in lcg_unrolled n (i + 8) s7
             (out[i := b0, i + 1 := b1, i + 2 := b2, i + 3 := b3,
                  i + 4 := b4, i + 5 := b5, i + 6 := b6, i + 7 := b7])
      else (i, state, out))"
  by pat_completeness auto
termination
  by (relation "measure (\<lambda>(n, i, _). n - i)") auto

function lcg_tail :: "nat \<Rightarrow> nat \<Rightarrow> u64 \<Rightarrow> byte list \<Rightarrow> byte list" where
  "lcg_tail n i state out =
     (if i < n then lcg_tail n (i + 1) (lcg state) (out[i := lcg_byte (lcg state)]) else out)"
  by pat_completeness auto
termination
  by (relation "measure (\<lambda>(n, i, _). n - i)") auto

declare lcg_unrolled.simps [simp del] lcg_tail.simps [simp del]

definition lcg_fill :: "u64 \<Rightarrow> nat \<Rightarrow> byte list \<Rightarrow> byte list" where
  "lcg_fill state n out =
     (let (i, state1, out1) = lcg_unrolled n 0 state out in lcg_tail n i state1 out1)"

definition memset0 :: "byte list \<Rightarrow> nat \<Rightarrow> byte list" where
  "memset0 buff n = replicate n 0 @ drop n buff"

definition ReadInner :: "oss_file \<Rightarrow> byte list \<Rightarrow> i64 \<Rightarrow> u64 \<Rightarrow> i64 \<times> byte list" where
  "ReadInner f buff offset blen =
     (if sint offset < 0 \<or> m_size_cached f \<le> offset then (0, buff)
      else
        let n = min blen (m_size_cached f - offset) in
        if m_isRandom f then (n, lcg_fill (offset XOR m_ino f) (unat n) buff)
        else (n, memset0 buff (unat n)))"

definition Read_prep :: "i64 \<Rightarrow> u64 \<Rightarrow> oss_file \<Rightarrow> i64 \<times> oss_file" where
  "Read_prep offset blen f =
     (case m_stub f of
        None \<Rightarrow> (word_of_int (- EINVAL), f\<lparr>m_errors := m_errors f + 1\<rparr>)
      | Some _ \<Rightarrow> (word_of_int XrdOssOK, f))"

definition Read :: "byte list \<Rightarrow> i64 \<Rightarrow> u64 \<Rightarrow> oss_file \<Rightarrow> i64 \<times> oss_file \<times> byte list" where
  "Read buff offset blen f =
     (case m_stub f of
        None \<Rightarrow> (word_of_int (- EINVAL), f\<lparr>m_errors := m_errors f + 1\<rparr>, buff)
      | Some _ \<Rightarrow>
          let (n, buff1) = ReadInner f buff offset blen;
              f1 = (if 0 < sint n
                    then f\<lparr>m_readBytes := m_readBytes f + n, m_readOps := m_readOps f + 1\<rparr>
                    else f)
          in (n, f1, buff1))"

definition Read_aio :: "sfs_aio \<Rightarrow> oss_file \<Rightarrow> int \<times> oss_file \<times> sfs_aio" where
  "Read_aio aiop f =
     (let (n, f1, buff) = Read (aio_buf aiop) (aio_offset aiop) (aio_nbytes aiop) f;
          aiop1 = aiop\<lparr>aio_buf := buff, aio_Result := n\<rparr>
      in (XrdOssOK, f1, aiop1\<lparr>doneRead_calls := doneRead_calls aiop1 @ [aio_Result aiop1]\<rparr>))"

definition ReadRaw :: "byte list \<Rightarrow> i64 \<Rightarrow> u64 \<Rightarrow> oss_file \<Rightarrow> i64 \<times> oss_file \<times> byte list" where
  "ReadRaw buff offset blen f = Read buff offset blen f"

text \<open>
  The loop of \<^verbatim>\<open>ReadV\<close>: \<^const>\<open>Inl\<close> is the early return on a negative count, which
  skips the accounting. The segments' buffers are taken to be disjoint.
\<close>

fun readv_loop ::
  "oss_file \<Rightarrow> iov list \<Rightarrow> i64 \<Rightarrow> u32 \<Rightarrow> (i64 + i64 \<times> u32) \<times> iov list" where
  "readv_loop f [] tot ops = (Inr (tot, ops), [])"
| "readv_loop f (v # vs) tot ops =
     (if sint (iov_size v) \<le> 0 then
        (let (r, vs1) = readv_loop f vs tot ops in (r, v # vs1))
      else
        let (rc, data) = ReadInner f (iov_data v) (iov_offset v) (scast (iov_size v));
            v1 = v\<lparr>iov_data := data\<rparr>
        in if sint rc < 0 then (Inl rc, v1 # vs)
           else (let (r, vs1) = readv_loop f vs (tot + rc) (ops + 1) in (r, v1 # vs1)))"

definition ReadV :: "iov list \<Rightarrow> i32 \<Rightarrow> oss_file \<Rightarrow> i64 \<times> oss_file \<times> iov list" where
  "ReadV readV n f =
     (if sint n \<le> 0 then (0, f, readV)
      else case m_stub f of
        None \<Rightarrow> (word_of_int (- EINVAL), f\<lparr>m_errors := m_errors f + 1\<rparr>, readV)
      | Some _ \<Rightarrow>
          let k = nat (sint n); (r, vs) = readv_loop f (take k readV) 0 0;
              readV1 = vs @ drop k readV
          in case r of
               Inl rc \<Rightarrow> (rc, f, readV1)
             | Inr (tot, ops) \<Rightarrow>
                 (tot, f\<lparr>m_readBytes := m_readBytes f + tot, m_readOps := m_readOps f + ops\<rparr>,
                  readV1))"

section \<open>Status and writing\<close>

abbreviation (input) S_IFREG :: u32 where "S_IFREG \<equiv> 32768"

definition Fstat :: "c_stat \<Rightarrow> oss_file \<Rightarrow> globals \<Rightarrow> int \<times> c_stat" where
  "Fstat buf f g =
     (case m_stub f of
        None \<Rightarrow> (- ENOENT, buf)
      | Some r \<Rightarrow>
          (XrdOssOK, (m_stat (cell (g_blackholeFS g) r))\<lparr>st_mode := 438 OR S_IFREG\<rparr>))"

text \<open>
  How long a write sleeps, in microseconds; \<^const>\<open>None\<close> when no throttle is set. The
  code converts the quotient to \<^verbatim>\<open>long long\<close>, which C++ leaves undefined from \<open>2 ^ 63\<close>
  on; as the rate is above 1 byte per microsecond when it is set, only a request of more
  than \<open>2 ^ 63\<close> bytes comes there, and the result here is the exact integer then too.
\<close>

definition write_delay :: "oss_file \<Rightarrow> u64 \<Rightarrow> int option" where
  "write_delay f blen =
     (if 0 < m_throttleBytesPerUs f
      then Some \<lfloor>d_div (d_of_u64 blen) (m_throttleBytesPerUs f)\<rfloor> else None)"

definition Write :: "i64 \<Rightarrow> u64 \<Rightarrow> oss_file \<Rightarrow> i64 \<times> oss_file \<times> int option" where
  "Write offset blen f =
     (blen, f\<lparr>m_writeBytes := m_writeBytes f + blen, m_writeOps := m_writeOps f + 1\<rparr>,
      write_delay f blen)"

definition Write_aio :: "sfs_aio \<Rightarrow> oss_file \<Rightarrow> int \<times> oss_file \<times> sfs_aio \<times> int option" where
  "Write_aio aiop f =
     (let nbytes = aio_nbytes aiop; delay = write_delay f nbytes;
          aiop1 = aiop\<lparr>aio_Result := nbytes\<rparr>;
          aiop2 = aiop1\<lparr>doneWrite_calls := doneWrite_calls aiop1 @ [aio_Result aiop1]\<rparr>
      in (XrdOssOK,
          f\<lparr>m_writeBytesAIO := m_writeBytesAIO f + nbytes, m_writeAioOps := m_writeAioOps f + 1\<rparr>,
          aiop2, delay))"

definition Fsync :: "oss_file \<Rightarrow> int" where
  "Fsync f = - ENOTSUP"

definition Ftruncate :: "u64 \<Rightarrow> oss_file \<Rightarrow> int" where
  "Ftruncate len f = - ENOTSUP"

end
