(* ===== verification/OssFile_Read.thy ===== *)
theory OssFile_Read
  imports OssFile
begin

text \<open>
  The read path of an open file: the unrolled generator against the byte-at-a-time one,
  what a read puts in the caller's buffer, the three other read calls in terms of the
  plain one, and what repeated and split reads see.
\<close>

section \<open>The generator\<close>

text \<open>The reference: one step and one byte at a time.\<close>

fun lcg_stream :: "nat \<Rightarrow> u64 \<Rightarrow> byte list" where
  "lcg_stream 0 state = []"
| "lcg_stream (Suc n) state = lcg_byte (lcg state) # lcg_stream n (lcg state)"

lemma length_lcg_stream [simp]: "length (lcg_stream n s) = n"
  by (induction n s rule: lcg_stream.induct) auto

lemma take_lcg_stream: "m \<le> n \<Longrightarrow> take m (lcg_stream n s) = lcg_stream m s"
proof (induction m arbitrary: n s)
  case (Suc m)
  then show ?case by (cases n) auto
qed simp

lemma lcg_tail_stream:
  assumes "i \<le> n" "n \<le> length out"
  shows "lcg_tail n i s out = take i out @ lcg_stream (n - i) s @ drop n out"
  using assms
proof (induction n i s out rule: lcg_tail.induct)
  case (1 n i s out)
  show ?case
  proof (cases "i < n")
    case True
    with 1 show ?thesis
      by (simp add: lcg_tail.simps [of n i] Suc_diff_Suc [symmetric] take_Suc_conv_app_nth)
  next
    case False
    with "1.prems" show ?thesis by (subst lcg_tail.simps) simp
  qed
qed

text \<open>Eight bytes per turn leave the tail loop exactly the work that remains.\<close>

lemma lcg_unrolled_tail:
  "case lcg_unrolled n i s out of (i', s', out') \<Rightarrow> lcg_tail n i' s' out' = lcg_tail n i s out"
proof (induction n i s out rule: lcg_unrolled.induct)
  case (1 n i s out)
  show ?case
  proof (cases "i + 8 \<le> n")
    case True
    have step: "lcg_tail n j t o' = lcg_tail n (Suc j) (lcg t) (o'[j := lcg_byte (lcg t)])"
      if "j < n" for j t o'
      using that by (simp add: lcg_tail.simps [of n j])
    show ?thesis
      using "1.IH" [OF True refl refl refl refl refl refl refl refl refl refl refl refl refl
          refl refl refl] True
      by (simp add: lcg_unrolled.simps [of n i] Let_def step eval_nat_numeral)
  next
    case False
    then show ?thesis by (simp add: lcg_unrolled.simps [of n i])
  qed
qed

lemma lcg_fill_stream:
  assumes "n \<le> length out"
  shows "lcg_fill s n out = lcg_stream n s @ drop n out"
  using lcg_unrolled_tail [of n 0 s out] lcg_tail_stream [of 0 n out s] assms
  by (auto simp: lcg_fill_def split: prod.splits)

text \<open>
  C18: The generator loop unrolled eight times produces, for every length, the bytes of
  the one-byte-at-a-time loop, and writes nothing past the requested length.
\<close>

theorem unrolled_equals_bytewise:
  assumes "n \<le> length out"
  shows "lcg_fill s n out = lcg_tail n 0 s out
    \<and> lcg_fill s n out = lcg_stream n s @ drop n out"
  using lcg_fill_stream [OF assms] lcg_tail_stream [of 0 n out s] assms by simp

theorem unrolled_equals_bytewise_witness:
  "lcg_fill 1 9 (replicate 10 0) = lcg_tail 9 0 1 (replicate 10 0)"
  using unrolled_equals_bytewise [of 9 "replicate 10 0" 1] by simp

section \<open>Byte sources\<close>

text \<open>
  A pattern a read may be filled with: as many bytes as asked for, and a shorter fill
  from the same seed is a prefix of a longer one.
\<close>

locale byte_source =
  fixes gen :: "nat \<Rightarrow> 'a \<Rightarrow> byte list"
  assumes gen_length: "length (gen n s) = n"
    and gen_prefix: "m \<le> n \<Longrightarrow> take m (gen n s) = gen m s"
begin

lemma fill_length: "n \<le> length buff \<Longrightarrow> length (gen n s @ drop n buff) = length buff"
  by (simp add: gen_length)

lemma fill_take: "m \<le> n \<Longrightarrow> take m (gen n s @ rest) = gen m s"
  by (simp add: gen_length gen_prefix)

lemma fill_nth: "i < n \<Longrightarrow> (gen n s @ rest) ! i = gen (Suc i) s ! i"
  by (metis Suc_leI fill_take lessI nth_take)

lemma fill_beyond: "n \<le> i \<Longrightarrow> i < length buff \<Longrightarrow> (gen n s @ drop n buff) ! i = buff ! i"
  by (simp add: nth_append gen_length)

end

interpretation zeros: byte_source "\<lambda>n _. replicate n 0"
  by unfold_locales (simp_all add: min_def)

interpretation random: byte_source lcg_stream
  by unfold_locales (simp_all add: take_lcg_stream)

text \<open>The pattern of an open file, seeded by the offset of the read.\<close>

definition content :: "oss_file \<Rightarrow> nat \<Rightarrow> i64 \<Rightarrow> byte list" where
  "content f n offset =
     (if m_isRandom f then lcg_stream n (offset XOR m_ino f) else replicate n 0)"

interpretation content: byte_source "content f" for f
  by unfold_locales (simp_all add: content_def take_lcg_stream min_def)

section \<open>One read\<close>

text \<open>How many bytes a read of \<open>blen\<close> at \<open>offset\<close> gives.\<close>

definition read_count :: "oss_file \<Rightarrow> i64 \<Rightarrow> u64 \<Rightarrow> nat" where
  "read_count f offset blen =
     (if sint offset < 0 \<or> uint (m_size_cached f) \<le> sint offset then 0
      else nat (min (uint blen) (uint (m_size_cached f) - sint offset)))"

lemma ReadInner_eq:
  assumes "unat blen \<le> length buff"
  shows "ReadInner f buff offset blen =
    (of_nat (read_count f offset blen),
     content f (read_count f offset blen) offset @ drop (read_count f offset blen) buff)"
proof (cases "sint offset < 0 \<or> m_size_cached f \<le> offset")
  case True
  then have "read_count f offset blen = 0"
    using sint_uint_nonneg [of offset] by (auto simp: read_count_def word_le_def)
  then show ?thesis using True by (simp add: ReadInner_def content_def)
next
  case False
  then have off: "sint offset = uint offset" "uint offset < uint (m_size_cached f)"
    using sint_uint_nonneg [of offset] by (auto simp: word_le_def)
  let ?n = "min blen (m_size_cached f - offset)"
  have sub: "uint (m_size_cached f - offset) = uint (m_size_cached f) - uint offset"
    using off(2) by (intro uint_sub_lem [THEN iffD1]) simp
  have n: "uint ?n = min (uint blen) (uint (m_size_cached f) - sint offset)"
    unfolding min_def word_le_def off(1) by (simp add: sub)
  have rc: "read_count f offset blen = unat ?n"
    unfolding unat_eq_nat_uint n using False off by (simp add: read_count_def)
  have "?n \<le> blen" by simp
  then have "unat ?n \<le> length buff"
    using assms unfolding word_le_nat_alt by linarith
  then have "lcg_fill s (unat ?n) buff = lcg_stream (unat ?n) s @ drop (unat ?n) buff" for s
    by (rule lcg_fill_stream)
  then show ?thesis
    using False unfolding rc by (simp add: ReadInner_def Let_def content_def memset0_def)
qed

lemma read_count_le: "read_count f offset blen \<le> unat blen"
  unfolding read_count_def unat_eq_nat_uint by (auto intro!: nat_mono simp del: nat_uint_eq)

lemma ReadInner_count: "fst (ReadInner f buff offset blen) = of_nat (read_count f offset blen)"
proof -
  have "fst (ReadInner f buff offset blen) = fst (ReadInner f (replicate (unat blen) 0) offset blen)"
    by (simp add: ReadInner_def Let_def)
  also have "\<dots> = of_nat (read_count f offset blen)"
    by (subst ReadInner_eq) simp_all
  finally show ?thesis .
qed

lemma unat_of_nat_small: "n < 2 ^ 63 \<Longrightarrow> unat (of_nat n :: i64) = n"
  by (simp add: unat_of_nat take_bit_nat_eq_self)

lemma sint_of_nat_small:
  assumes "n < 2 ^ 63"
  shows "sint (of_nat n :: i64) = int n"
proof -
  have "uint (of_nat n :: i64) = int n"
    using unat_of_nat_small [OF assms] by (metis uint_nat)
  moreover from this have "uint (of_nat n :: i64) < 2 ^ 63"
    using assms by simp
  ultimately show ?thesis using sint_eq_uint_small [of "of_nat n :: i64"] by simp
qed

lemma read_count_small: "uint blen < 2 ^ 63 \<Longrightarrow> read_count f offset blen < 2 ^ 63"
  by (auto simp: read_count_def nat_less_iff min_def simp del: nat_uint_eq)

lemma read_count_bounded: "uint (m_size_cached f) < 2 ^ 63 \<Longrightarrow> read_count f offset blen < 2 ^ 63"
  by (auto simp: read_count_def nat_less_iff min_def simp del: nat_uint_eq)

lemma read_count_pos:
  assumes "read_count f offset blen < 2 ^ 63"
  shows "0 < sint (of_nat (read_count f offset blen) :: i64) \<longleftrightarrow> 0 < read_count f offset blen"
    and "0 \<le> sint (of_nat (read_count f offset blen) :: i64)"
  using sint_of_nat_small [OF assms] by simp_all

definition account_read :: "nat \<Rightarrow> oss_file \<Rightarrow> oss_file" where
  "account_read k f =
     (if 0 < k then f\<lparr>m_readBytes := m_readBytes f + of_nat k, m_readOps := m_readOps f + 1\<rparr> else f)"

lemma Read_counted:
  assumes "m_stub f = Some r" "read_count f offset blen < 2 ^ 63"
  shows "Read buff offset blen f =
    (of_nat (read_count f offset blen), account_read (read_count f offset blen) f,
     snd (ReadInner f buff offset blen))"
  using assms(1) read_count_pos [OF assms(2)] ReadInner_count [of f buff offset blen]
  by (simp add: Read_def Let_def case_prod_beta account_read_def)

lemmas Read_open = Read_counted [OF _ read_count_small]

lemma replicate_2: "replicate 2 x = [x, x]"
  by (simp add: numeral_2_eq_2)

text \<open>
  C16: A read on an open handle returns min(blen, size - offset), or 0 for a negative
  offset or one at or past the end, fills just that many bytes of the buffer with the
  file's pattern (zeros, or the generator seeded with the offset and the inode), and
  counts the bytes and one operation only when there were any.
\<close>

theorem read_returns_content:
  assumes "m_stub f = Some r" and "uint blen < 2 ^ 63" and "unat blen \<le> length buff"
  shows "let k = (if sint offset < 0 \<or> uint (m_size_cached f) \<le> sint offset then 0
                  else nat (min (uint blen) (uint (m_size_cached f) - sint offset)));
             (n, f', buff') = Read buff offset blen f
    in n = of_nat k
     \<and> buff' = content f k offset @ drop k buff
     \<and> f' = (if k = 0 then f
             else f\<lparr>m_readBytes := m_readBytes f + of_nat k, m_readOps := m_readOps f + 1\<rparr>)"
  unfolding Read_open [OF assms(1,2)] ReadInner_eq [OF assms(3)] read_count_def [symmetric]
  by (simp add: account_read_def Let_def)

theorem read_returns_content_witness:
  "Read [1, 2, 3, 4] 8 4 (new_file\<lparr>m_stub := Some 0, m_size_cached := 10\<rparr>) =
    (2, new_file\<lparr>m_stub := Some 0, m_size_cached := 10, m_readBytes := 2, m_readOps := 1\<rparr>,
     [0, 0, 3, 4])"
  using read_returns_content [of "new_file\<lparr>m_stub := Some 0, m_size_cached := 10\<rparr>" 0 4 "[1, 2, 3, 4]" 8]
  by (simp add: new_file_def content_def replicate_2 split: prod.splits)

text \<open>
  Two reads at one offset of the same file agree on the bytes both return: the
  shorter read is a prefix of the longer.
\<close>

lemma shorter_read_is_prefix:
  assumes "m_stub f = Some r" and "m_stub g = Some r'"
    and "m_isRandom f = m_isRandom g" and "m_ino f = m_ino g"
    and "m_size_cached f = m_size_cached g"
    and "blen \<le> blen'" and "uint blen' < 2 ^ 63"
    and "unat blen \<le> length buff" and "unat blen' \<le> length buff'"
  shows "let (n, _, out) = Read buff offset blen f; (n', _, out') = Read buff' offset blen' g
    in n \<le> n' \<and> take (unat n) out = take (unat n) out'"
proof -
  let ?k = "read_count f offset blen" and ?k' = "read_count g offset blen'"
  have small: "uint blen < 2 ^ 63" using assms(6,7) by (simp add: word_le_def)
  have k: "?k \<le> ?k'"
    using assms(5,6) by (auto simp: read_count_def word_le_def intro!: nat_mono)
  have k': "?k' < 2 ^ 63" by (rule read_count_small [OF assms(7)])
  have same: "content f m offset = content g m offset" for m
    using assms(3,4) by (simp add: content_def)
  have "take ?k (content f ?k offset @ rest) = content f ?k offset" for rest
    using content.fill_take by blast
  moreover have "take ?k (content g ?k' offset @ rest) = content g ?k offset" for rest
    using content.fill_take k by blast
  ultimately show ?thesis
    using k k' unfolding Read_open [OF assms(1) small] Read_open [OF assms(2,7)]
      ReadInner_eq [OF assms(8)] ReadInner_eq [OF assms(9)]
    by (simp add: same word_le_nat_alt unat_of_nat_small)
qed

text \<open>
  Reads cut in two: what a read leaves in a buffer of the size it asks for, whatever was
  in it.
\<close>

definition bytes_read_at :: "byte \<Rightarrow> oss_file \<Rightarrow> i64 \<Rightarrow> u64 \<Rightarrow> byte list" where
  "bytes_read_at x f offset n = snd (snd (Read (replicate (unat n) x) offset n f))"

lemma bytes_read_at_eq:
  assumes "m_stub f = Some r" "uint (m_size_cached f) < 2 ^ 63" "0 \<le> sint offset"
    and "sint offset + uint n \<le> uint (m_size_cached f)"
  shows "bytes_read_at x f offset n = content f (unat n) offset"
proof -
  have "sint offset = uint offset" using assms(3) sint_uint_nonneg [of offset] by simp
  moreover have "uint n < 2 ^ 63" using assms(2,3,4) by linarith
  moreover have "uint n = 0" if "uint (m_size_cached f) \<le> sint offset"
    using that assms(4) uint_nonnegative [of n] by linarith
  ultimately have n: "read_count f offset n = unat n" "read_count f offset n < 2 ^ 63"
    using assms(3,4) read_count_small [of n f offset]
    by (auto simp: read_count_def unat_eq_nat_uint simp del: nat_uint_eq)
  have "ReadInner f (replicate (unat n) x) offset n = (of_nat (unat n), content f (unat n) offset)"
    using ReadInner_eq [of n "replicate (unat n) x" f offset] by (simp add: n(1))
  then show ?thesis
    using Read_counted [OF assms(1) n(2), of "replicate (unat n) x"] by (simp add: bytes_read_at_def)
qed

text \<open>Clearing one bit of a word and adding it again.\<close>

lemma clear_bit:
  fixes i m :: u64
  assumes "\<And>n. bit m n \<longleftrightarrow> n = k"
  defines "o8 \<equiv> i AND NOT m"
  shows "(o8 XOR i = 0 \<and> (o8 + m) XOR i = m) \<or> (o8 XOR i = m \<and> (o8 + m) XOR i = 0)"
    and "uint o8 \<le> uint i"
proof -
  have "o8 AND m = 0" by (simp add: o8_def and.assoc)
  then have plus: "o8 + m = o8 OR m" using word_plus_and_or [of o8 m] by simp
  have a: "o8 XOR i = i AND m" "(o8 + m) XOR i = NOT i AND m"
    unfolding plus unfolding o8_def by (rule bit_word_eqI, auto simp: bit_simps)+
  have b: "i AND m = (if bit i k then m else 0)" "NOT i AND m = (if bit i k then 0 else m)"
    by (rule bit_word_eqI, auto simp: bit_simps assms(1))+
  show "(o8 XOR i = 0 \<and> (o8 + m) XOR i = m) \<or> (o8 XOR i = m \<and> (o8 + m) XOR i = 0)"
    unfolding a b by simp
  show "uint o8 \<le> uint i" unfolding o8_def by (simp add: uint_and AND_upper1)
qed

lemma bit_8: "bit (8 :: u64) n \<longleftrightarrow> n = 3"
  using bit_push_bit_iff [of 3 "1 :: u64" n] by (auto simp: push_bit_eq_mult bit_1_iff)

lemma streams_part:
  "lcg_stream 16 0 \<noteq> lcg_stream 8 0 @ lcg_stream 8 8"
  "lcg_stream 16 8 \<noteq> lcg_stream 8 8 @ lcg_stream 8 0"
  by code_simp+

lemma offset_plus:
  fixes offset a :: u64
  assumes "0 \<le> sint offset" "sint offset + uint a < 2 ^ 63"
  shows "sint (offset + a) = sint offset + uint a"
proof -
  have s: "sint offset = uint offset" using assms(1) sint_uint_nonneg [of offset] by simp
  then have "uint (offset + a) = uint offset + uint a"
    using assms(2) by (intro uint_add_lem [THEN iffD1]) simp
  then show ?thesis using sint_eq_uint_small [of "offset + a"] assms(2) s by simp
qed

lemma zeros_cut:
  assumes "m_stub f = Some r" "uint (m_size_cached f) < 2 ^ 63" "\<not> m_isRandom f"
    and a: "0 \<le> sint offset" "sint offset + uint a + uint b \<le> uint (m_size_cached f)"
  shows "bytes_read_at x f offset (a + b) = bytes_read_at x f offset a @ bytes_read_at x f (offset + a) b"
proof -
  have sum: "uint (a + b) = uint a + uint b"
    using a assms(2) by (intro uint_add_lem [THEN iffD1]) simp
  then have "unat (a + b) = unat a + unat b"
    by (simp add: unat_eq_nat_uint nat_add_distrib del: nat_uint_eq)
  moreover have fits: "sint offset + uint a \<le> uint (m_size_cached f)"
    using a(2) uint_nonnegative [of b] by linarith
  have "sint (offset + a) = sint offset + uint a"
    by (rule offset_plus [OF a(1) le_less_trans [OF fits assms(2)]])
  then have "bytes_read_at x f offset (a + b) = content f (unat (a + b)) offset"
    "bytes_read_at x f offset a = content f (unat a) offset"
    "bytes_read_at x f (offset + a) b = content f (unat b) (offset + a)"
    using a fits sum uint_nonnegative [of a] by (intro bytes_read_at_eq [OF assms(1,2)]; linarith)+
  ultimately show ?thesis using assms(3) by (simp add: content_def replicate_add)
qed

lemma random_cut:
  assumes "m_stub f = Some r" "uint (m_size_cached f) < 2 ^ 63" "m_isRandom f"
    and "uint (m_ino f) + 16 \<le> uint (m_size_cached f)"
  shows "\<exists>offset. 0 \<le> sint offset \<and> sint offset + 16 \<le> uint (m_size_cached f) \<and>
    bytes_read_at x f offset 16 \<noteq> bytes_read_at x f offset 8 @ bytes_read_at x f (offset + 8) 8"
proof -
  note eq = bytes_read_at_eq [OF assms(1,2), of _ _ x]
  let ?o = "m_ino f AND NOT 8"
  have o: "uint ?o + 16 \<le> uint (m_size_cached f)"
    using clear_bit(2) [OF bit_8, of "m_ino f"] assms(4) by linarith
  have s: "sint ?o = uint ?o" by (rule sint_eq_uint_small) (use o assms(2) in simp)
  have p: "sint (?o + 8) = uint ?o + 8" using offset_plus [of ?o 8] o assms(2) s by simp
  have eqs: "bytes_read_at x f ?o 16 = content f 16 ?o" "bytes_read_at x f ?o 8 = content f 8 ?o"
    "bytes_read_at x f (?o + 8) 8 = content f 8 (?o + 8)"
    using eq [of ?o 16] eq [of ?o 8] eq [of "?o + 8" 8] uint_nonnegative [of ?o] o
    unfolding s p by simp_all
  have "bytes_read_at x f ?o 16 \<noteq> bytes_read_at x f ?o 8 @ bytes_read_at x f (?o + 8) 8"
    unfolding eqs content_def using clear_bit(1) [OF bit_8, of "m_ino f"] streams_part assms(3) by auto
  then show ?thesis using o s by (intro exI [of _ ?o]) simp
qed

text \<open>
  C36: In a file of zeros a read may be cut in two at any place and gives the same
  bytes; in every file with the pseudo-random pattern whose size is at least its inode
  plus 16 there is an offset at which a read of 16 bytes and two reads of 8 bytes give
  different ones: the bytes of a file depend on how it is cut into reads.
\<close>

theorem split_read_differs:
  assumes "m_stub f = Some r" and "uint (m_size_cached f) < 2 ^ 63"
  shows "(\<not> m_isRandom f \<longrightarrow>
      (\<forall>offset a b. 0 \<le> sint offset \<and> sint offset + uint a + uint b \<le> uint (m_size_cached f) \<longrightarrow>
        bytes_read_at x f offset (a + b) = bytes_read_at x f offset a @ bytes_read_at x f (offset + a) b)) \<and>
    (m_isRandom f \<and> uint (m_ino f) + 16 \<le> uint (m_size_cached f) \<longrightarrow>
      (\<exists>offset. 0 \<le> sint offset \<and> sint offset + 16 \<le> uint (m_size_cached f) \<and>
        bytes_read_at x f offset 16 \<noteq> bytes_read_at x f offset 8 @ bytes_read_at x f (offset + 8) 8))"
  using zeros_cut [OF assms] random_cut [OF assms] by blast

theorem split_read_differs_witness:
  "(let f = new_file\<lparr>m_stub := Some 0, m_isRandom := True, m_ino := 9, m_size_cached := 32\<rparr> in
     \<exists>offset. bytes_read_at 7 f offset 16 \<noteq> bytes_read_at 7 f offset 8 @ bytes_read_at 7 f (offset + 8) 8) \<and>
   (let f = new_file\<lparr>m_stub := Some 0, m_size_cached := 5\<rparr> in
     bytes_read_at 7 f 1 4 = bytes_read_at 7 f 1 3 @ bytes_read_at 7 f 4 1)"
proof -
  let ?f = "new_file\<lparr>m_stub := Some 0, m_isRandom := True, m_ino := 9, m_size_cached := 32\<rparr>"
  let ?z = "new_file\<lparr>m_stub := Some 0, m_size_cached := 5\<rparr>"
  have "\<exists>offset. bytes_read_at 7 ?f offset 16 \<noteq> bytes_read_at 7 ?f offset 8 @ bytes_read_at 7 ?f (offset + 8) 8"
    using split_read_differs [of ?f 0 7] by simp blast
  moreover have "bytes_read_at 7 ?z 1 (3 + 1) = bytes_read_at 7 ?z 1 3 @ bytes_read_at 7 ?z (1 + 3) 1"
    using conjunct1 [OF split_read_differs [of ?z 0 7], THEN mp, rule_format, of 1 3 1]
    by (simp add: new_file_def)
  ultimately show ?thesis by (simp add: Let_def)
qed

section \<open>Vectored reads\<close>

text \<open>The reference: the segments read one after the other with \<^const>\<open>Read\<close>.\<close>

fun read_each :: "oss_file \<Rightarrow> iov list \<Rightarrow> i64 \<times> oss_file \<times> iov list" where
  "read_each f [] = (0, f, [])"
| "read_each f (v # vs) =
     (if sint (iov_size v) \<le> 0 then
        (let (tot, f1, vs1) = read_each f vs in (tot, f1, v # vs1))
      else
        let (n, f1, data) = Read (iov_data v) (iov_offset v) (scast (iov_size v)) f;
            (tot, f2, vs1) = read_each f1 vs
        in (n + tot, f2, v\<lparr>iov_data := data\<rparr> # vs1))"

abbreviation segments :: "iov list \<Rightarrow> iov list" where
  "segments vs \<equiv> filter (\<lambda>v. 0 < sint (iov_size v)) vs"

text \<open>Counting does not change what a handle reads.\<close>

lemma ReadInner_cong:
  "m_size_cached f = m_size_cached g \<Longrightarrow> m_isRandom f = m_isRandom g \<Longrightarrow> m_ino f = m_ino g \<Longrightarrow>
   ReadInner f = ReadInner g"
  by (simp add: ReadInner_def Let_def fun_eq_iff)

lemma account_read_frame [simp]:
  "m_stub (account_read k f) = m_stub f" "m_size_cached (account_read k f) = m_size_cached f"
  "m_isRandom (account_read k f) = m_isRandom f" "m_ino (account_read k f) = m_ino f"
  by (simp_all add: account_read_def)

lemma account_read_bytes: "m_readBytes (account_read k f) = m_readBytes f + of_nat k"
  by (simp add: account_read_def)

lemma account_read_reset:
  "(account_read k f)\<lparr>m_readBytes := x, m_readOps := y\<rparr> = f\<lparr>m_readBytes := x, m_readOps := y\<rparr>"
  by (simp add: account_read_def)

lemma uint_scast_small: "0 < sint (w :: i32) \<Longrightarrow> uint (scast w :: u64) < 2 ^ 63"
  using sint_lt [of w] sint_uint_nonneg [of w]
  by (simp add: scast_eq unsigned_ucast_eq take_bit_int_eq_self)

lemma read_each_eq:
  assumes "m_stub f = Some r"
  shows "read_each f vs = (tot, f1, vs1) \<Longrightarrow>
    readv_loop f vs t ops = (Inr (t + tot, ops + of_nat (length (segments vs))), vs1) \<and>
    f1 = f\<lparr>m_readBytes := m_readBytes f + tot, m_readOps := m_readOps f1\<rparr>"
  using assms
proof (induction vs arbitrary: f tot f1 vs1 t ops)
  case (Cons v vs)
  show ?case
  proof (cases "sint (iov_size v) \<le> 0")
    case True
    obtain a b c where rec: "read_each f vs = (a, b, c)" by (metis prod_cases3)
    show ?thesis
      using Cons.IH [OF rec Cons.prems(2), of t ops] Cons.prems(1) True rec by simp
  next
    case False
    let ?b = "scast (iov_size v) :: u64" and ?o = "iov_offset v"
    let ?k = "read_count f ?o ?b"
    let ?g = "account_read ?k f"
    have small: "uint ?b < 2 ^ 63" using uint_scast_small [of "iov_size v"] False by simp
    obtain a b c where rec: "read_each ?g vs = (a, b, c)" by (metis prod_cases3)
    have same: "readv_loop ?g = readv_loop f"
    proof (intro ext)
      fix ws x y
      show "readv_loop ?g ws x y = readv_loop f ws x y"
        by (induction ws arbitrary: x y) (simp_all add: ReadInner_cong [of ?g f] Let_def case_prod_beta)
    qed
    have "m_stub ?g = Some r" using Cons.prems(2) by simp
    note ih = Cons.IH [OF rec this, of "t + of_nat ?k" "ops + 1"]
    have cnt: "\<not> sint (of_nat ?k :: i64) < 0" using read_count_pos(2) [OF read_count_small [OF small], of f ?o] by simp
    have pair: "ReadInner f (iov_data v) ?o ?b = (of_nat ?k, snd (ReadInner f (iov_data v) ?o ?b))"
      using ReadInner_count by (metis prod.collapse)
    have res: "tot = of_nat ?k + a" "f1 = b"
      "vs1 = v\<lparr>iov_data := snd (ReadInner f (iov_data v) ?o ?b)\<rparr> # c"
      using Cons.prems(1) False rec by (auto simp: Read_open [OF Cons.prems(2) small])
    have loop: "readv_loop f (v # vs) t ops =
      (Inr (t + tot, ops + of_nat (length (segments (v # vs)))), vs1)"
      using ih cnt False by (subst readv_loop.simps, subst pair) (simp add: same res)
    have "b = f\<lparr>m_readBytes := m_readBytes f + tot, m_readOps := m_readOps b\<rparr>"
      using ih by (simp add: account_read_bytes account_read_reset res(1) add.assoc)
    then show ?thesis using loop res(2) by blast
  qed
qed simp

text \<open>
  C17: A vectored read returns the sum and leaves the buffers of its segments read one
  after the other with the plain read, skips segments of non-positive size, and counts
  the same bytes; it counts one operation for every segment it tries, also those at the
  end of the file.
\<close>

theorem readv_equals_reads:
  assumes "m_stub f = Some r" and "0 < sint n" and "nat (sint n) = length vs"
  shows "let (tot, g, vs1) = read_each f vs
    in ReadV vs n f = (tot, g\<lparr>m_readOps := m_readOps f + of_nat (length (segments vs))\<rparr>, vs1)"
proof -
  obtain tot g vs1 where rec: "read_each f vs = (tot, g, vs1)" by (metis prod_cases3)
  have g: "g = f\<lparr>m_readBytes := m_readBytes f + tot, m_readOps := m_readOps g\<rparr>"
    using read_each_eq [OF assms(1) rec] by blast
  have "g\<lparr>m_readOps := x\<rparr> = f\<lparr>m_readBytes := m_readBytes f + tot, m_readOps := x\<rparr>" for x
    by (subst g) simp
  then show ?thesis
    using read_each_eq [OF assms(1) rec, of 0 0] assms by (simp add: ReadV_def rec)
qed

theorem readv_equals_reads_witness:
  "let f = new_file\<lparr>m_stub := Some 0, m_size_cached := 5\<rparr>;
       vs = [\<lparr>iov_offset = 4, iov_size = 2, iov_data = [7, 7]\<rparr>,
             \<lparr>iov_offset = 9, iov_size = 1, iov_data = [7]\<rparr>]
   in ReadV vs 2 f =
     (1, f\<lparr>m_readBytes := 1, m_readOps := 2\<rparr>,
      [\<lparr>iov_offset = 4, iov_size = 2, iov_data = [0, 7]\<rparr>,
       \<lparr>iov_offset = 9, iov_size = 1, iov_data = [7]\<rparr>])"
proof -
  let ?f = "new_file\<lparr>m_stub := Some 0, m_size_cached := 5\<rparr>"
  let ?v = "\<lparr>iov_offset = 4, iov_size = 2, iov_data = [7, 7]\<rparr>"
  let ?w = "\<lparr>iov_offset = 9, iov_size = 1, iov_data = [7]\<rparr>"
  have "read_each ?f [?v, ?w] =
      (1, ?f\<lparr>m_readBytes := 1, m_readOps := 1\<rparr>, [?v\<lparr>iov_data := [0, 7]\<rparr>, ?w])"
    by (simp add: Read_def ReadInner_def memset0_def new_file_def)
  then show ?thesis
    using readv_equals_reads [of ?f 0 2 "[?v, ?w]"] by (simp add: new_file_def)
qed

section \<open>Handles with no open file\<close>

text \<open>
  On a handle with no open file every read fails with EINVAL, counts an error and
  leaves the buffers alone; a status request and a close fail with ENOENT and change
  nothing.
\<close>

lemma unopened_handle_fails:
  assumes "m_stub f = None" and "0 < sint n"
  shows "Read buff offset blen f = (- 22, f\<lparr>m_errors := m_errors f + 1\<rparr>, buff) \<and>
    Read_prep offset blen f = (- 22, f\<lparr>m_errors := m_errors f + 1\<rparr>) \<and>
    ReadV vs n f = (- 22, f\<lparr>m_errors := m_errors f + 1\<rparr>, vs) \<and>
    Fstat st f g = (- 2, st) \<and> Close now f g = (- 2, f, g)"
  using assms
  by (simp add: Read_def Read_prep_def ReadV_def Fstat_def Close_def)

end
