(* ===== verification/OssFile_Session.thy ===== *)
theory OssFile_Session
  imports OssFile_Read
begin

text \<open>
  A file session: open, any sequence of calls on the handle, close. What the calls add
  up to, what \<^verbatim>\<open>Close\<close> leaves in the stub and in the statistics, how long a throttled
  write sleeps, and what happens when two handles are open on one stub.
\<close>

section \<open>The write throttle\<close>

lemma throttle_rate_near:
  assumes "0 < uint speed" "uint speed < 2 ^ 31"
  shows "near (1 / 2 ^ 53) (throttle_rate speed) (of_int (uint speed) * 1048576 / 1000000)"
    and "0 < throttle_rate speed"
proof -
  define n where "n = uint speed"
  let ?s = "of_int n :: rat"
  have n: "0 < n" "n < 2 ^ 31" using assms by (simp_all add: n_def)
  have conv: "d_of_u64 speed = ?s" unfolding n_def using assms by (intro d_of_u64_exact) simp
  have kib: "d_mul ?s 1024 = of_int (n * 1024)"
    unfolding d_mul_def using fl_of_int [of "n * 1024"] n by simp
  have mib: "d_mul (of_int (n * 1024)) 1024 = of_int (n * 1048576)"
    unfolding d_mul_def using fl_of_int [of "n * 1048576"] n by (simp add: mult.assoc)
  have rate: "throttle_rate speed = fl (?s * 1048576 / 1000000)"
    unfolding throttle_rate_def conv kib mib d_div_def Let_def using n by simp
  have "near (1 / 2 ^ 53) (throttle_rate speed) (?s * 1048576 / 1000000)"
    unfolding rate using near_fl [OF near_refl [of "?s * 1048576 / 1000000"]] n by simp
  then show "near (1 / 2 ^ 53) (throttle_rate speed) (of_int (uint speed) * 1048576 / 1000000)"
    by (simp only: n_def)
  show "0 < throttle_rate speed"
    unfolding rate using n by (intro fl_pos) simp
qed

text \<open>
  C26: With the throttle set to N MiB/s (N in the range the configuration allows) a
  write of up to 2^53 bytes sleeps blen * 10^6 / (N * 2^20) microseconds, rounded down,
  up to a relative error of 2^-51 for the floating-point arithmetic.
\<close>

theorem throttle_sleep_time:
  assumes "m_throttleBytesPerUs f = throttle_rate speed"
    and "0 < uint speed" "uint speed < 2 ^ 31" and "uint blen < 2 ^ 53"
  shows "\<exists>us. write_delay f blen = Some us \<and> 0 \<le> us \<and>
    (let ideal = of_int (uint blen) * 1000000 / (of_int (uint speed) * 1048576) :: rat
     in of_int us \<le> ideal * (1 + 1 / 2 ^ 51) \<and> ideal * (1 - 1 / 2 ^ 51) < of_int us + 1)"
proof -
  let ?s = "of_int (uint speed) :: rat" and ?b = "of_int (uint blen) :: rat"
  let ?r = "throttle_rate speed" and ?u = "1 / 2 ^ 53 :: rat"
  have pos: "0 < ?s" "0 \<le> ?b" using assms(2) by (simp_all only: of_int_0_less_iff of_int_0_le_iff uint_nonnegative)
  note rate = throttle_rate_near [OF assms(2,3)]
  have n0: "near (2 * ?u) (?b / ?r) (?b / (?s * 1048576 / 1000000))"
    by (rule near_inverse [OF rate(1)]) (use pos in simp_all)
  have n: "near (1 / 2 ^ 51) (d_div ?b ?r) (?b / (?s * 1048576 / 1000000))"
    unfolding d_div_def by (rule near_weaken [OF near_fl [OF n0]]) (use pos in simp_all)
  have eq: "?b / (?s * 1048576 / 1000000) = ?b * 1000000 / (?s * 1048576)" by simp
  have nonneg: "0 \<le> d_div ?b ?r"
    unfolding d_div_def using rate(2) pos by (intro fl_nonneg) simp
  have conv: "d_of_u64 blen = ?b" by (rule d_of_u64_exact [OF assms(4)])
  have "write_delay f blen = Some \<lfloor>d_div ?b ?r\<rfloor>"
    using rate(2) by (simp add: write_delay_def assms(1) conv)
  moreover have "of_int \<lfloor>d_div ?b ?r\<rfloor> \<le> ?b * 1000000 / (?s * 1048576) * (1 + 1 / 2 ^ 51)"
    by (rule order_trans [OF of_int_floor_le])
      (use n in \<open>simp only: near_def eq mult.commute [of _ "?b * 1000000 / (?s * 1048576)"]\<close>)
  moreover have "?b * 1000000 / (?s * 1048576) * (1 - 1 / 2 ^ 51) < of_int \<lfloor>d_div ?b ?r\<rfloor> + 1"
    by (rule le_less_trans [of _ "d_div ?b ?r"])
      (use n in \<open>simp only: near_def eq mult.commute [of _ "?b * 1000000 / (?s * 1048576)"]\<close>,
        linarith)
  ultimately show ?thesis using nonneg unfolding Let_def by (intro exI conjI) simp_all
qed

theorem throttle_sleep_time_witness:
  "\<exists>us. write_delay (new_file\<lparr>m_throttleBytesPerUs := throttle_rate 100\<rparr>) 104857600 = Some us
     \<and> us \<le> 1000000"
proof -
  let ?f = "new_file\<lparr>m_throttleBytesPerUs := throttle_rate 100\<rparr>"
  obtain us where "write_delay ?f 104857600 = Some us"
    "of_int us \<le> (1000000 * (1 + 1 / 2 ^ 51) :: rat)"
    using throttle_sleep_time [of ?f 100 104857600] by auto
  moreover from this(2) have "of_int us < (of_int 1000001 :: rat)"
    by (rule le_less_trans) simp
  ultimately show ?thesis by auto
qed

section \<open>Calls on an open handle\<close>

datatype file_op =
    DoWrite i64 u64
  | DoWriteAio sfs_aio
  | DoRead "byte list" i64 u64
  | DoReadAio sfs_aio
  | DoReadRaw "byte list" i64 u64
  | DoReadV "iov list" i32
  | DoReadPrep i64 u64
  | DoFsync
  | DoFtruncate u64

text \<open>A call with what it reports to the caller: the returned count, or the \<^verbatim>\<open>Result\<close>
  of the completed asynchronous request.\<close>

fun do_op :: "file_op \<Rightarrow> oss_file \<Rightarrow> i64 \<times> oss_file" where
  "do_op (DoWrite offset blen) f = (let (rc, f1, _) = Write offset blen f in (rc, f1))"
| "do_op (DoWriteAio aiop) f = (let (_, f1, aiop1, _) = Write_aio aiop f in (aio_Result aiop1, f1))"
| "do_op (DoRead buff offset blen) f = (let (rc, f1, _) = Read buff offset blen f in (rc, f1))"
| "do_op (DoReadAio aiop) f = (let (_, f1, aiop1) = Read_aio aiop f in (aio_Result aiop1, f1))"
| "do_op (DoReadRaw buff offset blen) f = (let (rc, f1, _) = ReadRaw buff offset blen f in (rc, f1))"
| "do_op (DoReadV vs n) f = (let (rc, f1, _) = ReadV vs n f in (rc, f1))"
| "do_op (DoReadPrep offset blen) f = Read_prep offset blen f"
| "do_op DoFsync f = (word_of_int (Fsync f), f)"
| "do_op (DoFtruncate len) f = (word_of_int (Ftruncate len f), f)"

fun run_ops :: "file_op list \<Rightarrow> oss_file \<Rightarrow> i64 list \<times> oss_file" where
  "run_ops [] f = ([], f)"
| "run_ops (op # ops) f =
     (let (rc, f1) = do_op op f; (rcs, f2) = run_ops ops f1 in (rc # rcs, f2))"

fun written :: "file_op \<Rightarrow> u64" where
  "written (DoWrite _ blen) = blen"
| "written (DoWriteAio aiop) = aio_nbytes aiop"
| "written _ = 0"

fun is_write :: "file_op \<Rightarrow> bool" where
  "is_write (DoWrite _ _) = True" | "is_write _ = False"

fun is_write_aio :: "file_op \<Rightarrow> bool" where
  "is_write_aio (DoWriteAio _) = True" | "is_write_aio _ = False"

fun is_read :: "file_op \<Rightarrow> bool" where
  "is_read (DoRead _ _ _) = True"
| "is_read (DoReadAio _) = True"
| "is_read (DoReadRaw _ _ _) = True"
| "is_read (DoReadV _ _) = True"
| "is_read _ = False"

text \<open>What no call on the handle changes.\<close>

definition same_open :: "oss_file \<Rightarrow> oss_file \<Rightarrow> bool" where
  "same_open f g \<longleftrightarrow> m_stub f = m_stub g \<and> m_path f = m_path g \<and>
     m_size_cached f = m_size_cached g \<and> m_isRandom f = m_isRandom g \<and> m_ino f = m_ino g \<and>
     m_throttleBytesPerUs f = m_throttleBytesPerUs g \<and> m_start f = m_start g \<and>
     m_stats f = m_stats g"

lemma same_open_refl: "same_open f f"
  by (simp add: same_open_def)

lemma same_open_trans: "same_open f g \<Longrightarrow> same_open g h \<Longrightarrow> same_open f h"
  by (simp add: same_open_def)

lemma same_open_account: "same_open f (account_read k f)"
  by (simp add: same_open_def account_read_def)

lemma same_open_do_op: "same_open f (snd (do_op op f))"
  by (cases op)
    (simp_all add: same_open_def Write_def Write_aio_def Read_def Read_aio_def ReadRaw_def
      ReadV_def Read_prep_def Let_def case_prod_beta split: option.split sum.split)

lemma same_open_run_ops: "same_open f (snd (run_ops ops f))"
proof (induction ops arbitrary: f)
  case (Cons op ops)
  then show ?case
    using same_open_trans [OF same_open_do_op [of f op]] by (simp add: case_prod_beta Let_def)
qed (simp add: same_open_refl)

lemma readv_loop_counts:
  assumes "uint (m_size_cached f) < 2 ^ 63"
  shows "\<exists>tot k vs1. readv_loop f vs t ops = (Inr (tot, k), vs1)"
proof (induction vs arbitrary: t ops)
  case (Cons v vs)
  have "\<not> sint (fst (ReadInner f (iov_data v) (iov_offset v) (scast (iov_size v)))) < 0"
    unfolding ReadInner_count
    using read_count_pos(2) [OF read_count_bounded [OF assms]] by (simp add: not_less)
  then show ?case
    using Cons by (simp add: case_prod_beta Let_def) (metis fst_conv)
qed simp

section \<open>What the counters hold\<close>

text \<open>
  The counters of a handle, and how far a sequence of calls moves them: the bytes the
  writes asked for, the bytes the reads reported, and the number of writes of each kind.
\<close>

definition out_bytes :: "oss_file \<Rightarrow> i64" where
  "out_bytes f = m_writeBytes f + m_writeBytesAIO f"

abbreviation op_count :: "(file_op \<Rightarrow> bool) \<Rightarrow> file_op list \<Rightarrow> u32" where
  "op_count kind ops \<equiv> of_nat (length (filter kind ops))"

abbreviation read_total :: "file_op list \<Rightarrow> i64 list \<Rightarrow> i64" where
  "read_total ops rcs \<equiv> sum_list (map snd (filter (is_read \<circ> fst) (zip ops rcs)))"

lemma do_op_read_bytes:
  assumes "m_stub f = Some r" "uint (m_size_cached f) < 2 ^ 63"
  shows "m_readBytes (snd (do_op op f)) =
    m_readBytes f + (if is_read op then fst (do_op op f) else 0)"
proof (cases op)
  case (DoReadV vs n)
  obtain tot k vs1 where "readv_loop f (take (nat (sint n)) vs) 0 0 = (Inr (tot, k), vs1)"
    using readv_loop_counts [OF assms(2)] by blast
  then show ?thesis using assms(1) by (simp add: DoReadV ReadV_def)
qed (simp_all add: Write_def Write_aio_def Read_aio_def ReadRaw_def Read_prep_def assms
    Read_counted [OF assms(1) read_count_bounded [OF assms(2)]] account_read_bytes
    case_prod_beta Let_def)

lemma do_op_counters:
  assumes "m_stub f = Some r"
  shows "out_bytes (snd (do_op op f)) = out_bytes f + written op"
    and "m_writeOps (snd (do_op op f)) = m_writeOps f + (if is_write op then 1 else 0)"
    and "m_writeAioOps (snd (do_op op f)) = m_writeAioOps f + (if is_write_aio op then 1 else 0)"
    and "m_errors (snd (do_op op f)) = m_errors f"
  using assms
  by (cases op; simp add: out_bytes_def Write_def Write_aio_def Read_def Read_aio_def ReadRaw_def
      ReadV_def Read_prep_def Let_def case_prod_beta split: sum.split)+

lemma run_ops_counters:
  assumes "m_stub f = Some r" "uint (m_size_cached f) < 2 ^ 63"
  shows "out_bytes (snd (run_ops ops f)) = out_bytes f + sum_list (map written ops)"
    and "m_writeOps (snd (run_ops ops f)) = m_writeOps f + op_count is_write ops"
    and "m_writeAioOps (snd (run_ops ops f)) = m_writeAioOps f + op_count is_write_aio ops"
    and "m_errors (snd (run_ops ops f)) = m_errors f"
    and "m_readBytes (snd (run_ops ops f)) =
      m_readBytes f + read_total ops (fst (run_ops ops f))"
  using assms
proof (induction ops arbitrary: f)
  case (Cons op ops)
  have same: "m_stub (snd (do_op op f)) = Some r"
    "uint (m_size_cached (snd (do_op op f))) < 2 ^ 63" if "m_stub f = Some r"
    "uint (m_size_cached f) < 2 ^ 63" for f
    using same_open_do_op [of f op] that by (simp_all add: same_open_def)
  {
    case 1 then show ?case using Cons.IH(1) [OF same [OF 1]] do_op_counters(1) [OF 1(1)]
      by (simp add: case_prod_beta Let_def)
  next
    case 2 then show ?case using Cons.IH(2) [OF same [OF 2]] do_op_counters(2) [OF 2(1)]
      by (simp add: case_prod_beta Let_def)
  next
    case 3 then show ?case using Cons.IH(3) [OF same [OF 3]] do_op_counters(3) [OF 3(1)]
      by (simp add: case_prod_beta Let_def)
  next
    case 4 then show ?case using Cons.IH(4) [OF same [OF 4]] do_op_counters(4) [OF 4(1)]
      by (simp add: case_prod_beta Let_def)
  next
    case 5 then show ?case using Cons.IH(5) [OF same [OF 5]] do_op_read_bytes [OF 5]
      by (simp add: case_prod_beta Let_def)
  }
qed simp_all

section \<open>A write session\<close>

text \<open>An open for writing that the namespace accepts.\<close>

definition can_write :: "bhfs \<Rightarrow> path \<Rightarrow> i32 \<Rightarrow> bool" where
  "can_write fs p flags \<longleftrightarrow>
     \<not> read_only flags \<and> (getStub fs p = None \<or> flags AND O_EXCL = 0) \<and>
     uint (m_fd_last fs) + 1 < 2 ^ 31"

definition starts_empty :: "bhfs \<Rightarrow> path \<Rightarrow> i32 \<Rightarrow> bool" where
  "starts_empty fs p flags \<longleftrightarrow> getStub fs p = None \<or> flags AND O_TRUNC \<noteq> 0"

lemma next_fd:
  assumes "uint (m_fd_last fs) + 1 < 2 ^ 31"
  shows "to_int (m_fd_last fs + 1) = uint (m_fd_last fs) + 1"
    and "uint (m_fd_last fs + 1) = uint (m_fd_last fs) + 1"
proof -
  have fd: "m_fd_last fs \<noteq> - 1"
    using assms by (auto simp: unsigned_minus_1_eq_mask mask_eq_exp_minus_1)
  show "uint (m_fd_last fs + 1) = uint (m_fd_last fs) + 1" by (rule uint_word_Suc [OF fd])
  with assms show "to_int (m_fd_last fs + 1) = uint (m_fd_last fs) + 1" by (simp add: to_int_small)
qed

lemma open_fs_write:
  assumes "fs_inv fs" "can_write fs p flags"
  obtains r fs1 where
    "open_fs p flags mode fs = (uint (m_fd_last fs) + 1, fs1)"
    "getStub fs1 = (getStub fs)(p \<mapsto> r)" "m_isOpenWrite (cell fs1 r)"
    "fs_inv fs1" "m_fd_last fs1 = m_fd_last fs + 1"
    "starts_empty fs p flags \<Longrightarrow> m_size (cell fs1 r) = 0 \<and> m_readtype (cell fs1 r) = ''zeros''"
    "\<not> starts_empty fs p flags \<Longrightarrow> getStub fs p = Some r \<and> m_size (cell fs1 r) = m_size (cell fs r)"
    "\<And>q. q \<noteq> r \<Longrightarrow> cell fs1 q = cell fs q"
proof -
  have wr: "\<not> read_only flags" "getStub fs p = None \<or> flags AND O_EXCL = 0"
    "uint (m_fd_last fs) + 1 < 2 ^ 31" using assms(2) by (auto simp: can_write_def)
  have rc: "to_int (m_fd_last fs + 1) = uint (m_fd_last fs) + 1"
    by (rule next_fd(1) [OF wr(3)])
  have fd: "m_fd_last fs \<noteq> - 1"
    using wr(3) by (auto simp: unsigned_minus_1_eq_mask mask_eq_exp_minus_1)
  have wf: "om_wf (m_files fs)" using fs_inv_wf [OF assms(1)] by (simp add: files_wf_def)
  define fs1 where "fs1 = snd (open_fs p flags mode fs)"
  have inv: "fs_inv fs1" unfolding fs1_def by (rule fs_inv_open [OF assms(1) fd])
  show ?thesis
  proof (cases "starts_empty fs p flags")
    case True
    show ?thesis
    proof (rule that [of fs1 "next_ref fs"])
      show "open_fs p flags mode fs = (uint (m_fd_last fs) + 1, fs1)"
        "getStub fs1 = (getStub fs)(p \<mapsto> next_ref fs)" "m_isOpenWrite (cell fs1 (next_ref fs))"
        "m_fd_last fs1 = m_fd_last fs + 1"
        using True wr(1,2) wf unfolding fs1_def starts_empty_def
        by (cases "getStub fs p"; simp add: open_fs_new open_fs_trunc open_create_eq rc
            om.find_ins om.find_del om.wf_del fun_eq_iff)+
      show "m_size (cell fs1 (next_ref fs)) = 0 \<and> m_readtype (cell fs1 (next_ref fs)) = ''zeros''"
        using True wr(1,2) unfolding fs1_def starts_empty_def
        by (cases "getStub fs p") (simp_all add: open_fs_new open_fs_trunc open_create_eq)
      show "cell fs1 q = cell fs q" if "q \<noteq> next_ref fs" for q
        using True that wr(1,2) unfolding fs1_def starts_empty_def
        by (cases "getStub fs p") (simp_all add: open_fs_new open_fs_trunc open_create_eq)
    qed (use True inv in auto)
  next
    case False
    then obtain r where r: "getStub fs p = Some r" "flags AND O_TRUNC = 0"
      by (auto simp: starts_empty_def)
    then have "open_fs p flags mode fs = (uint (m_fd_last fs) + 1, fs1)"
      "getStub fs1 = (getStub fs)(p \<mapsto> r)" "m_isOpenWrite (cell fs1 r)"
      "m_fd_last fs1 = m_fd_last fs + 1" "m_size (cell fs1 r) = m_size (cell fs r)"
      "\<And>q. q \<noteq> r \<Longrightarrow> cell fs1 q = cell fs q"
      using wr(1,2) unfolding fs1_def by (simp_all add: open_fs_reuse rc fun_upd_idem)
    then show ?thesis using that [of fs1 r] inv r(1) False by simp
  qed
qed

lemma Open_ok:
  assumes "open_fs p flags mode (g_blackholeFS g) = (fd, fs1)" "0 \<le> fd" "getStub fs1 p = Some r"
  shows "Open bhOss p flags mode t0 now f g =
    (0, Open_finish bhOss p flags t0 now (f\<lparr>m_path := p\<rparr>) (g\<lparr>g_blackholeFS := fs1\<rparr>),
     g\<lparr>g_blackholeFS := fs1\<rparr>)"
  using assms by (simp add: Open_def Open_begin_def)

lemma Open_finish_fields:
  assumes "getStub (g_blackholeFS g) (m_path f) = Some r"
    and "h = Open_finish bhOss p flags t0 now f g" and "s = cell (g_blackholeFS g) r"
  shows "m_stub h = Some r" "m_path h = m_path f" "m_size_cached h = m_size s"
    "m_isRandom h \<longleftrightarrow> m_readtype s = ''random''" "m_ino h = st_ino (m_stat s)"
    "m_throttleBytesPerUs h = throttle_rate (writespeedMiBs bhOss)" "m_start h = t0"
    "out_bytes h = 0" "m_readBytes h = 0" "m_writeOps h = 0" "m_writeAioOps h = 0"
    "m_readOps h = 0" "m_errors h = 0"
    "m_stats h = empty_stats\<lparr>ts_path := p, open_time := now,
       was_write := (flags AND O_ACCMODE \<noteq> O_RDONLY)\<rparr>"
  using assms by (simp_all add: Open_finish_def Let_def out_bytes_def)

text \<open>What \<^verbatim>\<open>Close\<close> does to the stub a handle holds, and to the statistics.\<close>

definition close_stats :: "int \<Rightarrow> oss_file \<Rightarrow> TransferStats" where
  "close_stats now f =
     (m_stats f)\<lparr>duration_us := micros (now - m_start f), bytes_written := out_bytes f,
       bytes_read := m_readBytes f, write_ops := m_writeOps f, write_aio_ops := m_writeAioOps f,
       read_ops := m_readOps f, ts_errors := m_errors f\<rparr>"

definition set_size :: "u64 \<Rightarrow> stub \<Rightarrow> stub" where
  "set_size n s = s\<lparr>m_size := n, m_stat := (m_stat s)\<lparr>st_size := n\<rparr>\<rparr>"

lemma Close_eq:
  assumes "m_stub f = Some r"
  shows "Close now f g =
    (0, f\<lparr>m_end := now, m_stats := close_stats now f, m_stub := None\<rparr>,
     g\<lparr>g_blackholeFS := close_fs (m_path f)
          (if m_isOpenWrite (cell (g_blackholeFS g) r)
           then upd_stub r (set_size (out_bytes f)) (g_blackholeFS g) else g_blackholeFS g),
       g_statsManager := recordTransfer (close_stats now f) (g_statsManager g)\<rparr>)"
  using assms
  by (simp add: Close_def Close_begin_def Close_finish_def close_stats_def out_bytes_def Let_def
      set_size_def [abs_def])

lemma close_fs_found:
  "getStub fs p = Some r \<Longrightarrow> close_fs p fs = upd_stub r (\<lambda>s. s\<lparr>m_isOpenWrite := False\<rparr>) fs"
  by (simp add: close_fs_def)

lemma set_size_fields [simp]:
  "m_size (set_size n s) = n" "st_size (m_stat (set_size n s)) = n"
  "m_readtype (set_size n s) = m_readtype s" "m_isOpenWrite (set_size n s) = m_isOpenWrite s"
  "st_ino (m_stat (set_size n s)) = st_ino (m_stat s)"
  "st_dev (m_stat (set_size n s)) = st_dev (m_stat s)"
  by (simp_all add: set_size_def)

text \<open>A write session from beginning to end.\<close>

lemma session_state:
  assumes "fs_inv (g_blackholeFS g)" "can_write (g_blackholeFS g) p flags"
    and small: "\<And>r. getStub (g_blackholeFS g) p = Some r \<Longrightarrow>
      uint (m_size (cell (g_blackholeFS g) r)) < 2 ^ 63"
    and "Open bhOss p flags mode t0 now f g = (rc, f1, g1)" "run_ops ops f1 = (rcs, f2)"
    and "Close t1 f2 g1 = (rc', f3, g2)"
  obtains r where "rc = 0" "rc' = 0" "m_stub f3 = None"
    "getStub (g_blackholeFS g2) = (getStub (g_blackholeFS g))(p \<mapsto> r)"
    "m_size (cell (g_blackholeFS g2) r) = sum_list (map written ops)"
    "st_size (m_stat (cell (g_blackholeFS g2) r)) = sum_list (map written ops)"
    "\<not> m_isOpenWrite (cell (g_blackholeFS g2) r)"
    "starts_empty (g_blackholeFS g) p flags \<Longrightarrow>
       m_readtype (cell (g_blackholeFS g2) r) = ''zeros''"
    "m_fd_last (g_blackholeFS g2) = m_fd_last (g_blackholeFS g) + 1"
    "g_statsManager g2 = recordTransfer
       \<lparr>ts_path = p, open_time = now, duration_us = micros (t1 - t0),
        bytes_written = sum_list (map written ops), bytes_read = read_total ops rcs,
        write_ops = op_count is_write ops, write_aio_ops = op_count is_write_aio ops,
        read_ops = m_readOps f2, ts_errors = 0, was_write = True\<rparr> (g_statsManager g)"
    "m_stub f1 = Some r" "m_stub f2 = Some r"
    "close_stats t1 f2 = \<lparr>ts_path = p, open_time = now, duration_us = micros (t1 - t0),
        bytes_written = sum_list (map written ops), bytes_read = read_total ops rcs,
        write_ops = op_count is_write ops, write_aio_ops = op_count is_write_aio ops,
        read_ops = m_readOps f2, ts_errors = 0, was_write = True\<rparr>"
    "\<And>q. q \<noteq> r \<Longrightarrow> cell (g_blackholeFS g2) q = cell (g_blackholeFS g) q"
    "\<And>q. q \<noteq> p \<Longrightarrow> getStub (g_blackholeFS g) q \<noteq> Some r"
proof -
  let ?fs = "g_blackholeFS g"
  obtain r fs1 where o: "open_fs p flags mode ?fs = (uint (m_fd_last ?fs) + 1, fs1)"
    "getStub fs1 = (getStub ?fs)(p \<mapsto> r)" "m_isOpenWrite (cell fs1 r)"
    "fs_inv fs1" "m_fd_last fs1 = m_fd_last ?fs + 1"
    and empty: "starts_empty ?fs p flags \<Longrightarrow>
      m_size (cell fs1 r) = 0 \<and> m_readtype (cell fs1 r) = ''zeros''"
    and reuse: "\<not> starts_empty ?fs p flags \<Longrightarrow>
      getStub ?fs p = Some r \<and> m_size (cell fs1 r) = m_size (cell ?fs r)"
    and rest: "\<And>q. q \<noteq> r \<Longrightarrow> cell fs1 q = cell ?fs q"
    using open_fs_write [OF assms(1,2), where thesis = thesis] by metis
  let ?f0 = "f\<lparr>m_path := p\<rparr>" and ?g1 = "g\<lparr>g_blackholeFS := fs1\<rparr>"
  let ?f1 = "Open_finish bhOss p flags t0 now ?f0 ?g1"
  have at: "getStub fs1 p = Some r" using o(2) by simp
  have op: "rc = 0" "f1 = ?f1" "g1 = ?g1"
    using assms(4) Open_ok [OF o(1) _ at, of bhOss t0 now f] uint_nonnegative [of "m_fd_last ?fs"]
    by auto
  have "getStub (g_blackholeFS ?g1) (m_path ?f0) = Some r" using at by simp
  note f1 = Open_finish_fields [OF this op(2) refl]
  have "uint (m_size_cached f1) < 2 ^ 63"
    using f1(3) empty reuse small by (cases "starts_empty ?fs p flags") auto
  note cnt = run_ops_counters [OF f1(1) this, of ops, unfolded assms(5), simplified f1, simplified]
  have same: "m_stub f2 = Some r" "m_path f2 = p" "m_start f2 = t0" "m_stats f2 = m_stats f1"
    using same_open_run_ops [of f1 ops] assms(5) f1(1,2,7) by (auto simp: same_open_def)
  have wr: "flags AND O_ACCMODE \<noteq> O_RDONLY" using assms(2) by (simp add: can_write_def)
  have cl: "rc' = 0" "m_stub f3 = None"
    "g_blackholeFS g2 = close_fs p
       (if m_isOpenWrite (cell fs1 r) then upd_stub r (set_size (out_bytes f2)) fs1 else fs1)"
    "g_statsManager g2 = recordTransfer (close_stats t1 f2) (g_statsManager g)"
    using assms(6) op(3) same(2) by (auto simp: Close_eq [OF same(1)])
  have st: "close_stats t1 f2 = \<lparr>ts_path = p, open_time = now, duration_us = micros (t1 - t0),
        bytes_written = sum_list (map written ops), bytes_read = read_total ops rcs,
        write_ops = op_count is_write ops, write_aio_ops = op_count is_write_aio ops,
        read_ops = m_readOps f2, ts_errors = 0, was_write = True\<rparr>"
    using wr cnt by (simp add: close_stats_def same f1 empty_stats_def)
  have fs2: "g_blackholeFS g2 = upd_stub r (\<lambda>s. s\<lparr>m_isOpenWrite := False\<rparr>)
      (upd_stub r (set_size (sum_list (map written ops))) fs1)"
    using cl(3) o(3) cnt(1) at by (simp add: close_fs_found)
  have own: "getStub ?fs q \<noteq> Some r" if "q \<noteq> p" for q
  proof
    assume "getStub ?fs q = Some r"
    then have "getStub fs1 q = Some r" using o(2) that by simp
    then show False using o(4) at that unfolding fs_inv_def by blast
  qed
  show ?thesis
    by (rule that [of r]) (use cl(1,2,4) st fs2 o(2,5) empty op(1) f1(1) same(1) rest own in simp_all)
qed

text \<open>
  C4: An open for writing that the namespace accepts and the close after any sequence of
  calls on the handle both succeed, whatever those calls answer; the path then leads to
  a stub of its own that is no longer open for writing and whose size, in both places,
  is the sum of the lengths of all writes; every other path leads where it did, every
  other stub is as it was, and the statistics record exactly one transfer with that byte
  count, the bytes the reads reported, the number of writes of each kind, the elapsed
  microseconds and no error.
\<close>

theorem write_session:
  assumes "fs_inv (g_blackholeFS g)" and "can_write (g_blackholeFS g) p flags"
    and "\<forall>r. getStub (g_blackholeFS g) p = Some r \<longrightarrow>
      uint (m_size (cell (g_blackholeFS g) r)) < 2 ^ 63"
  shows "let (rc, f1, g1) = Open bhOss p flags mode t0 now f g;
      (rcs, f2) = run_ops ops f1;
      (rc', f3, g2) = Close t1 f2 g1;
      w = sum_list (map written ops)
    in rc = 0 \<and> rc' = 0 \<and> m_stub f3 = None \<and>
      (\<exists>r. getStub (g_blackholeFS g2) = (getStub (g_blackholeFS g))(p \<mapsto> r) \<and>
        m_size (cell (g_blackholeFS g2) r) = w \<and>
        st_size (m_stat (cell (g_blackholeFS g2) r)) = w \<and>
        \<not> m_isOpenWrite (cell (g_blackholeFS g2) r) \<and>
        (\<forall>q. q \<noteq> p \<longrightarrow> getStub (g_blackholeFS g) q \<noteq> Some r) \<and>
        (\<forall>q. q \<noteq> r \<longrightarrow> cell (g_blackholeFS g2) q = cell (g_blackholeFS g) q)) \<and>
      g_statsManager g2 = recordTransfer
        \<lparr>ts_path = p, open_time = now, duration_us = micros (t1 - t0), bytes_written = w,
         bytes_read = read_total ops rcs, write_ops = op_count is_write ops,
         write_aio_ops = op_count is_write_aio ops, read_ops = m_readOps f2, ts_errors = 0,
         was_write = True\<rparr> (g_statsManager g)"
proof -
  obtain rc f1 g1 where o: "Open bhOss p flags mode t0 now f g = (rc, f1, g1)"
    by (metis prod_cases3)
  obtain rcs f2 where r: "run_ops ops f1 = (rcs, f2)" by (metis surj_pair)
  obtain rc' f3 g2 where c: "Close t1 f2 g1 = (rc', f3, g2)" by (metis prod_cases3)
  show ?thesis
  proof (rule session_state [OF assms(1,2) _ o r c])
    fix r'
    assume "rc = 0" "rc' = 0" "m_stub f3 = None"
      "getStub (g_blackholeFS g2) = (getStub (g_blackholeFS g))(p \<mapsto> r')"
      "m_size (cell (g_blackholeFS g2) r') = sum_list (map written ops)"
      "st_size (m_stat (cell (g_blackholeFS g2) r')) = sum_list (map written ops)"
      "\<not> m_isOpenWrite (cell (g_blackholeFS g2) r')"
      "g_statsManager g2 = recordTransfer
       \<lparr>ts_path = p, open_time = now, duration_us = micros (t1 - t0),
        bytes_written = sum_list (map written ops), bytes_read = read_total ops rcs,
        write_ops = op_count is_write ops, write_aio_ops = op_count is_write_aio ops,
        read_ops = m_readOps f2, ts_errors = 0, was_write = True\<rparr> (g_statsManager g)"
      "\<And>q. q \<noteq> r' \<Longrightarrow> cell (g_blackholeFS g2) q = cell (g_blackholeFS g) q"
      "\<And>q. q \<noteq> p \<Longrightarrow> getStub (g_blackholeFS g) q \<noteq> Some r'"
    then show ?thesis
      unfolding o r c prod.case Let_def by (intro conjI exI [of _ r']) simp_all
  qed (use assms(3) in auto)
qed

theorem write_session_witness:
  "let g = \<lparr>g_blackholeFS = empty_fs, g_statsManager = empty_manager\<rparr>;
      (rc, f1, g1) = Open new_oss ''/a'' 65 420 0 0 new_file g;
      (rcs, f2) = run_ops [DoWrite 0 10, DoFsync, DoWrite 10 5] f1;
      (rc', f3, g2) = Close 9000 f2 g1
    in rc = 0 \<and> rc' = 0 \<and>
      (\<exists>r. getStub (g_blackholeFS g2) ''/a'' = Some r \<and> m_size (cell (g_blackholeFS g2) r) = 15)"
proof -
  let ?g = "\<lparr>g_blackholeFS = empty_fs, g_statsManager = empty_manager\<rparr>"
  have "fs_inv (g_blackholeFS ?g)" "can_write (g_blackholeFS ?g) ''/a'' 65"
    by (simp_all add: fs_inv_empty can_write_def)
  then show ?thesis
    using write_session [of ?g "''/a''" 65 new_oss 420 0 0 new_file
        "[DoWrite 0 10, DoFsync, DoWrite 10 5]" 9000]
    by (simp add: Let_def case_prod_beta) (metis fun_upd_same)
qed

text \<open>A file made by one session is read back by the next, as zeros.\<close>

text \<open>
  C3: A file created (or truncated) by one session, written by any sequence of
  synchronous and asynchronous writes (other calls may come between) and closed, is
  found by the next open with exactly the size that was written; a read of it delivers
  min(blen, size - offset) bytes, all zero, leaves the rest of the buffer alone, and is
  0 before the start and at or past the end.
\<close>

theorem written_file_reads_back:
  assumes "fs_inv (g_blackholeFS g)" and "can_write (g_blackholeFS g) p flags"
    and "starts_empty (g_blackholeFS g) p flags"
    and "uint (m_fd_last (g_blackholeFS g)) + 2 < 2 ^ 31"
    and "\<forall>r. getStub (g_blackholeFS g) p = Some r \<longrightarrow>
      uint (m_size (cell (g_blackholeFS g) r)) < 2 ^ 63"
    and "uint blen < 2 ^ 63" and "unat blen \<le> length buff"
  shows "let (_, f1, g1) = Open bhOss p flags mode t0 now f g;
      (_, f2) = run_ops ops f1;
      (_, _, g2) = Close t1 f2 g1;
      (rc, h, g3) = Open bhOss p 0 mode' t2 now' f' g2;
      (n, _, out) = Read buff offset blen h;
      w = uint (sum_list (map written ops));
      k = (if sint offset < 0 \<or> w \<le> sint offset then 0 else nat (min (uint blen) (w - sint offset)))
    in rc = 0 \<and> st_size (snd (Fstat st h g3)) = sum_list (map written ops) \<and>
      n = of_nat k \<and> out = replicate k 0 @ drop k buff"
proof -
  obtain rc0 f1 g1 where o: "Open bhOss p flags mode t0 now f g = (rc0, f1, g1)"
    by (metis prod_cases3)
  obtain rcs f2 where r: "run_ops ops f1 = (rcs, f2)" by (metis surj_pair)
  obtain rc' f3 g2 where c: "Close t1 f2 g1 = (rc', f3, g2)" by (metis prod_cases3)
  let ?fs = "g_blackholeFS g2"
  obtain r where s: "getStub ?fs p = Some r" "m_size (cell ?fs r) = sum_list (map written ops)"
    "st_size (m_stat (cell ?fs r)) = sum_list (map written ops)"
    "m_readtype (cell ?fs r) = ''zeros''" "m_fd_last ?fs = m_fd_last (g_blackholeFS g) + 1"
    by (rule session_state [OF assms(1,2) _ o r c]) (use assms(3,5) in auto)
  have fd: "uint (m_fd_last ?fs) + 1 < 2 ^ 31"
    using assms(4) next_fd(2) [of "g_blackholeFS g"] s(5) by simp
  let ?fs' = "upd_stub r (\<lambda>s. s\<lparr>m_flags := 0, m_mode := mode'\<rparr>)
    (?fs\<lparr>m_fd_last := m_fd_last ?fs + 1\<rparr>)"
  have op: "open_fs p 0 mode' ?fs = (uint (m_fd_last ?fs) + 1, ?fs')"
    using s(1) next_fd(1) [OF fd] by (simp add: open_fs_read)
  let ?g3 = "g2\<lparr>g_blackholeFS := ?fs'\<rparr>"
  obtain h where h: "Open bhOss p 0 mode' t2 now' f' g2 = (0, h, ?g3)"
    "h = Open_finish bhOss p 0 t2 now' (f'\<lparr>m_path := p\<rparr>) ?g3"
    using Open_ok [OF op] s(1) uint_nonnegative [of "m_fd_last ?fs"] by simp
  have "getStub (g_blackholeFS ?g3) (m_path (f'\<lparr>m_path := p\<rparr>)) = Some r" using s(1) by simp
  note hf = Open_finish_fields [OF this h(2) refl]
  have "m_stub h = Some r" "m_size_cached h = sum_list (map written ops)" "\<not> m_isRandom h"
    using hf s by simp_all
  then show ?thesis
    unfolding o r c prod.case Let_def h(1) Read_open [OF hf(1) assms(6)] ReadInner_eq [OF assms(7)]
    by (simp add: Fstat_def read_count_def content_def s(3))
qed

theorem written_file_reads_back_witness:
  "let g = \<lparr>g_blackholeFS = empty_fs, g_statsManager = empty_manager\<rparr>;
      (_, f1, g1) = Open new_oss ''/a'' 65 420 0 0 new_file g;
      (_, f2) = run_ops [DoWrite 0 10, DoFsync, DoWrite 10 5] f1;
      (_, _, g2) = Close 9000 f2 g1;
      (rc, h, g3) = Open new_oss ''/a'' 0 0 9000 9 new_file g2;
      (n, _, out) = Read [1, 2, 3, 4] 13 4 h
    in rc = 0 \<and> n = 2 \<and> out = [0, 0, 3, 4]"
proof -
  let ?g = "\<lparr>g_blackholeFS = empty_fs, g_statsManager = empty_manager\<rparr>"
  have "fs_inv (g_blackholeFS ?g)" "can_write (g_blackholeFS ?g) ''/a'' 65"
    "starts_empty (g_blackholeFS ?g) ''/a'' 65"
    by (simp_all add: fs_inv_empty can_write_def starts_empty_def)
  then show ?thesis
    using written_file_reads_back [of ?g "''/a''" 65 4 "[1, 2, 3, 4]" new_oss 420 0 0 new_file
        "[DoWrite 0 10, DoFsync, DoWrite 10 5]" 9000 0 9000 9 new_file 13]
    by (simp add: Let_def case_prod_beta replicate_2)
qed

section \<open>Two handles on one stub\<close>

text \<open>
  \<^verbatim>\<open>Close\<close> asks the stub, not its own flags, whether it is a writer, and
  \<^verbatim>\<open>BlackholeFS::close\<close> clears the flag of whatever stub is at the path.
\<close>

text \<open>
  C30: While a writer has a file open, the close of any reader of it sets the size to 0
  and ends the write mark, so the writer's own close leaves the size 0 however much it
  wrote.
\<close>

theorem reader_close_empties_file:
  assumes "m_stub reader = Some r" and "m_stub writer = Some r"
    and "getStub (g_blackholeFS g) (m_path reader) = Some r"
    and "m_isOpenWrite (cell (g_blackholeFS g) r)" and "out_bytes reader = 0"
  shows "let (_, _, g1) = Close t1 reader g; (_, _, g2) = Close t2 writer g1
    in m_size (cell (g_blackholeFS g2) r) = 0 \<and> st_size (m_stat (cell (g_blackholeFS g2) r)) = 0"
  using assms
  by (cases "getStub (g_blackholeFS g) (m_path writer)")
    (simp_all add: Close_eq close_fs_def)

theorem reader_close_empties_file_witness:
  "let g = \<lparr>g_blackholeFS = empty_fs, g_statsManager = empty_manager\<rparr>;
      (_, w, g1) = Open new_oss ''/a'' 65 420 0 0 new_file g;
      (_, r, g2) = Open new_oss ''/a'' 0 0 1 1 new_file g1;
      (_, w2) = do_op (DoWrite 0 10) w;
      (_, _, g3) = Close 5 r g2; (_, _, g4) = Close 9 w2 g3
    in getStub (g_blackholeFS g4) ''/a'' = Some 0 \<and> m_size (cell (g_blackholeFS g4) 0) = 0"
proof -
  let ?g = "\<lparr>g_blackholeFS = empty_fs, g_statsManager = empty_manager\<rparr>"
  let ?o = "Open new_oss ''/a'' 65 420 0 0 new_file ?g"
  let ?w = "fst (snd ?o)" and ?g1 = "snd (snd ?o)"
  let ?o2 = "Open new_oss ''/a'' 0 0 1 1 new_file ?g1"
  let ?r = "fst (snd ?o2)" and ?g2 = "snd (snd ?o2)"
  let ?w2 = "snd (do_op (DoWrite 0 10) ?w)"
  note defs = Open_def Open_begin_def Open_finish_def open_fs_new open_fs_read open_create_eq
    om_find_def to_int_def Let_def out_bytes_def Write_def
  have "m_stub ?r = Some 0" "m_stub ?w2 = Some 0" "m_path ?r = ''/a''" "m_path ?w2 = ''/a''"
    "getStub (g_blackholeFS ?g2) ''/a'' = Some 0" "m_isOpenWrite (cell (g_blackholeFS ?g2) 0)"
    "out_bytes ?r = 0"
    by (simp_all add: defs)
  then show ?thesis
    using reader_close_empties_file [of ?r 0 ?w2 ?g2 5 9]
    by (simp add: Let_def case_prod_beta Close_eq close_fs_found)
qed

text \<open>
  C32: A file renamed while it is being written keeps its size when the writer closes,
  but its write mark stays, and the first reader that opens and closes it sets its size
  to 0.
\<close>

theorem rename_while_open_empties_file:
  assumes "fs_inv (g_blackholeFS g)" and "uint (m_fd_last (g_blackholeFS g)) + 1 < 2 ^ 31"
    and "m_stub writer = Some r" and "getStub (g_blackholeFS g) (m_path writer) = Some r"
    and "m_isOpenWrite (cell (g_blackholeFS g) r)" and "q \<noteq> m_path writer"
  shows "let (rc1, fs1) = rename_fs (m_path writer) q (g_blackholeFS g);
      (rc2, _, g2) = Close t1 writer (g\<lparr>g_blackholeFS := fs1\<rparr>);
      (rc3, reader, g3) = Open bhOss q 0 0 t2 now f g2;
      (rc4, _, g4) = Close t3 reader g3
    in rc1 = 0 \<and> rc2 = 0 \<and> rc3 = 0 \<and> rc4 = 0 \<and>
      getStub (g_blackholeFS g4) q = Some r \<and>
      m_size (cell (g_blackholeFS g2) r) = out_bytes writer \<and> m_size (cell (g_blackholeFS g4) r) = 0"
proof -
  let ?fs = "g_blackholeFS g" and ?p = "m_path writer"
  define fs1 where "fs1 = snd (rename_fs ?p q ?fs)"
  note ren = rename_fs_ok [OF fs_inv_wf [OF assms(1)] assms(4), of q, folded fs1_def]
  have get: "getStub fs1 q = Some r" "getStub fs1 ?p = None" using ren(2) assms(6) by simp_all
  let ?fs2 = "upd_stub r (set_size (out_bytes writer)) fs1"
  have c1: "Close t1 writer (g\<lparr>g_blackholeFS := fs1\<rparr>) =
    (0, writer\<lparr>m_end := t1, m_stats := close_stats t1 writer, m_stub := None\<rparr>,
     g\<lparr>g_blackholeFS := ?fs2,
       g_statsManager := recordTransfer (close_stats t1 writer) (g_statsManager g)\<rparr>)"
    (is "_ = (_, _, ?g2)")
    using assms(5) get ren(4) by (simp add: Close_eq [OF assms(3)] close_fs_def)
  have fd: "uint (m_fd_last ?fs2) + 1 < 2 ^ 31" using assms(2) ren(6) by simp
  let ?fs3 = "upd_stub r (\<lambda>s. s\<lparr>m_flags := 0, m_mode := 0\<rparr>) (?fs2\<lparr>m_fd_last := m_fd_last ?fs2 + 1\<rparr>)"
  have op: "open_fs q 0 0 ?fs2 = (uint (m_fd_last ?fs2) + 1, ?fs3)"
    using get(1) next_fd(1) [OF fd] by (simp add: open_fs_read)
  let ?g3 = "?g2\<lparr>g_blackholeFS := ?fs3\<rparr>"
  obtain h where h: "Open bhOss q 0 0 t2 now f ?g2 = (0, h, ?g3)"
    "h = Open_finish bhOss q 0 t2 now (f\<lparr>m_path := q\<rparr>) ?g3"
    using Open_ok [of q 0 0 ?g2] op get(1) uint_nonnegative [of "m_fd_last ?fs2"] by simp
  have "getStub (g_blackholeFS ?g3) (m_path (f\<lparr>m_path := q\<rparr>)) = Some r" using get(1) by simp
  note hf = Open_finish_fields [OF this h(2) refl]
  have "rename_fs ?p q ?fs = (0, fs1)" unfolding fs1_def using ren(1) by (metis prod.collapse)
  then show ?thesis
    using c1 h(1) hf(2) ren(4) assms(5) get(1)
    by (simp add: Close_eq [OF hf(1)] hf(8) close_fs_found)
qed

theorem rename_while_open_empties_file_witness:
  "let g = \<lparr>g_blackholeFS = snd (open_fs ''/a'' 65 420 empty_fs), g_statsManager = empty_manager\<rparr>;
      writer = new_file\<lparr>m_stub := Some 0, m_path := ''/a'', m_writeBytes := 10\<rparr>;
      (_, fs1) = rename_fs ''/a'' ''/b'' (g_blackholeFS g);
      (_, _, g2) = Close 9 writer (g\<lparr>g_blackholeFS := fs1\<rparr>);
      (_, reader, g3) = Open new_oss ''/b'' 0 0 20 2 new_file g2;
      (_, _, g4) = Close 30 reader g3
    in m_size (cell (g_blackholeFS g2) 0) = 10 \<and> m_size (cell (g_blackholeFS g4) 0) = 0"
proof -
  let ?fs = "snd (open_fs ''/a'' 65 420 empty_fs)"
  let ?g = "\<lparr>g_blackholeFS = ?fs, g_statsManager = empty_manager\<rparr>"
  let ?w = "new_file\<lparr>m_stub := Some 0, m_path := ''/a'', m_writeBytes := 10\<rparr>"
  have "fs_inv ?fs" by (rule fs_inv_open [OF fs_inv_empty]) simp
  moreover have "m_fd_last ?fs = 1" "getStub ?fs ''/a'' = Some 0" "m_isOpenWrite (cell ?fs 0)"
    by (simp_all add: open_fs_new open_create_eq om_find_def)
  moreover have "m_stub ?w = Some 0" "m_path ?w = ''/a''" "out_bytes ?w = 10"
    by (simp_all add: out_bytes_def new_file_def)
  ultimately show ?thesis
    using rename_while_open_empties_file [of ?g ?w 0 "''/b''" 9 new_oss 20 2 new_file 30]
    by (simp add: Let_def case_prod_beta)
qed

end
