(* ===== verification/Config_Lines.thy ===== *)
theory Config_Lines
  imports Config
begin

text \<open>
  The configuration reader against a line-by-line interpreter that sees the whole file as
  a list of lines of words, and what the directives accept. What the reader relies on
  from XRootD's tokeniser is the predicate \<open>stream_laws\<close>.
\<close>

section \<open>What the tokeniser is documented to do\<close>

text \<open>
  Of a stream: the words not yet taken from the current line, and the lines to come.
  \<^verbatim>\<open>GetWord\<close> gives the next word of the line or null at its end, \<^verbatim>\<open>GetMyFirstWord\<close> moves
  to the next line that has a word and gives that word, or null at the end of the file,
  and \<^verbatim>\<open>GetRest\<close> stays on its line. That \<^verbatim>\<open>GetWord\<close> gives null again after the null at
  the end of a line is never used: each handler stops at the first null.
\<close>

definition stream_laws ::
  "'st stream_ops \<Rightarrow> ('st \<Rightarrow> string list) \<Rightarrow> ('st \<Rightarrow> string list list) \<Rightarrow> bool" where
  "stream_laws ops words lines \<longleftrightarrow>
     (\<forall>st. let (w, st1) = GetWord ops st
       in w = (case words st of [] \<Rightarrow> None | v # _ \<Rightarrow> Some v) \<and>
          words st1 = tl (words st) \<and> lines st1 = lines st) \<and>
     (\<forall>st. let (w, st1) = GetMyFirstWord ops st; ls = dropWhile (\<lambda>l. l = []) (lines st)
       in w = (case ls of [] \<Rightarrow> None | l # _ \<Rightarrow> Some (hd l)) \<and>
          words st1 = (case ls of [] \<Rightarrow> [] | l # _ \<Rightarrow> tl l) \<and> lines st1 = tl ls) \<and>
     (\<forall>n st. lines (snd (snd (GetRest ops n st))) = lines st)"

lemma GetWord_Nil:
  assumes "stream_laws ops words lines" "words st = []"
  obtains st1 where "GetWord ops st = (None, st1)" "words st1 = []" "lines st1 = lines st"
  using assms unfolding stream_laws_def by (cases "GetWord ops st") (auto dest!: spec [of _ st])

lemma GetWord_Cons:
  assumes "stream_laws ops words lines" "words st = w # ws"
  obtains st1 where "GetWord ops st = (Some w, st1)" "words st1 = ws" "lines st1 = lines st"
  using assms unfolding stream_laws_def by (cases "GetWord ops st") (auto dest!: spec [of _ st])

lemma GetWord_any:
  assumes "stream_laws ops words lines" "GetWord ops st = (w, st1)"
  shows "lines st1 = lines st" "w = (case words st of [] \<Rightarrow> None | v # _ \<Rightarrow> Some v)"
    "words st1 = tl (words st)"
  using assms unfolding stream_laws_def by (auto dest!: spec [of _ st])

lemma GetMyFirstWord_laws:
  assumes "stream_laws ops words lines" "GetMyFirstWord ops st = (w, st1)"
    and "ls = dropWhile (\<lambda>l. l = []) (lines st)"
  shows "w = (case ls of [] \<Rightarrow> None | l # _ \<Rightarrow> Some (hd l))"
    "words st1 = (case ls of [] \<Rightarrow> [] | l # _ \<Rightarrow> tl l)" "lines st1 = tl ls"
proof -
  have "let (w, st1) = GetMyFirstWord ops st; ls = dropWhile (\<lambda>l. l = []) (lines st)
       in w = (case ls of [] \<Rightarrow> None | l # _ \<Rightarrow> Some (hd l)) \<and>
          words st1 = (case ls of [] \<Rightarrow> [] | l # _ \<Rightarrow> tl l) \<and> lines st1 = tl ls"
    using assms(1) unfolding stream_laws_def by blast
  then show "w = (case ls of [] \<Rightarrow> None | l # _ \<Rightarrow> Some (hd l))"
    "words st1 = (case ls of [] \<Rightarrow> [] | l # _ \<Rightarrow> tl l)" "lines st1 = tl ls"
    by (simp_all add: assms(2,3) Let_def)
qed

section \<open>The interpreter\<close>

fun line_options :: "string list \<Rightarrow> u64 \<Rightarrow> string \<Rightarrow> (u64 \<times> string) option" where
  "line_options [] count readtype = Some (count, readtype)"
| "line_options (t # ts) count readtype =
     (if starts_with ''count='' t then
        (case strtoull (drop 6 t) of (value, used, erange) \<Rightarrow>
         if used = 0 \<or> used \<noteq> length (drop 6 t) \<or> erange \<or> value = 0 then None
         else line_options ts value readtype)
      else if starts_with ''type='' t then
        (if drop 5 t \<noteq> ''zeros'' \<and> drop 5 t \<noteq> ''random'' then None
         else line_options ts count (drop 5 t))
      else line_options ts count readtype)"

fun line_seedfile :: "string list \<Rightarrow> bhfs \<Rightarrow> (bool \<times> bhfs) option" where
  "line_seedfile (path # sizeval # opts) fs =
     (case parse_size sizeval of
        None \<Rightarrow> Some (False, fs)
      | Some sz \<Rightarrow>
      (case line_options opts 1 ''zeros'' of
        None \<Rightarrow> Some (False, fs)
      | Some (count, readtype) \<Rightarrow>
          if 1 < count \<and> CHR ''%'' \<notin> set path then Some (False, fs)
          else if count = 1 then Some (True, seed path sz readtype fs)
          else seed_numbered (unat count) 0 path sz readtype fs))"
| "line_seedfile _ fs = Some (False, fs)"

fun line_directive ::
  "directive \<Rightarrow> string list \<Rightarrow> oss \<Rightarrow> bhfs \<Rightarrow> (bool \<times> oss \<times> bhfs) option" where
  "line_directive Writespeed ws this fs =
     (case ws of
        [] \<Rightarrow> Some (False, this, fs)
      | v # _ \<Rightarrow>
          let (value, used, erange) = strtoull v in
          if used = length v \<and> used \<noteq> 0 \<and> \<not> erange \<and> value < INT_MAX
          then Some (True, this\<lparr>m_writespeedMiBs := value\<rparr>, fs) else Some (False, this, fs))"
| "line_directive Defaultspath ws this fs =
     (case ws of
        [] \<Rightarrow> Some (False, this, fs)
      | v # _ \<Rightarrow> Some (True, this\<lparr>m_defaultspath := v\<rparr>, create_defaults v fs))"
| "line_directive Readtype ws this fs =
     (if ws \<noteq> [] \<and> hd ws = ''zeros'' then Some (True, this\<lparr>m_readtype_oss := ''zeros''\<rparr>, fs)
      else Some (False, this, fs))"
| "line_directive Seedfile ws this fs =
     map_option (\<lambda>(ok, fs1). (ok, this, fs1)) (line_seedfile ws fs)"

fun configure_lines ::
  "string list list \<Rightarrow> int \<Rightarrow> oss \<Rightarrow> bhfs \<Rightarrow> (int \<times> oss \<times> bhfs) option" where
  "configure_lines [] NoGo this fs = Some (NoGo, this, fs)"
| "configure_lines ([] # ls) NoGo this fs = configure_lines ls NoGo this fs"
| "configure_lines ((v # ws) # ls) NoGo this fs =
     (case map_of k_directives v of
        None \<Rightarrow> configure_lines ls NoGo this fs
      | Some d \<Rightarrow>
          (case line_directive d ws this fs of
             None \<Rightarrow> None
           | Some (ok, this1, fs1) \<Rightarrow> configure_lines ls (if ok then NoGo else 1) this1 fs1))"

section \<open>The reader follows the interpreter\<close>

lemma seedfile_options_lines:
  assumes "stream_laws ops words lines"
  shows "\<exists>st1. seedfile_options ops st count readtype =
      Some (line_options (words st) count readtype, st1) \<and> lines st1 = lines st"
proof (induction "words st" arbitrary: st count readtype)
  case Nil
  then obtain st1 where "GetWord ops st = (None, st1)" "lines st1 = lines st"
    using GetWord_Nil [OF assms, of st] by metis
  then show ?case using Nil by (subst seedfile_options.simps) simp
next
  case (Cons t ts)
  obtain st1 where st1: "GetWord ops st = (Some t, st1)" "words st1 = ts" "lines st1 = lines st"
    by (rule GetWord_Cons [OF assms Cons.hyps(2) [symmetric]])
  note ih = Cons.hyps(1) [OF st1(2) [symmetric], unfolded st1(2,3)]
  have ws: "words st = t # ts" using Cons.hyps(2) by simp
  show ?case
    using ih st1(3) unfolding ws
    by (subst seedfile_options.simps) (auto simp: st1(1) split: prod.splits)
qed

lemma cfg_seedfile_lines:
  assumes "stream_laws ops words lines"
  shows "\<exists>st1. cfg_seedfile ops st fs =
      map_option (\<lambda>(ok, fs1). (ok, fs1, st1)) (line_seedfile (words st) fs) \<and> lines st1 = lines st"
proof (cases "words st")
  case Nil
  then show ?thesis using GetWord_Nil [OF assms Nil] by (fastforce simp: cfg_seedfile_def)
next
  case (Cons path ws)
  obtain st1 where st1: "GetWord ops st = (Some path, st1)" "words st1 = ws" "lines st1 = lines st"
    by (rule GetWord_Cons [OF assms Cons])
  show ?thesis
  proof (cases ws)
    case Nil
    then show ?thesis using GetWord_Nil [OF assms, of st1] st1 Cons
      by (fastforce simp: cfg_seedfile_def)
  next
    case (Cons sizeval opts)
    obtain st2 where st2: "GetWord ops st1 = (Some sizeval, st2)" "words st2 = opts"
      "lines st2 = lines st"
      using GetWord_Cons [OF assms, of st1 sizeval opts] st1 Cons by metis
    obtain st3 where st3: "seedfile_options ops st2 1 ''zeros'' =
        Some (line_options opts 1 ''zeros'', st3)" "lines st3 = lines st"
      using seedfile_options_lines [OF assms, of st2 1 "''zeros''"] st2 by auto
    show ?thesis
    proof (cases "parse_size sizeval")
      case None
      then show ?thesis using st1 st2 \<open>words st = path # ws\<close> Cons
        by (auto simp: cfg_seedfile_def)
    next
      case (Some sz)
      then show ?thesis using st1 st2 st3 \<open>words st = path # ws\<close> Cons
        by (auto simp: cfg_seedfile_def split: option.splits intro!: exI [of _ st3])
    qed
  qed
qed

lemma parse_directive_lines:
  assumes "stream_laws ops words lines"
  shows "\<exists>st1. parse_directive ops d st this fs =
      map_option (\<lambda>(ok, this1, fs1). (ok, this1, fs1, st1)) (line_directive d (words st) this fs) \<and>
      lines st1 = lines st"
proof -
  obtain w st1 where st1: "GetWord ops st = (w, st1)" by (metis surj_pair)
  note g = GetWord_any [OF assms st1]
  show ?thesis
  proof (cases d)
    case Writespeed
    then show ?thesis
      using g by (cases "words st")
        (auto simp: cfg_writespeedMiBps_def st1 Let_def not_le split: prod.splits)
  next
    case Defaultspath
    have "lines (snd (snd (GetRest ops 1040 st1))) = lines st"
      using assms g(1) by (simp add: stream_laws_def)
    then show ?thesis
      using g Defaultspath by (cases "words st") (auto simp: cfg_defaultspath_def st1 Let_def
          split: prod.splits)
  next
    case Readtype
    then show ?thesis
      using g by (cases "words st") (auto simp: cfg_readtype_def st1 Let_def)
  next
    case Seedfile
    obtain st2 where "cfg_seedfile ops st fs =
      map_option (\<lambda>(ok, fs1). (ok, fs1, st2)) (line_seedfile (words st) fs)" "lines st2 = lines st"
      using cfg_seedfile_lines [OF assms, of st fs] by blast
    then show ?thesis
      using Seedfile by (auto simp: option.map_comp comp_def case_prod_beta)
  qed
qed

lemma configure_lines_skip: "configure_lines (dropWhile (\<lambda>l. l = []) ls) n this fs =
    configure_lines ls n this fs"
  by (induction ls) auto

lemma configure_loop_lines:
  assumes "stream_laws ops words lines"
  shows "\<exists>st1. configure_loop ops st n this fs =
    map_option (\<lambda>(n1, this1, fs1). (n1, this1, fs1, st1)) (configure_lines (lines st) n this fs)"
proof (induction "length (lines st)" arbitrary: st n this fs rule: less_induct)
  case less
  let ?ls = "dropWhile (\<lambda>l. l = []) (lines st)"
  obtain w st1 where st1: "GetMyFirstWord ops st = (w, st1)" by (metis surj_pair)
  note g = GetMyFirstWord_laws [OF assms st1 refl]
  have skip: "configure_lines (lines st) n this fs = configure_lines ?ls n this fs"
    by (rule configure_lines_skip [symmetric])
  show ?case
  proof (cases ?ls)
    case Nil
    then have "w = None" using g(1) by (simp only: list.case)
    then show ?thesis unfolding skip Nil by (subst configure_loop.simps) (simp add: st1)
  next
    case (Cons l ls)
    have "l \<noteq> []" using hd_dropWhile [of "\<lambda>l. l = []" "lines st"] Cons by auto
    then obtain v ws where l: "l = v # ws" by (cases l) auto
    have g: "w = Some v" "words st1 = ws" "lines st1 = ls" using g Cons l by simp_all
    have shorter: "length ls < length (lines st)"
      using length_dropWhile_le [of "\<lambda>l. l = []" "lines st"] Cons by simp
    show ?thesis
    proof (cases "map_of k_directives v")
      case None
      then show ?thesis
        using less.hyps [of st1 n this fs] shorter g Cons l unfolding skip
        by (subst configure_loop.simps) (simp add: st1)
    next
      case (Some d)
      obtain st2 where st2: "parse_directive ops d st1 this fs =
          map_option (\<lambda>(ok, this1, fs1). (ok, this1, fs1, st2)) (line_directive d ws this fs)"
        "lines st2 = ls"
        using parse_directive_lines [OF assms, of d st1 this fs] g by auto
      show ?thesis
      proof (cases "line_directive d ws this fs")
        case None
        then show ?thesis
          using st2 Some g Cons l unfolding skip
          by (subst configure_loop.simps) (simp add: st1)
      next
        case (Some res)
        obtain ok this1 fs1 where res: "res = (ok, this1, fs1)" by (metis prod_cases3)
        show ?thesis
          using less.hyps [of st2 "if ok then n else 1" this1 fs1] shorter st2 Some res
            \<open>map_of k_directives v = Some d\<close> g Cons l unfolding skip
          by (subst configure_loop.simps) (simp add: st1)
      qed
    qed
  qed
qed

lemma Configure_lines:
  assumes "stream_laws ops words lines" and "\<forall>st. LastError ops st = 0"
    and "fn \<noteq> ''''" and "Attach ops fn = Inr st"
  shows "Configure ops (Some fn) this fs = configure_lines (lines st) 0 this fs"
proof -
  obtain st1 where "configure_loop ops st 0 this fs =
    map_option (\<lambda>(n1, this1, fs1). (n1, this1, fs1, st1)) (configure_lines (lines st) 0 this fs)"
    using configure_loop_lines [OF assms(1)] by blast
  then show ?thesis
    using assms(2-4)
    by (cases "configure_lines (lines st) 0 this fs") (auto simp: Configure_def)
qed

text \<open>
  C12: Reading a configuration file word by word from XRootD's tokeniser does what a
  line-by-line interpreter of the whole file does: unknown lines are skipped, a bad
  directive sets the error result and reading goes on, and the reader always comes to an
  end unless a path format is one C leaves undefined.
\<close>

theorem configure_reads_lines:
  assumes "stream_laws ops words lines" and "\<forall>st. LastError ops st = 0"
    and "fn \<noteq> ''''" and "Attach ops fn = Inr st"
  shows "Configure ops (Some fn) this fs = configure_lines (lines st) 0 this fs"
  by (rule Configure_lines [OF assms])

text \<open>A tokeniser that keeps the laws: the state is the words and the lines themselves.\<close>

definition list_stream :: "string list list \<Rightarrow> (string list \<times> string list list) stream_ops" where
  "list_stream ls =
     \<lparr>Attach = (\<lambda>_. Inr ([], ls)),
      GetMyFirstWord = (\<lambda>(ws, ls). case dropWhile (\<lambda>l. l = []) ls of
          [] \<Rightarrow> (None, ([], []))
        | l # ls' \<Rightarrow> (Some (hd l), (tl l, ls'))),
      GetWord = (\<lambda>(ws, ls). (case ws of [] \<Rightarrow> None | w # _ \<Rightarrow> Some w, (tl ws, ls))),
      GetRest = (\<lambda>n (ws, ls). (True, concat ws, ([], ls))),
      LastError = (\<lambda>_. 0), Emsg = (\<lambda>e. e)\<rparr>"

lemma list_stream_laws: "stream_laws (list_stream ls) fst snd"
  by (auto simp: stream_laws_def list_stream_def Let_def case_prod_beta
      simp del: dropWhile_eq_Nil_conv split: list.split)

theorem configure_reads_lines_witness:
  "Configure (list_stream [[''xrd.port'', ''1094''], [], [''blackhole.writespeedMiBps'', ''7'']])
     (Some ''/etc/x'') new_oss empty_fs = Some (0, new_oss\<lparr>m_writespeedMiBs := 7\<rparr>, empty_fs)"
proof -
  have "strtoull ''7'' = (7, 1, False)"
    using strtoull_digits [of "''7''" "[]"] by (simp add: is_digit_def digit_val_def)
  then show ?thesis
    by (subst configure_reads_lines [OF list_stream_laws, of _ _ "([],
        [[''xrd.port'', ''1094''], [], [''blackhole.writespeedMiBps'', ''7'']])"])
      (simp_all add: list_stream_def k_directives_def)
qed

section \<open>What the directives accept\<close>

text \<open>
  The write speed directive accepts a decimal number exactly when it is below 2^31
  - 1 and stores it; otherwise it reports an error and keeps the old speed.
\<close>

lemma writespeed_range:
  assumes "stream_laws ops words lines" and "words st = show_nat n # ws"
  shows "let (ok, this1, st1) = cfg_writespeedMiBps ops st this
    in ok = (n < 2147483647) \<and> words st1 = ws \<and>
       this1 = (if n < 2147483647 then this\<lparr>m_writespeedMiBs := of_nat n\<rparr> else this)"
proof -
  obtain st1 where st1: "GetWord ops st = (Some (show_nat n), st1)" "words st1 = ws"
    by (rule GetWord_Cons [OF assms])
  have "strtoull (show_nat n) = (if 2 ^ 64 \<le> n then (- 1, length (show_nat n), True)
      else (of_nat n, length (show_nat n), False))"
    using strtoull_digits [of "show_nat n" "[]"] show_nat_digits by simp
  moreover have "INT_MAX \<le> (of_nat n :: u64) \<longleftrightarrow> 2147483647 \<le> n" if "n < 2 ^ 64"
    using that by (simp add: word_le_nat_alt unat_of_nat take_bit_nat_eq_self)
  ultimately show ?thesis
    by (cases "2 ^ 64 \<le> n") (auto simp: cfg_writespeedMiBps_def st1 not_le)
qed

text \<open>A configuration never leaves the range in which the throttle is exact.\<close>

lemma line_directive_range:
  assumes "line_directive d ws this fs = Some (ok, this1, fs1)"
    and "uint (m_writespeedMiBs this) < 2147483647" "m_readtype_oss this = ''zeros''"
  shows "uint (m_writespeedMiBs this1) < 2147483647 \<and> m_readtype_oss this1 = ''zeros''"
  using assms
  by (cases d)
    (auto simp: word_less_def split: list.splits prod.splits if_splits)

lemma configure_lines_range:
  assumes "configure_lines ls NoGo this fs = Some (rc, this1, fs1)"
    and "uint (m_writespeedMiBs this) < 2147483647" and "m_readtype_oss this = ''zeros''"
    and "NoGo \<in> {0, 1}"
  shows "uint (m_writespeedMiBs this1) < 2147483647 \<and> m_readtype_oss this1 = ''zeros'' \<and>
    rc \<in> {0, 1}"
  using assms
proof (induction ls NoGo this fs rule: configure_lines.induct)
  case (3 v ws ls n this fs)
  show ?case
  proof (cases "map_of k_directives v")
    case None
    then show ?thesis using 3 by simp
  next
    case (Some d)
    then obtain ok this2 fs2 where d: "line_directive d ws this fs = Some (ok, this2, fs2)"
      using "3.prems"(1) by (auto split: option.splits)
    have "uint (m_writespeedMiBs this2) < 2147483647" "m_readtype_oss this2 = ''zeros''"
      using line_directive_range [OF d] "3.prems" by simp_all
    then show ?thesis
      using "3.IH"(2) [OF Some d refl refl] "3.prems" Some d by (cases ok) auto
  qed
qed simp_all

text \<open>The letters of a size, and what they multiply by.\<close>

definition size_units :: "(char \<times> nat) list" where
  "size_units =
     [(CHR ''k'', 2 ^ 10), (CHR ''K'', 2 ^ 10), (CHR ''m'', 2 ^ 20), (CHR ''M'', 2 ^ 20),
      (CHR ''g'', 2 ^ 30), (CHR ''G'', 2 ^ 30), (CHR ''t'', 2 ^ 40), (CHR ''T'', 2 ^ 40)]"

lemma parse_size_suffix:
  assumes "n < 2 ^ 64" "(c, unit) \<in> set size_units"
  shows "parse_size (show_nat n @ c # junk) = Some (of_nat (n * unit))"
proof -
  have nd: "\<not> is_digit c" using assms(2) by (auto simp: size_units_def is_digit_def)
  have s: "strtoull (show_nat n @ c # junk) = (of_nat n, length (show_nat n), False)"
    using strtoull_digits [of "show_nat n" "c # junk"] show_nat_digits nd assms(1) by simp
  show ?thesis
    using assms(2) by (auto simp: parse_size_def s size_units_def lower_def char_of_eq_iff)
qed

text \<open>
  C28: A decimal size below 2^64 is read back as itself; followed by k, m, g or t in
  either case it is multiplied by the power of 1024, exactly when the product fits 64
  bits, and what follows the letter is ignored.
\<close>

theorem size_with_suffix:
  assumes "n < 2 ^ 64" and "(c, unit) \<in> set size_units"
  shows "parse_size (show_nat n) = Some (of_nat n) \<and>
    parse_size (show_nat n @ c # junk) = Some (of_nat (n * unit)) \<and>
    (n * unit < 2 ^ 64 \<longrightarrow> unat (of_nat (n * unit) :: u64) = n * unit)"
proof -
  have "parse_size (show_nat n @ c # junk) = Some (of_nat (n * unit))"
    by (rule parse_size_suffix [OF assms])
  moreover have "parse_size (show_nat n) = Some (of_nat n)"
    using assms(1) by (simp add: parse_size_def strtoull_show_nat)
  moreover have "n * unit < 2 ^ 64 \<longrightarrow> unat (of_nat (n * unit) :: u64) = n * unit"
    by (simp add: unat_of_nat take_bit_nat_eq_self del: of_nat_mult)
  ultimately show ?thesis by blast
qed

theorem size_with_suffix_witness:
  "parse_size ''512M'' = Some 536870912 \<and> parse_size ''1KB'' = Some 1024"
proof -
  have "show_nat 512 = ''512''" "show_nat 1 = ''1''"
    by (simp_all add: show_nat.simps [of "_ :: nat"] digit_def char_of_eq_iff)
  then show ?thesis
    using size_with_suffix [of 512 "CHR ''M''" "2 ^ 20" "[]"]
      size_with_suffix [of 1 "CHR ''K''" "2 ^ 10" "''B''"]
    by (simp add: size_units_def)
qed

text \<open>Nothing checks the multiplication or the sign, and a tail is ignored.\<close>

text \<open>
  The size parser checks neither the product nor the sign: 16777216T is size 0, -1
  is 2^64 - 1, and 1Kelvin is 1024.
\<close>

lemma size_not_checked:
  "parse_size ''16777216T'' = Some 0 \<and> parse_size ''-1'' = Some (- 1) \<and>
   parse_size ''1Kelvin'' = Some 1024"
proof -
  have s: "show_nat 16777216 = ''16777216''" "show_nat 1 = ''1''"
    by (simp_all add: show_nat.simps [of "_ :: nat"] digit_def char_of_eq_iff)
  have "strtoull (show_nat 16777216 @ ''T'') = (16777216, length (show_nat 16777216), False)"
    "strtoull (show_nat 1 @ ''Kelvin'') = (1, length (show_nat 1), False)"
    using strtoull_digits [of "show_nat 16777216" "''T''"]
      strtoull_digits [of "show_nat 1" "''Kelvin''"] show_nat_digits
    by (auto simp: is_digit_def)
  moreover have "strtoull ''-1'' = (- 1, 2, False)"
    by (simp add: strtoull_def is_space_def is_digit_def digit_val_def Let_def)
  ultimately show ?thesis unfolding s
    by (simp add: parse_size_def lower_def char_of_eq_iff)
qed

section \<open>Numbered files\<close>

text \<open>What seeding a list of paths needs and leaves.\<close>

definition refs_ok :: "bhfs \<Rightarrow> bool" where
  "refs_ok fs \<longleftrightarrow> files_wf fs \<and> (\<forall>p r. getStub fs p = Some r \<longrightarrow> r < next_ref fs)"

lemma fs_inv_refs_ok: "fs_inv fs \<Longrightarrow> refs_ok fs"
  by (auto simp: refs_ok_def fs_inv_wf dest: fs_inv_ref)

definition seeded :: "bhfs \<Rightarrow> path \<Rightarrow> u64 \<Rightarrow> string \<Rightarrow> bool" where
  "seeded fs p sz readtype \<longleftrightarrow>
     (\<exists>r. getStub fs p = Some r \<and> m_size (cell fs r) = sz \<and> m_readtype (cell fs r) = readtype)"

lemma seed_getStub:
  "files_wf fs \<Longrightarrow> getStub (seed p sz rt fs) =
     (if getStub fs p = None then (getStub fs)(p \<mapsto> next_ref fs) else getStub fs)"
  by (simp add: seed_eq files_wf_def om.find_ins)

lemma seed_refs_ok: "refs_ok fs \<Longrightarrow> refs_ok (seed p sz rt fs)"
  unfolding refs_ok_def
  by (auto simp: seed_getStub less_Suc_eq split: if_splits)
    (auto simp: seed_eq files_wf_def om_wf_insert less_Suc_eq)

lemma seed_keeps:
  assumes "refs_ok fs" "getStub fs q = Some r"
  shows "getStub (seed p sz rt fs) q = Some r \<and> cell (seed p sz rt fs) r = cell fs r"
  using assms by (auto simp: refs_ok_def seed_getStub) (auto simp: seed_eq)

lemma seed_new:
  assumes "refs_ok fs" "getStub fs p = None"
  shows "seeded (seed p sz rt fs) p sz rt"
  using assms by (auto simp: refs_ok_def seeded_def seed_getStub) (auto simp: seed_eq)

lemma seed_all:
  assumes "refs_ok fs" and "fs1 = fold (\<lambda>p. seed p sz rt) ps fs"
  shows "(\<forall>q r. getStub fs q = Some r \<longrightarrow> getStub fs1 q = Some r \<and> cell fs1 r = cell fs r) \<and>
    (\<forall>q. getStub fs q = None \<longrightarrow>
      (if q \<in> set ps then seeded fs1 q sz rt else getStub fs1 q = None))"
  using assms
proof (induction ps arbitrary: fs)
  case (Cons p ps)
  let ?g = "seed p sz rt fs"
  have g: "fs1 = fold (\<lambda>p. seed p sz rt) ps ?g" using Cons.prems(2) by simp
  note ih = Cons.IH [OF seed_refs_ok [OF Cons.prems(1)] g]
  have old: "getStub fs1 q = Some r \<and> cell fs1 r = cell fs r" if "getStub fs q = Some r" for q r
    using seed_keeps [OF Cons.prems(1) that, of p sz rt] ih by metis
  have new: "seeded fs1 p sz rt" if "getStub fs p = None"
    using ih seed_new [OF Cons.prems(1) that, of sz rt] by (auto simp: seeded_def)
  have other: "getStub ?g q = None" if "getStub fs q = None" "q \<noteq> p" for q
    using Cons.prems(1) that by (simp add: refs_ok_def seed_getStub)
  show ?case
  proof (intro conjI allI impI)
    fix q assume q: "getStub fs q = None"
    show "if q \<in> set (p # ps) then seeded fs1 q sz rt else getStub fs1 q = None"
    proof (cases "q = p")
      case True
      then show ?thesis using new q by simp
    next
      case False
      then show ?thesis using ih other [OF q] by simp
    qed
  qed (use old in blast)+
qed simp

lemma seed_numbered_fold:
  assumes "\<And>j. i \<le> j \<Longrightarrow> j < i + k \<Longrightarrow>
    snprintf_int fmt (of_nat j) = Some (P j) \<and> length (P j) < 4096 \<and> c_str (P j) = P j"
  shows "seed_numbered k i fmt sz rt fs =
    Some (True, fold (\<lambda>p. seed p sz rt) (map P [i ..< i + k]) fs)"
  using assms
proof (induction k arbitrary: i fs)
  case (Suc k)
  have "snprintf_int fmt (of_nat i) = Some (P i)" "length (P i) < 4096" "c_str (P i) = P i"
    using Suc.prems [of i] by simp_all
  moreover have "seed_numbered k (Suc i) fmt sz rt (seed (P i) sz rt fs) =
    Some (True, fold (\<lambda>p. seed p sz rt) (map P [Suc i ..< Suc i + k]) (seed (P i) sz rt fs))"
    by (rule Suc.IH) (use Suc.prems in auto)
  moreover have "[i ..< i + Suc k] = i # [Suc i ..< Suc i + k]" by (simp add: upt_conv_Cons del: upt_Suc)
  ultimately show ?case by (simp del: upt_Suc)
qed simp

lemma length_show_nat: "n < 10 ^ k \<Longrightarrow> 0 < k \<Longrightarrow> length (show_nat n) \<le> k"
proof (induction n arbitrary: k rule: show_nat.induct)
  case (1 n)
  show ?case
  proof (cases "n < 10")
    case True
    then show ?thesis using 1(3) by (simp add: show_nat.simps [of n])
  next
    case False
    then have k: "1 < k" using 1(2,3) by (cases k; cases "k - 1"; simp)
    then have "10 ^ k = 10 * (10 :: nat) ^ (k - 1)" by (cases k) simp_all
    then have "n div 10 < 10 ^ (k - 1)" using 1(2) by simp
    then show ?thesis using 1(1) [OF False, of "k - 1"] k False by (simp add: show_nat.simps [of n])
  qed
qed

lemma c_str_id: "CHR 0x00 \<notin> set s \<Longrightarrow> c_str s = s"
  by (simp add: c_str_def takeWhile_eq_all_conv) metis

lemma zero_padded_no_nul: "CHR 0x00 \<notin> set (zero_padded w n)"
  using show_nat_digits [of n] by (auto simp: zero_padded_def is_digit_def)

lemma length_zero_padded:
  assumes "n < 2 ^ 31"
  shows "length (zero_padded w n) \<le> max w 10"
proof -
  have "n < 10 ^ 10" using assms by simp
  then show ?thesis using length_show_nat [of n 10] by (simp add: zero_padded_def)
qed

text \<open>
  C25: A seedfile directive with count=N and a path with one %0<width>d makes N
  different files, the i-th at the path with i padded with zeros, each of the given size
  and filled with zeros; files that were there keep their stub and their contents, and
  no other path appears.
\<close>

theorem seedfile_numbered_files:
  assumes "stream_laws ops words lines"
    and "words st = [a @ ''%0'' @ w @ ''d'' @ b, sizeval, ''count='' @ show_nat N]"
    and "parse_size sizeval = Some sz" and "1 < N" and "N \<le> 2 ^ 31"
    and "set a \<inter> {CHR ''%'', CHR 0x00} = {}" and "set b \<inter> {CHR ''%'', CHR 0x00} = {}"
    and "\<forall>c \<in> set w. is_digit c" and "w = [] \<or> hd w \<noteq> CHR ''0''"
    and "length a + max (dec_val 0 w) 10 + length b < 4096" and "refs_ok fs"
  shows "\<exists>fs1 st1. cfg_seedfile ops st fs = Some (True, fs1, st1) \<and>
    (let names = map (\<lambda>i. a @ zero_padded (dec_val 0 w) i @ b) [0 ..< N] in
      distinct names \<and>
      (\<forall>q r. getStub fs q = Some r \<longrightarrow> getStub fs1 q = Some r \<and> cell fs1 r = cell fs r) \<and>
      (\<forall>q. getStub fs q = None \<longrightarrow>
        (if q \<in> set names then seeded fs1 q sz ''zeros'' else getStub fs1 q = None)))"
proof -
  let ?P = "\<lambda>i. a @ zero_padded (dec_val 0 w) i @ b" and ?fmt = "a @ ''%0'' @ w @ ''d'' @ b"
  let ?fs1 = "fold (\<lambda>p. seed p sz ''zeros'') (map ?P [0 ..< N]) fs"
  have name: "snprintf_int ?fmt (of_nat j) = Some (?P j) \<and> length (?P j) < 4096 \<and> c_str (?P j) = ?P j"
    if "j < N" for j
  proof -
    have j: "j < 2 ^ 31" using that assms(5) by linarith
    have len: "length (?P j) < 4096"
      using length_zero_padded [OF j, of "dec_val 0 w"] assms(10) by simp
    have "format_int ?fmt False (of_nat j) = Some (?P j)"
    proof -
      have "CHR ''%'' \<notin> set a" "CHR ''%'' \<notin> set b" using assms(6,7) by auto
      then show ?thesis
        using format_plain [of a "''%0'' @ w @ ''d'' @ b" False "of_nat j"]
          format_zero_padded [OF _ j assms(8,9), of b] by simp
    qed
    then have "snprintf_int ?fmt (of_nat j) = Some (?P j)"
      using len by (simp add: snprintf_int_def)
    moreover have "c_str (?P j) = ?P j"
      using assms(6,7) zero_padded_no_nul [of "dec_val 0 w" j] by (intro c_str_id) auto
    ultimately show ?thesis using len by blast
  qed
  have run: "seed_numbered N 0 ?fmt sz ''zeros'' fs = Some (True, ?fs1)"
    using seed_numbered_fold [of 0 N ?fmt ?P sz "''zeros''" fs] name by simp
  have N: "N < 2 ^ 64" using assms(5) by simp
  then have u: "unat (of_nat N :: u64) = N" by (simp add: unat_of_nat take_bit_nat_eq_self)
  have cnt: "unat (of_nat N :: u64) = N" "(of_nat N :: u64) \<noteq> 0" "1 < (of_nat N :: u64)"
    "(of_nat N :: u64) \<noteq> 1"
    using assms(4) u by (auto simp: word_less_nat_alt dest: arg_cong [where f = unat])
  have "line_options [''count='' @ show_nat N] 1 ''zeros'' = Some (of_nat N, ''zeros'')"
    using strtoull_show_nat [OF N] cnt(2) by (simp add: starts_with_def)
  then have line: "line_seedfile (words st) fs = Some (True, ?fs1)"
    using run cnt by (simp add: assms(2,3))
  obtain st1 where c: "cfg_seedfile ops st fs = Some (True, ?fs1, st1)"
    using cfg_seedfile_lines [OF assms(1), of st fs] line by auto
  have "distinct (map ?P [0 ..< N])"
    by (simp add: distinct_map inj_on_def zero_padded_inject)
  then show ?thesis
    using c seed_all [OF assms(11) refl, of sz "''zeros''" "map ?P [0 ..< N]"]
    unfolding Let_def by blast
qed

theorem seedfile_numbered_files_witness:
  "\<exists>fs1 st1. cfg_seedfile (list_stream []) ([''/f_%04d'', ''512'', ''count=3''], []) empty_fs
       = Some (True, fs1, st1)
     \<and> seeded fs1 ''/f_0002'' 512 ''zeros'' \<and> getStub fs1 ''/f_0003'' = None"
proof -
  have s: "show_nat 3 = ''3''" "show_nat 2 = ''2''" "show_nat 0 = ''0''" "show_nat 1 = ''1''"
    "show_nat 512 = ''512''"
    by (simp_all add: show_nat.simps [of "_ :: nat"] digit_def char_of_eq_iff)
  have sz: "parse_size ''512'' = Some 512"
    using strtoull_show_nat [of 512] unfolding s by (simp add: parse_size_def)
  have w: "dec_val 0 ''4'' = 4" "is_digit (CHR ''4'')"
    by (simp_all add: digit_val_def is_digit_def)
  have z: "zero_padded 4 0 = ''0000''" "zero_padded 4 1 = ''0001''" "zero_padded 4 2 = ''0002''"
    by (simp_all add: zero_padded_def s s [unfolded One_nat_def] numeral_3_eq_3)
  let ?st = "([''/f_%04d'', ''512'', ''count=3''], [])"
    and ?P = "\<lambda>i. ''/f_'' @ zero_padded (dec_val 0 ''4'') i @ ''''"
  have st: "fst ?st = [''/f_'' @ ''%0'' @ ''4'' @ ''d'' @ '''', ''512'', ''count='' @ show_nat 3]"
    by (simp add: s)
  have "\<exists>fs1 st1. cfg_seedfile (list_stream []) ?st empty_fs = Some (True, fs1, st1) \<and>
    (let names = map ?P [0 ..< 3] in
      distinct names \<and>
      (\<forall>q r. getStub empty_fs q = Some r \<longrightarrow> getStub fs1 q = Some r \<and> cell fs1 r = cell empty_fs r) \<and>
      (\<forall>q. getStub empty_fs q = None \<longrightarrow>
        (if q \<in> set names then seeded fs1 q 512 ''zeros'' else getStub fs1 q = None)))"
  proof (rule seedfile_numbered_files [of "list_stream []" fst snd ?st "''/f_''" "''4''" "''''"
        "''512''" 3 512 empty_fs])
    show "stream_laws (list_stream []) fst snd" by (rule list_stream_laws)
    show "fst ?st = [''/f_'' @ ''%0'' @ ''4'' @ ''d'' @ '''', ''512'', ''count='' @ show_nat 3]"
      by (rule st)
  qed (simp_all add: sz w digit_val_def fs_inv_refs_ok [OF fs_inv_empty])
  then obtain fs1 st1 where c: "cfg_seedfile (list_stream []) ?st empty_fs = Some (True, fs1, st1)"
    and f: "\<And>q. getStub empty_fs q = None \<Longrightarrow>
      (if q \<in> set (map ?P [0 ..< 3]) then seeded fs1 q 512 ''zeros'' else getStub fs1 q = None)"
    unfolding Let_def by blast
  have names: "set (map ?P [0 ..< 3]) = {''/f_0000'', ''/f_0001'', ''/f_0002''}"
    unfolding w(1) by (simp add: upt_rec z z [unfolded One_nat_def] numeral_2_eq_2 [symmetric])
  show ?thesis
    using c f [of "''/f_0002''", unfolded names] f [of "''/f_0003''", unfolded names] by simp
qed

end
