(* ===== verification/OssDir.thy ===== *)
theory OssDir
  imports BlackholeFS
begin

text \<open>
  \<^verbatim>\<open>XrdBlackholeOssDir.hh\<close> and \<^verbatim>\<open>XrdBlackholeOssDir.cc\<close>: an open directory. A caller's
  buffer is the list of its characters, returned as the call leaves it, and \<open>cstr\<close> is
  the C string in it.
\<close>

section \<open>The handle\<close>

record oss_dir =
  m_prefix :: path
  m_entries :: "string list"
  m_pos :: nat

definition new_dir :: oss_dir where
  "new_dir = \<lparr>m_prefix = '''', m_entries = [], m_pos = 0\<rparr>"

abbreviation NUL :: char where "NUL \<equiv> CHR 0x00"

definition cstr :: "string \<Rightarrow> string" where
  "cstr buff = takeWhile (\<lambda>c. c \<noteq> NUL) buff"

definition Opendir :: "path \<Rightarrow> bhfs \<Rightarrow> oss_dir \<Rightarrow> int \<times> oss_dir" where
  "Opendir path fs d =
     (let d1 = d\<lparr>m_prefix := path, m_entries := [], m_pos := 0\<rparr>
      in (XrdOssOK, d1\<lparr>m_entries := readdir fs (m_prefix d1) (m_entries d1)\<rparr>))"

definition Close_dir :: "oss_dir \<Rightarrow> int \<times> oss_dir" where
  "Close_dir d = (XrdOssOK, d\<lparr>m_entries := [], m_pos := 0\<rparr>)"

definition Readdir :: "string \<Rightarrow> i32 \<Rightarrow> oss_dir \<Rightarrow> int \<times> oss_dir \<times> string" where
  "Readdir buff blen d =
     (if length (m_entries d) \<le> m_pos d then (XrdOssOK, d, buff[0 := NUL])
      else
        let name = m_entries d ! m_pos d; d1 = d\<lparr>m_pos := m_pos d + 1\<rparr>
        in if sint blen \<le> to_int (of_nat (length name)) then (- ENAMETOOLONG, d1, buff)
           else (XrdOssOK, d1, (name @ [NUL]) @ drop (length name + 1) buff))"

section \<open>Reading a directory\<close>

text \<open>Repeated calls with one buffer: what each returns, and the string it leaves.\<close>

fun readdir_calls :: "nat \<Rightarrow> string \<Rightarrow> i32 \<Rightarrow> oss_dir \<Rightarrow> (int \<times> string) list" where
  "readdir_calls 0 buff blen d = []"
| "readdir_calls (Suc n) buff blen d =
     (let (rc, d1, buff1) = Readdir buff blen d
      in (rc, cstr buff1) # readdir_calls n buff1 blen d1)"

text \<open>The reference: a name that fits is delivered, one that does not is skipped with an
  error and leaves the string of the previous call in place.\<close>

fun deliver :: "string \<Rightarrow> i32 \<Rightarrow> string list \<Rightarrow> (int \<times> string) list" where
  "deliver prev blen [] = []"
| "deliver prev blen (name # names) =
     (if int (length name) < sint blen then (0, name) # deliver name blen names
      else (- 36, prev) # deliver prev blen names)"

lemma cstr_name: "NUL \<notin> set name \<Longrightarrow> cstr (name @ NUL # rest) = name"
  by (induction name) (auto simp: cstr_def)

lemma Readdir_end:
  "length (m_entries d) \<le> m_pos d \<Longrightarrow> Readdir buff blen d = (0, d, buff[0 := NUL])"
  by (simp add: Readdir_def)

lemma readdir_calls_end:
  "length (m_entries d) \<le> m_pos d \<Longrightarrow> buff \<noteq> [] \<Longrightarrow>
   readdir_calls n buff blen d = replicate n (0, '''')"
proof (induction n arbitrary: buff)
  case (Suc n)
  then obtain c cs where "buff = c # cs" by (cases buff) auto
  with Suc show ?case by (simp add: Readdir_end cstr_def)
qed simp

lemma int_length_word: "int (length xs) < 2 ^ 31 \<Longrightarrow> to_int (of_nat (length xs)) = int (length xs)"
  by (subst to_int_small) (simp_all add: uint_nat unat_of_nat take_bit_nat_eq_self)

lemma readdir_calls_deliver:
  assumes "m_pos d \<le> length (m_entries d)" "buff \<noteq> []" "cstr buff = prev"
    and "\<And>name. name \<in> set (m_entries d) \<Longrightarrow> NUL \<notin> set name \<and> int (length name) < 2 ^ 31"
  shows "readdir_calls (length (m_entries d) - m_pos d + n) buff blen d =
    deliver prev blen (drop (m_pos d) (m_entries d)) @ replicate n (0, '''')"
  using assms
proof (induction "length (m_entries d) - m_pos d" arbitrary: d buff prev)
  case 0
  then show ?case by (simp add: readdir_calls_end)
next
  case (Suc k)
  let ?name = "m_entries d ! m_pos d" and ?d1 = "d\<lparr>m_pos := m_pos d + 1\<rparr>"
  have pos: "m_pos d < length (m_entries d)" using Suc.hyps(2) by simp
  then have name: "NUL \<notin> set ?name" "int (length ?name) < 2 ^ 31"
    using Suc.prems(4) nth_mem by blast+
  have k: "length (m_entries ?d1) - m_pos ?d1 = k" using Suc.hyps(2) by simp
  have drop: "drop (m_pos d) (m_entries d) = ?name # drop (m_pos ?d1) (m_entries ?d1)"
    using pos by (simp add: Cons_nth_drop_Suc)
  have steps: "length (m_entries d) - m_pos d + n = Suc (k + n)" using Suc.hyps(2) by simp
  note ih = Suc.hyps(1) [of ?d1, unfolded k]
  show ?case
  proof (cases "int (length ?name) < sint blen")
    case True
    let ?buff = "(?name @ [NUL]) @ drop (length ?name + 1) buff"
    have "Readdir buff blen d = (0, ?d1, ?buff)"
      using True pos by (simp add: Readdir_def Let_def int_length_word [OF name(2)])
    then show ?thesis
      using ih [of ?buff ?name] Suc.prems pos True
      by (simp add: steps drop cstr_name name)
  next
    case False
    have "Readdir buff blen d = (- 36, ?d1, buff)"
      using False pos by (simp add: Readdir_def Let_def int_length_word [OF name(2)])
    then show ?thesis
      using ih [of buff prev] Suc.prems pos False by (simp add: steps drop)
  qed
qed

text \<open>
  C24: Opening a directory always succeeds and takes a snapshot of its children;
  repeated reads deliver the names in order, skip a name that does not fit the buffer
  with ENAMETOOLONG and leave the buffer alone then, and answer with the empty string
  for ever after the last.
\<close>

theorem readdir_delivers_snapshot:
  assumes "buff \<noteq> []" and "m_entries (snd (Opendir path fs d)) = names"
    and "\<forall>name \<in> set names. NUL \<notin> set name \<and> int (length name) < 2 ^ 31"
  shows "fst (Opendir path fs d) = 0 \<and> names = readdir fs path [] \<and>
    readdir_calls (length names + n) buff blen (snd (Opendir path fs d)) =
      deliver (cstr buff) blen names @ replicate n (0, '''')"
proof -
  let ?d = "snd (Opendir path fs d)"
  have "m_pos ?d = 0" "fst (Opendir path fs d) = 0" "names = readdir fs path []"
    using assms(2) by (auto simp: Opendir_def)
  moreover have "readdir_calls (length names - m_pos ?d + n) buff blen ?d =
      deliver (cstr buff) blen (drop (m_pos ?d) names) @ replicate n (0, '''')"
    unfolding assms(2) [symmetric]
    by (rule readdir_calls_deliver) (use assms calculation in auto)
  ultimately show ?thesis by simp
qed

theorem readdir_delivers_snapshot_witness:
  "let fs = seed ''/d/abc'' 1 ''zeros'' (seed ''/d/x'' 1 ''zeros'' empty_fs);
       d = snd (Opendir ''/d'' fs new_dir)
   in readdir_calls 3 ''????'' 3 d = [(- 36, ''????''), (0, ''x''), (0, '''')]"
proof -
  let ?fs = "seed ''/d/abc'' 1 ''zeros'' (seed ''/d/x'' 1 ''zeros'' empty_fs)"
  let ?d = "snd (Opendir ''/d'' ?fs new_dir)"
  have "m_entries ?d = [''abc'', ''x'']"
    by (simp add: Opendir_def readdir_def seed_eq parent_of_def leaf_of_def normalise_def
        Let_def)
  then show ?thesis
    using readdir_delivers_snapshot [of "''????''" "''/d''" ?fs new_dir "[''abc'', ''x'']" 1 3]
    by (simp add: cstr_def numeral_3_eq_3)
qed

text \<open>
  A file whose path ends in a slash is listed under the empty name, which looks like the
  end of the directory to a caller although a name follows.
\<close>

lemma trailing_slash_ends_listing:
  "let fs = seed ''/d/x'' 1 ''zeros'' (seed ''/d/'' 1 ''zeros'' empty_fs);
       d = snd (Opendir ''/d'' fs new_dir)
   in m_entries d = ['''', ''x''] \<and> readdir_calls 3 ''????'' 4 d = [(0, ''''), (0, ''x''), (0, '''')]"
proof -
  let ?fs = "seed ''/d/x'' 1 ''zeros'' (seed ''/d/'' 1 ''zeros'' empty_fs)"
  let ?d = "snd (Opendir ''/d'' ?fs new_dir)"
  have pos: "m_pos ?d = 0" by (simp add: Opendir_def)
  have "m_entries ?d = ['''', ''x'']"
    by (simp add: Opendir_def readdir_def seed_eq parent_of_def leaf_of_def normalise_def
        Let_def)
  moreover from this have
    "readdir_calls (length (m_entries ?d) - m_pos ?d + 1) ''????'' 4 ?d =
       deliver ''????'' 4 (drop (m_pos ?d) (m_entries ?d)) @ replicate 1 (0, '''')"
    by (intro readdir_calls_deliver) (auto simp: cstr_def pos)
  ultimately show ?thesis using pos by (simp add: Let_def numeral_3_eq_3)
qed

end
