(* ===== verification/Oss.thy ===== *)
theory Oss
  imports OssFile OssDir
begin

text \<open>
  The calls of \<^verbatim>\<open>class XrdBlackholeOss\<close> (\<^verbatim>\<open>XrdBlackholeOss.cc\<close>) other than its
  configuration, and \<^verbatim>\<open>class XrdBlackholeXAttr\<close> (\<^verbatim>\<open>XrdBlackholeXAttr.cc\<close>). Arguments a
  call does not look at are kept, so that a definition has the shape of the method;
  caller buffers are lists of characters and are returned as the call leaves them.
\<close>

section \<open>Namespace calls\<close>

definition Chmod :: "path \<Rightarrow> u32 \<Rightarrow> int" where
  "Chmod path mode = - ENOTSUP"

definition Create :: "string \<Rightarrow> path \<Rightarrow> u32 \<Rightarrow> i32 \<Rightarrow> int" where
  "Create tident path access_mode Opts = - ENOTSUP"

definition Init :: "string \<Rightarrow> int" where
  "Init configFn = 0"

definition Mkdir :: "path \<Rightarrow> u32 \<Rightarrow> i32 \<Rightarrow> int" where
  "Mkdir path mode mkpath = 0"

definition Remdir :: "path \<Rightarrow> i32 \<Rightarrow> int" where
  "Remdir path Opts = 0"

definition Rename :: "path \<Rightarrow> path \<Rightarrow> globals \<Rightarrow> int \<times> globals" where
  "Rename from to g =
     (let (rc, fs) = rename_fs from to (g_blackholeFS g) in (rc, g\<lparr>g_blackholeFS := fs\<rparr>))"

definition Stat :: "path \<Rightarrow> c_stat \<Rightarrow> globals \<Rightarrow> int \<times> c_stat" where
  "Stat path buff g =
     (case getStub (g_blackholeFS g) path of
        None \<Rightarrow> (- ENOENT, buff)
      | Some stub \<Rightarrow> (0, m_stat (cell (g_blackholeFS g) stub)))"

definition Truncate :: "path \<Rightarrow> u64 \<Rightarrow> int" where
  "Truncate path len = - ENOTSUP"

definition Unlink :: "path \<Rightarrow> i32 \<Rightarrow> globals \<Rightarrow> int \<times> globals" where
  "Unlink path Opts g =
     (let (rc, fs) = unlink path (g_blackholeFS g) in (rc, g\<lparr>g_blackholeFS := fs\<rparr>))"

definition newDir :: "string \<Rightarrow> oss_dir" where
  "newDir tident = new_dir"

definition newFile :: "string \<Rightarrow> oss_file" where
  "newFile tident = new_file"

text \<open>The destructor logs the summary of the server's transfers.\<close>

definition destroy_oss :: "globals \<Rightarrow> string" where
  "destroy_oss g = logSummary (g_statsManager g)"

section \<open>Space reports\<close>

text \<open>
  \<^verbatim>\<open>snprintf\<close> into a buffer: at most \<open>n - 1\<close> characters and a NUL; the value is the length
  of the whole text.
\<close>

definition snprintf_buf :: "string \<Rightarrow> nat \<Rightarrow> string \<Rightarrow> int \<times> string" where
  "snprintf_buf buff n txt =
     (int (length txt),
      if n = 0 then buff
      else let t = take (n - 1) txt in (t @ [NUL]) @ drop (length t + 1) buff)"

record vs_info =
  Total :: i64
  Free :: i64
  Large :: i64
  LFree :: i64
  Usage :: i64
  Extents :: i32

definition zero_vs_info :: vs_info where
  "zero_vs_info = \<lparr>Total = 0, Free = 0, Large = 0, LFree = 0, Usage = 0, Extents = 0\<rparr>"

text \<open>A buffer size of type \<^verbatim>\<open>int\<close> where \<^verbatim>\<open>snprintf\<close> takes a \<^verbatim>\<open>size_t\<close>.\<close>

definition as_size :: "i32 \<Rightarrow> nat" where
  "as_size blen = unat (scast blen :: u64)"

definition StatFS :: "path \<Rightarrow> string \<Rightarrow> i32 \<Rightarrow> int \<times> string \<times> int" where
  "StatFS path buff blen =
     (let sP = zero_vs_info; percentUsedSpace = 0;
          (n, buff1) = snprintf_buf buff (as_size blen)
            (show_int 1 @ '' '' @ show_i64 (Free sP) @ '' '' @ show_int percentUsedSpace @ '' '' @
             show_int 0 @ '' '' @ show_int 0 @ '' '' @ show_int 0)
      in (XrdOssOK, buff1, n))"

definition StatVS :: "vs_info \<Rightarrow> int \<times> vs_info" where
  "StatVS sP =
     (let sP1 = sP\<lparr>Large := Total sP\<rparr>; sP2 = sP1\<lparr>LFree := Free sP1\<rparr>;
          sP3 = sP2\<lparr>Usage := Total sP2 - Free sP2\<rparr>
      in (XrdOssOK, sP3\<lparr>Extents := 1\<rparr>))"

definition formatStatLSResponse ::
  "string \<Rightarrow> i32 \<Rightarrow> string \<Rightarrow> i64 \<Rightarrow> i64 \<Rightarrow> i64 \<Rightarrow> i64 \<Rightarrow> i64 \<Rightarrow> int \<times> string" where
  "formatStatLSResponse buff blen cgroup totalSpace usedSpace freeSpace quota maxFreeChunk =
     snprintf_buf buff (as_size blen)
       (''oss.cgroup='' @ cgroup @ ''&oss.space='' @ show_i64 totalSpace @
        ''&oss.free='' @ show_i64 freeSpace @ ''&oss.maxf='' @ show_i64 maxFreeChunk @
        ''&oss.used='' @ show_i64 usedSpace @ ''&oss.quota='' @ show_i64 quota)"

definition StatLS :: "path \<Rightarrow> string \<Rightarrow> i32 \<Rightarrow> int \<times> string \<times> int" where
  "StatLS path buff blen =
     (let kReportedSpace = 1 * 1024 * 1024 * 1024 * 1024 * 1024; usedSpace = 0;
          freeSpace = kReportedSpace;
          (n, buff1) = formatStatLSResponse buff blen path kReportedSpace usedSpace freeSpace
            kReportedSpace freeSpace
      in (XrdOssOK, buff1, n))"

section \<open>Extended attributes\<close>

definition XAttr_Del :: "string \<Rightarrow> path \<Rightarrow> i32 \<Rightarrow> int" where
  "XAttr_Del Aname Path fd = - ENOTSUP"

definition XAttr_Get :: "string \<Rightarrow> byte list \<Rightarrow> i32 \<Rightarrow> path \<Rightarrow> i32 \<Rightarrow> int \<times> byte list" where
  "XAttr_Get Aname Aval Avsz Path fd = (- ENOTSUP, Aval)"

definition XAttr_List :: "path \<Rightarrow> i32 \<Rightarrow> i32 \<Rightarrow> int" where
  "XAttr_List Path fd getSz = - ENOTSUP"

definition XAttr_Set :: "string \<Rightarrow> byte list \<Rightarrow> i32 \<Rightarrow> path \<Rightarrow> i32 \<Rightarrow> i32 \<Rightarrow> int" where
  "XAttr_Set Aname Aval Avsz Path fd isNew = - ENOTSUP"

section \<open>The space report as a client reads it\<close>

text \<open>An opaque string of \<open>key=value\<close> pairs joined by ampersands, taken apart.\<close>

fun split_at_char :: "char \<Rightarrow> string \<Rightarrow> string list" where
  "split_at_char c [] = [[]]"
| "split_at_char c (x # xs) =
     (if x = c then [] # split_at_char c xs
      else case split_at_char c xs of [] \<Rightarrow> [[x]] | y # ys \<Rightarrow> (x # y) # ys)"

definition fields :: "string \<Rightarrow> (string \<times> string) list" where
  "fields s = map (\<lambda>f. (takeWhile (\<lambda>c. c \<noteq> CHR ''='') f, tl (dropWhile (\<lambda>c. c \<noteq> CHR ''='') f)))
     (split_at_char (CHR ''&'') s)"

lemma split_at_char_nonempty [simp]: "split_at_char c s \<noteq> []"
  by (induction c s rule: split_at_char.induct) (auto split: list.split)

lemma split_at_char_append:
  "c \<notin> set a \<Longrightarrow> split_at_char c (a @ c # s) = a # split_at_char c s"
  by (induction a) auto

lemma split_at_char_plain: "c \<notin> set a \<Longrightarrow> split_at_char c a = [a]"
  by (induction a) auto

text \<open>A pair \<open>key=value\<close>, and a list of them in front of a last one.\<close>

lemma fields_Cons:
  assumes "set k \<inter> {CHR ''='', CHR ''&''} = {}" "CHR ''&'' \<notin> set v"
  shows "fields (k @ CHR ''='' # v @ CHR ''&'' # s) = (k, v) # fields s"
    and "fields (k @ CHR ''='' # v) = [(k, v)]"
proof -
  have a: "CHR ''&'' \<notin> set (k @ CHR ''='' # v)" using assms by auto
  have k: "takeWhile (\<lambda>c. c \<noteq> CHR ''='') (k @ CHR ''='' # v) = k"
    "tl (dropWhile (\<lambda>c. c \<noteq> CHR ''='') (k @ CHR ''='' # v)) = v"
    using assms(1) by (subst takeWhile_append2 dropWhile_append2; auto)+
  show "fields (k @ CHR ''='' # v @ CHR ''&'' # s) = (k, v) # fields s"
    using split_at_char_append [OF a, of s] k by (simp add: fields_def)
  show "fields (k @ CHR ''='' # v) = [(k, v)]"
    using split_at_char_plain [OF a] k by (simp add: fields_def)
qed

lemma show_nat_no_amp: "CHR ''&'' \<notin> set (show_nat n)"
  using show_nat_digits [of n] by (auto simp: is_digit_def)

lemma show_int_no_amp: "CHR ''&'' \<notin> set (show_int i)"
  using show_nat_no_amp by (simp add: show_int_def)

definition response_text :: "string \<Rightarrow> i64 \<Rightarrow> string" where
  "response_text path space =
     ''oss.cgroup='' @ path @ ''&oss.space='' @ show_i64 space @ ''&oss.free='' @ show_i64 space @
     ''&oss.maxf='' @ show_i64 space @ ''&oss.used='' @ show_i64 0 @ ''&oss.quota='' @ show_i64 space"

lemma StatLS_eq:
  "StatLS path buff blen =
    (0, snd (snprintf_buf buff (as_size blen) (response_text path (2 ^ 50))),
     int (length (response_text path (2 ^ 50))))"
  by (simp add: StatLS_def formatStatLSResponse_def response_text_def snprintf_buf_def Let_def)

lemma fields_response:
  assumes "CHR ''&'' \<notin> set path"
  shows "fields (response_text path w) =
    [(''oss.cgroup'', path), (''oss.space'', show_i64 w), (''oss.free'', show_i64 w),
     (''oss.maxf'', show_i64 w), (''oss.used'', show_i64 0), (''oss.quota'', show_i64 w)]"
  using fields_Cons(1) [of "''oss.cgroup''" path] fields_Cons(1) [of "''oss.space''" "show_i64 w"]
    fields_Cons(1) [of "''oss.free''" "show_i64 w"] fields_Cons(1) [of "''oss.maxf''" "show_i64 w"]
    fields_Cons(1) [of "''oss.used''" "show_i64 0"] fields_Cons(2) [of "''oss.quota''" "show_i64 w"]
    assms show_int_no_amp
  by (simp add: response_text_def)

lemma cstr_snprintf:
  assumes "NUL \<notin> set txt" "0 < n"
  shows "cstr (snd (snprintf_buf buff n txt)) = take (n - 1) txt"
proof -
  have "NUL \<notin> set (take (n - 1) txt)" using assms(1) by (meson in_set_takeD)
  then show ?thesis using assms(2) by (simp add: snprintf_buf_def Let_def cstr_name)
qed

lemma show_PiB: "show_i64 (2 ^ 50) = ''1125899906842624''" "show_i64 0 = ''0''"
  by (simp_all add: show_int_def show_nat.simps [of "_ :: nat"] digit_def char_of_eq_iff)

lemma length_response: "length (response_text path (2 ^ 50)) = length path + 128"
  unfolding response_text_def show_PiB by simp

text \<open>
  C29: When the buffer is large enough and the path has no ampersand (which separates
  the fields of the report) and no NUL, a client that takes the space report apart finds
  the path as the space group, one PiB in total, free and as largest chunk, and nothing
  used, and the reported length is that of the text.
\<close>

theorem statls_reads_back:
  assumes "set path \<inter> {CHR ''&'', NUL} = {}" and "length path + 128 < as_size blen"
  shows "let (rc, buff1, n) = StatLS path buff blen
    in rc = 0 \<and> n = int (length (cstr buff1)) \<and>
      fields (cstr buff1) =
        [(''oss.cgroup'', path), (''oss.space'', ''1125899906842624''),
         (''oss.free'', ''1125899906842624''), (''oss.maxf'', ''1125899906842624''),
         (''oss.used'', ''0''), (''oss.quota'', ''1125899906842624'')]"
proof -
  let ?t = "response_text path (2 ^ 50)"
  have nul: "NUL \<notin> set ?t" using assms(1) unfolding response_text_def show_PiB by auto
  have "cstr (snd (snprintf_buf buff (as_size blen) ?t)) = ?t"
    using cstr_snprintf [OF nul, of "as_size blen" buff] assms(2) length_response [of path]
    by (cases "as_size blen") simp_all
  then show ?thesis
    using fields_response [of path "2 ^ 50"] assms(1) unfolding StatLS_eq show_PiB by auto
qed

theorem statls_reads_back_witness:
  "fields (cstr (fst (snd (StatLS ''/data'' ''ABC'' 4096)))) ! 2 = (''oss.free'', ''1125899906842624'')"
  using statls_reads_back [of "''/data''" 4096 "''ABC''"]
  by (simp add: as_size_def case_prod_beta)

text \<open>
  C38: When the buffer is too small for the space report, the text in it is cut to fit,
  but the length handed back is that of the whole text, more than the buffer holds.
\<close>

theorem space_report_length_untruncated:
  assumes "0 < as_size blen" and "as_size blen \<le> length path + 128"
  shows "let (rc, buff1, n) = StatLS path buff blen
    in rc = 0 \<and> n = int (length path) + 128 \<and> length (cstr buff1) < as_size blen"
proof -
  let ?u = "take (as_size blen - 1) (response_text path (2 ^ 50))"
  have "cstr (?u @ NUL # rest) = takeWhile (\<lambda>c. c \<noteq> NUL) ?u" for rest
  proof (cases "NUL \<in> set ?u")
    case True
    then show ?thesis unfolding cstr_def by (subst takeWhile_append1 [of NUL]) auto
  next
    case False
    then have "takeWhile (\<lambda>c. c \<noteq> NUL) ?u = ?u" by (subst takeWhile_eq_all_conv) auto
    then show ?thesis by (simp only: cstr_name [OF False])
  qed
  moreover have "length (takeWhile (\<lambda>c. c \<noteq> NUL) ?u) \<le> as_size blen - 1"
    using length_takeWhile_le [of "\<lambda>c. c \<noteq> NUL" ?u] by simp
  ultimately have
    "length (cstr (snd (snprintf_buf buff (as_size blen) (response_text path (2 ^ 50))))) < as_size blen"
    using assms(1) by (simp add: snprintf_buf_def Let_def)
  then show ?thesis unfolding StatLS_eq length_response by simp
qed

theorem space_report_length_untruncated_witness:
  "snd (snd (StatLS ''/data'' (replicate 16 NUL) 16)) = 133"
  using space_report_length_untruncated [of 16 "''/data''" "replicate 16 NUL"]
  by (simp add: as_size_def case_prod_beta)

end
