(* ===== verification/Metrics.thy ===== *)
theory Metrics
  imports Oss
begin

text \<open>
  \<^verbatim>\<open>XrdBlackholeMetrics.hh\<close> and \<^verbatim>\<open>XrdBlackholeMetrics.cc\<close>: the HTTP handler that renders
  the statistics in the Prometheus text format, and what a scraper reads from it. The
  request object belongs to XRootD; its \<^verbatim>\<open>SendSimpleResp\<close> is an argument.
\<close>

section \<open>The handler\<close>

abbreviation LF :: char where "LF \<equiv> CHR 0x0A"
abbreviation QUOTE :: char where "QUOTE \<equiv> CHR 0x22"

text \<open>The template, with the output of a \<open>T\<close> on the stream as its first argument.\<close>

definition emitMetric ::
  "('t \<Rightarrow> string) \<Rightarrow> string \<Rightarrow> string \<Rightarrow> string \<Rightarrow> 't \<Rightarrow> string option \<Rightarrow> string" where
  "emitMetric put name type help value labels =
     ''# HELP '' @ name @ '' '' @ help @ [LF] @
     ''# TYPE '' @ name @ '' '' @ type @ [LF] @
     name @
     (case labels of None \<Rightarrow> '''' | Some l \<Rightarrow> if l = '''' then '''' else ''{'' @ l @ ''}'') @
     '' '' @ put value @ [LF]"

definition MatchesPath :: "string \<Rightarrow> string \<Rightarrow> bool" where
  "MatchesPath verb path \<longleftrightarrow> verb = ''GET'' \<and> path = ''/metrics''"

definition buildMetrics :: "stats_manager \<Rightarrow> string" where
  "buildMetrics m =
     (let s = getSnapshot m;
          avg_write = (if 0 < write_transfers s
                       then d_div (sum_write_MiBs s) (d_of_u64 (write_transfers s)) else 0);
          avg_read = (if 0 < read_transfers s
                      then d_div (sum_read_MiBs s) (d_of_u64 (read_transfers s)) else 0)
      in emitMetric show_u64 ''blackhole_transfers_total'' ''counter''
           ''Total number of completed transfers'' (write_transfers s)
           (Some (''op='' @ [QUOTE] @ ''write'' @ [QUOTE])) @
         ''blackhole_transfers_total{op='' @ [QUOTE] @ ''read'' @ [QUOTE] @ ''} '' @
           show_u64 (read_transfers s) @ [LF] @
         emitMetric show_i64 ''blackhole_bytes_written_total'' ''counter''
           ''Total bytes accepted for writing (data is discarded)'' (total_bytes_written s) None @
         emitMetric show_i64 ''blackhole_bytes_read_total'' ''counter''
           ''Total bytes synthesised and returned to readers'' (total_bytes_read s) None @
         emitMetric show_u64 ''blackhole_errors_total'' ''counter''
           ''Total error returns across all transfers'' (total_errors s) None @
         emitMetric show_fixed2 ''blackhole_write_throughput_MiBs_avg'' ''gauge''
           ''Average write throughput across all completed write transfers (MiB/s)'' avg_write None @
         emitMetric show_fixed2 ''blackhole_read_throughput_MiBs_avg'' ''gauge''
           ''Average read throughput across all completed read transfers (MiB/s)'' avg_read None)"

definition ProcessReq ::
  "(int \<Rightarrow> string \<Rightarrow> string \<Rightarrow> string \<Rightarrow> i64 \<Rightarrow> 'r) \<Rightarrow> stats_manager \<Rightarrow> 'r" where
  "ProcessReq SendSimpleResp m =
     (let body = buildMetrics m
      in SendSimpleResp 200 ''OK''
           (''Content-Type: text/plain; version=0.0.4; charset=utf-8'' @ [CHR 0x0D, LF])
           body (of_nat (length body)))"

section \<open>A scraper\<close>

text \<open>
  The samples of a text: its lines that are neither empty nor a comment, cut at the
  first space.
\<close>

definition sample :: "string \<Rightarrow> string \<times> string" where
  "sample l = (takeWhile (\<lambda>c. c \<noteq> CHR '' '') l, tl (dropWhile (\<lambda>c. c \<noteq> CHR '' '') l))"

definition scrape :: "string \<Rightarrow> (string \<times> string) list" where
  "scrape body =
     map sample (filter (\<lambda>l. l \<noteq> [] \<and> hd l \<noteq> CHR ''#'') (split_at_char LF body))"

lemma scrape_Nil: "scrape [] = []"
  by (simp add: scrape_def)

lemma scrape_comment: "LF \<notin> set l \<Longrightarrow> scrape (CHR ''#'' # l @ LF # rest) = scrape rest"
  using split_at_char_append [of LF "CHR ''#'' # l" rest] by (simp add: scrape_def)

lemma scrape_sample:
  assumes "k \<noteq> []" "hd k \<noteq> CHR ''#''" "set k \<inter> {LF, CHR '' ''} = {}" "LF \<notin> set v"
  shows "scrape (k @ CHR '' '' # v @ LF # rest) = (k, v) # scrape rest"
proof -
  have "LF \<notin> set (k @ CHR '' '' # v)" using assms(3,4) by auto
  note split = split_at_char_append [OF this, of rest]
  have "sample (k @ CHR '' '' # v) = (k, v)"
    using assms(3) unfolding sample_def by (subst takeWhile_append2 dropWhile_append2; auto)+
  then show ?thesis using split assms(1,2) by (simp add: scrape_def)
qed

definition label_text :: "string option \<Rightarrow> string" where
  "label_text labels =
     (case labels of None \<Rightarrow> '''' | Some l \<Rightarrow> if l = '''' then '''' else ''{'' @ l @ ''}'')"

lemma scrape_emitMetric:
  assumes "name \<noteq> []" "hd name \<noteq> CHR ''#''"
    and "set (name @ label_text labels) \<inter> {LF, CHR '' ''} = {}"
    and "LF \<notin> set type" "LF \<notin> set help" "LF \<notin> set (put value)"
  shows "scrape (emitMetric put name type help value labels @ rest) =
    (name @ label_text labels, put value) # scrape rest"
proof -
  have eq: "emitMetric put name type help value labels @ rest =
    CHR ''#'' # ('' HELP '' @ name @ '' '' @ help) @ LF #
    CHR ''#'' # ('' TYPE '' @ name @ '' '' @ type) @ LF #
    (name @ label_text labels) @ CHR '' '' # put value @ LF # rest"
    by (simp add: emitMetric_def label_text_def)
  have h: "LF \<notin> set ('' HELP '' @ name @ '' '' @ help)" using assms by auto
  have t: "LF \<notin> set ('' TYPE '' @ name @ '' '' @ type)" using assms by auto
  have "scrape ((name @ label_text labels) @ CHR '' '' # put value @ LF # rest) =
    (name @ label_text labels, put value) # scrape rest"
    by (rule scrape_sample) (use assms in auto)
  then show ?thesis by (simp only: eq scrape_comment [OF h] scrape_comment [OF t])
qed

lemma show_no_LF: "LF \<notin> set (show_nat n)" "LF \<notin> set (show_int i)" "LF \<notin> set (show_fixed2 x)"
  by (rule show_chars; simp add: is_digit_def)+

lemma scrape_buildMetrics:
  "scrape (buildMetrics m) =
    [(''blackhole_transfers_total{op='' @ [QUOTE] @ ''write'' @ [QUOTE] @ ''}'',
        show_u64 (m_write_transfers m)),
     (''blackhole_transfers_total{op='' @ [QUOTE] @ ''read'' @ [QUOTE] @ ''}'',
        show_u64 (m_read_transfers m)),
     (''blackhole_bytes_written_total'', show_i64 (m_total_bytes_written m)),
     (''blackhole_bytes_read_total'', show_i64 (m_total_bytes_read m)),
     (''blackhole_errors_total'', show_u64 (m_total_errors m)),
     (''blackhole_write_throughput_MiBs_avg'',
        show_fixed2 (average (m_sum_write_MiBs m) (m_write_transfers m))),
     (''blackhole_read_throughput_MiBs_avg'',
        show_fixed2 (average (m_sum_read_MiBs m) (m_read_transfers m)))]"
proof -
  have read: "scrape (''blackhole_transfers_total{op='' @ [QUOTE] @ ''read'' @ [QUOTE] @ ''} '' @
      show_u64 n @ [LF] @ rest) =
    (''blackhole_transfers_total{op='' @ [QUOTE] @ ''read'' @ [QUOTE] @ ''}'', show_u64 n) # scrape rest"
    for n rest
    using scrape_sample [of "''blackhole_transfers_total{op='' @ [QUOTE] @ ''read'' @ [QUOTE] @ ''}''"
        "show_u64 n" rest] show_no_LF(1) by simp
  have last: "scrape (emitMetric put n t h v l) = (n @ label_text l, put v) # scrape []"
    if "n \<noteq> []" "hd n \<noteq> CHR ''#''" "set (n @ label_text l) \<inter> {LF, CHR '' ''} = {}"
      "LF \<notin> set t" "LF \<notin> set h" "LF \<notin> set (put v)"
    for put :: "rat \<Rightarrow> string" and n t h v l
    using scrape_emitMetric [of n l t h put v "[]"] that by simp
  show ?thesis
    unfolding buildMetrics_def Let_def getSnapshot_def average_def
    by (simp add: scrape_emitMetric last read scrape_Nil label_text_def show_no_LF del: append_Cons
        append.append_Cons append_assoc)
qed

lemma map_of_metrics:
  "map_of (scrape (buildMetrics m)) (''blackhole_transfers_total{op='' @ [QUOTE] @ ''write'' @ [QUOTE] @ ''}'')
     = Some (show_u64 (m_write_transfers m))"
  "map_of (scrape (buildMetrics m)) (''blackhole_transfers_total{op='' @ [QUOTE] @ ''read'' @ [QUOTE] @ ''}'')
     = Some (show_u64 (m_read_transfers m))"
  "map_of (scrape (buildMetrics m)) ''blackhole_bytes_written_total''
     = Some (show_i64 (m_total_bytes_written m))"
  "map_of (scrape (buildMetrics m)) ''blackhole_bytes_read_total''
     = Some (show_i64 (m_total_bytes_read m))"
  "map_of (scrape (buildMetrics m)) ''blackhole_errors_total'' = Some (show_u64 (m_total_errors m))"
  unfolding scrape_buildMetrics by simp_all

text \<open>What a scrape reads after any sequence of recorded transfers.\<close>

text \<open>
  C20: A scraper that reads the metrics page after any sequence of transfers finds, in
  decimal, the number of transfers with bytes written and with bytes read, and the
  totals of bytes written and read.
\<close>

theorem metrics_count_transfers:
  "let m = fold recordTransfer ts empty_manager; read = map_of (scrape (buildMetrics m)) in
     read (''blackhole_transfers_total{op='' @ [QUOTE] @ ''write'' @ [QUOTE] @ ''}'') =
       Some (show_nat (length (filter (\<lambda>t. 0 < sint (bytes_written t)) ts) mod 2 ^ 64))
   \<and> read (''blackhole_transfers_total{op='' @ [QUOTE] @ ''read'' @ [QUOTE] @ ''}'') =
       Some (show_nat (length (filter (\<lambda>t. 0 < sint (bytes_read t)) ts) mod 2 ^ 64))
   \<and> read ''blackhole_bytes_written_total'' = Some (show_i64 (sum_list (map bytes_written ts)))
   \<and> read ''blackhole_bytes_read_total'' = Some (show_i64 (sum_list (map bytes_read ts)))"
  unfolding Let_def map_of_metrics fold_record
  by (simp add: empty_manager_def unat_of_nat take_bit_eq_mod)

end
