(* ===== verification/Plugin.thy ===== *)
theory Plugin
  imports OssFile_Session Config_Lines Metrics
begin

text \<open>
  The running server: the namespace, the statistics and any number of file handles, with
  the calls of different clients interleaved. A call that takes a mutex twice
  (\<^verbatim>\<open>Open\<close>, \<^verbatim>\<open>Close\<close>) is two steps, one half each. Open and close of one handle do not
  overlap with its other calls, which is how XRootD drives a file object; its I/O calls
  come in any order. A half is coarser than the program in one point: the code copies
  the size out of the stub in an open, and looks at the write mark and stores the two
  sizes in a close, without holding a mutex. \<^verbatim>\<open>Server_Accesses\<close> cuts the halves there too
  and says what still holds; what is said of reachable states here is said of the states
  between halves.
\<close>

section \<open>States and steps\<close>

datatype phase = Idle | Opening path i32 | Closing

record plugin =
  p_oss :: oss
  p_globals :: globals
  handles :: "nat \<Rightarrow> (phase \<times> oss_file) option"

definition start :: "oss \<Rightarrow> plugin" where
  "start bhOss =
     \<lparr>p_oss = bhOss, p_globals = \<lparr>g_blackholeFS = empty_fs, g_statsManager = empty_manager\<rparr>,
      handles = (\<lambda>_. None)\<rparr>"

abbreviation p_fs :: "plugin \<Rightarrow> bhfs" where
  "p_fs s \<equiv> g_blackholeFS (p_globals s)"

definition set_handle :: "nat \<Rightarrow> phase \<Rightarrow> oss_file \<Rightarrow> globals \<Rightarrow> plugin \<Rightarrow> plugin" where
  "set_handle h ph f g s = s\<lparr>p_globals := g, handles := (handles s)(h \<mapsto> (ph, f))\<rparr>"

text \<open>
  A descriptor is only handed out while the 64-bit counter has room. Files are seeded
  while the configuration is read, with one of the two patterns the reader knows.
\<close>

abbreviation read_patterns :: "string set" where
  "read_patterns \<equiv> {''zeros'', ''random''}"

inductive step :: "plugin \<Rightarrow> plugin \<Rightarrow> bool" where
  new_file: "handles s h = None \<Longrightarrow> step s (set_handle h Idle (newFile tident) (p_globals s) s)"
| open_fail: "handles s h = Some (Idle, f) \<Longrightarrow> m_fd_last (p_fs s) \<noteq> - 1 \<Longrightarrow>
    Open_begin path flags mode f (p_globals s) = (rc, f1, g1) \<Longrightarrow> rc < 0 \<Longrightarrow>
    step s (set_handle h Idle f1 g1 s)"
| open_begin: "handles s h = Some (Idle, f) \<Longrightarrow> m_fd_last (p_fs s) \<noteq> - 1 \<Longrightarrow>
    Open_begin path flags mode f (p_globals s) = (rc, f1, g1) \<Longrightarrow> 0 \<le> rc \<Longrightarrow>
    step s (set_handle h (Opening path flags) f1 g1 s)"
| open_finish: "handles s h = Some (Opening path flags, f) \<Longrightarrow>
    step s (set_handle h Idle (Open_finish (p_oss s) path flags t0 now f (p_globals s))
      (p_globals s) s)"
| io: "handles s h = Some (Idle, f) \<Longrightarrow>
    step s (set_handle h Idle (snd (do_op op f)) (p_globals s) s)"
| close_begin: "handles s h = Some (Idle, f) \<Longrightarrow> m_stub f = Some r \<Longrightarrow>
    Close_begin now r f (p_globals s) = (f1, g1) \<Longrightarrow> step s (set_handle h Closing f1 g1 s)"
| close_finish: "handles s h = Some (Closing, f) \<Longrightarrow>
    Close_finish f (p_globals s) = (f1, g1) \<Longrightarrow> step s (set_handle h Idle f1 g1 s)"
| rename: "Rename from to (p_globals s) = (rc, g1) \<Longrightarrow> step s (s\<lparr>p_globals := g1\<rparr>)"
| unlink: "Unlink path opts (p_globals s) = (rc, g1) \<Longrightarrow> step s (s\<lparr>p_globals := g1\<rparr>)"
| seed: "m_fd_last (p_fs s) \<noteq> - 1 \<Longrightarrow> rt \<in> read_patterns \<Longrightarrow>
    step s (s\<lparr>p_globals := (p_globals s)\<lparr>g_blackholeFS := seed path sz rt (p_fs s)\<rparr>\<rparr>)"

inductive reachable :: "oss \<Rightarrow> plugin \<Rightarrow> bool" for bhOss :: oss where
  start: "reachable bhOss (start bhOss)"
| step: "reachable bhOss s \<Longrightarrow> step s s' \<Longrightarrow> reachable bhOss s'"

section \<open>What the namespace never changes about a stub\<close>

text \<open>A stub keeps its inode, its read pattern and its zero mode for life.\<close>

definition fs_ext :: "bhfs \<Rightarrow> bhfs \<Rightarrow> bool" where
  "fs_ext fs fs' \<longleftrightarrow> next_ref fs \<le> next_ref fs' \<and>
     (\<forall>r < next_ref fs. ino_of fs' r = ino_of fs r \<and>
        m_readtype (cell fs' r) = m_readtype (cell fs r)) \<and>
     ((\<forall>r. st_mode (m_stat (cell fs r)) = 0) \<longrightarrow> (\<forall>r. st_mode (m_stat (cell fs' r)) = 0))"

lemma fs_ext_refl: "fs_ext fs fs"
  by (simp add: fs_ext_def)

lemma fs_ext_upd:
  assumes "\<And>s. st_ino (m_stat (f s)) = st_ino (m_stat s)" "\<And>s. m_readtype (f s) = m_readtype s"
    "\<And>s. st_mode (m_stat (f s)) = st_mode (m_stat s)"
  shows "fs_ext fs (upd_stub r f fs)"
  using assms by (auto simp: fs_ext_def ino_of_def)

lemma fs_ext_create: "fs_ext fs (snd (open_create p flags md fs))"
  by (simp add: fs_ext_def ino_of_def open_create_eq)

lemma fs_ext_seed: "fs_ext fs (seed p sz rt fs)"
  by (simp add: fs_ext_def ino_of_def seed_eq)

lemma fs_ext_same_cells:
  "cell fs' = cell fs \<Longrightarrow> next_ref fs' = next_ref fs \<Longrightarrow> fs_ext fs fs'"
  by (simp add: fs_ext_def ino_of_def)

lemma fs_ext_mode:
  "fs_ext fs fs' \<Longrightarrow> \<forall>r. st_mode (m_stat (cell fs r)) = 0 \<Longrightarrow> st_mode (m_stat (cell fs' r)) = 0"
  by (simp add: fs_ext_def)

lemma fs_ext_trans: "fs_ext a b \<Longrightarrow> fs_ext b c \<Longrightarrow> fs_ext a c"
  by (auto simp: fs_ext_def)

lemma fs_ext_open: "fs_ext fs (snd (open_fs p flags md fs))"
proof -
  have bump: "fs_ext fs (fs\<lparr>m_fd_last := n\<rparr>)" for n by (rule fs_ext_same_cells) simp_all
  have erase: "fs_ext fs (fs\<lparr>m_files := m\<rparr>)" for m by (rule fs_ext_same_cells) simp_all
  show ?thesis
    by (cases rule: open_fs_cases [of flags fs p])
      (auto simp: open_fs_simps fs_ext_refl
        intro: fs_ext_create fs_ext_trans [OF bump fs_ext_upd] fs_ext_trans [OF erase fs_ext_create])
qed

lemma fs_ext_close: "fs_ext fs (close_fs p fs)"
  by (auto simp: close_fs_def fs_ext_refl intro: fs_ext_upd split: option.split)

lemma fs_ext_unlink: "fs_ext fs (snd (unlink p fs))"
  by (auto simp: unlink_def intro: fs_ext_same_cells split: option.split)

lemma fs_ext_rename: "fs_ext fs (snd (rename_fs a b fs))"
  by (auto simp: rename_fs_def Let_def intro: fs_ext_same_cells split: option.split)

section \<open>The invariant\<close>

definition handle_ok :: "bhfs \<Rightarrow> oss_file \<Rightarrow> bool" where
  "handle_ok fs f \<longleftrightarrow>
     (\<forall>r. m_stub f = Some r \<longrightarrow> r < next_ref fs \<and> m_errors f = 0 \<and> m_ino f = ino_of fs r \<and>
        (m_isRandom f \<longleftrightarrow> m_readtype (cell fs r) = ''random''))"

definition plugin_inv :: "plugin \<Rightarrow> bool" where
  "plugin_inv s \<longleftrightarrow> fs_inv (p_fs s) \<and> (\<forall>r. st_mode (m_stat (cell (p_fs s) r)) = 0) \<and>
     m_total_errors (g_statsManager (p_globals s)) = 0 \<and>
     (\<forall>h ph f. handles s h = Some (ph, f) \<longrightarrow> handle_ok (p_fs s) f)"

lemma handle_ok_ext: "handle_ok fs f \<Longrightarrow> fs_ext fs fs' \<Longrightarrow> handle_ok fs' f"
  by (auto simp: handle_ok_def fs_ext_def)

text \<open>A step moves the namespace forward and leaves its handle well formed.\<close>

lemma plugin_inv_set:
  assumes "plugin_inv s" "fs_inv (g_blackholeFS g)" "fs_ext (p_fs s) (g_blackholeFS g)"
    "m_total_errors (g_statsManager g) = 0" "handle_ok (g_blackholeFS g) f"
  shows "plugin_inv (set_handle h ph f g s)"
  using assms handle_ok_ext [OF _ assms(3)] fs_ext_mode [OF assms(3)]
  by (auto simp: plugin_inv_def set_handle_def split: if_splits)

lemma plugin_inv_globals:
  assumes "plugin_inv s" "fs_inv (g_blackholeFS g)" "fs_ext (p_fs s) (g_blackholeFS g)"
    "g_statsManager g = g_statsManager (p_globals s)"
  shows "plugin_inv (s\<lparr>p_globals := g\<rparr>)"
  using assms handle_ok_ext [OF _ assms(3)] fs_ext_mode [OF assms(3)]
  by (auto simp: plugin_inv_def)

lemma handle_ok_cong:
  "m_stub f = m_stub f' \<Longrightarrow> m_errors f = m_errors f' \<Longrightarrow> m_ino f = m_ino f' \<Longrightarrow>
   m_isRandom f = m_isRandom f' \<Longrightarrow> handle_ok fs f = handle_ok fs f'"
  by (simp add: handle_ok_def)

lemma handle_ok_do_op: "handle_ok fs f \<Longrightarrow> handle_ok fs (snd (do_op op f))"
  using same_open_do_op [of f op] do_op_counters(4) [of f _ op]
  by (auto simp: handle_ok_def same_open_def)

lemma handle_ok_finish:
  "fs_inv (g_blackholeFS g) \<Longrightarrow>
   handle_ok (g_blackholeFS g) (Open_finish bhOss p flags t0 now f g)"
  by (auto simp: handle_ok_def Open_finish_def Let_def ino_of_def dest: fs_inv_ref)

lemma Open_begin_ok:
  assumes "Open_begin path flags mode f g = (rc, f1, g1)" "fs_inv (g_blackholeFS g)"
    "m_fd_last (g_blackholeFS g) \<noteq> - 1"
  shows "fs_inv (g_blackholeFS g1)" "fs_ext (g_blackholeFS g) (g_blackholeFS g1)"
    "g_statsManager g1 = g_statsManager g" "handle_ok fs f1 = handle_ok fs f"
  using assms fs_inv_open [OF assms(2,3), of path flags mode]
    fs_ext_open [of "g_blackholeFS g" path flags mode]
  by (auto simp: Open_begin_def case_prod_beta handle_ok_def Let_def)

lemma Close_begin_ok:
  assumes "Close_begin now r f g = (f1, g1)" "fs_inv (g_blackholeFS g)" "m_errors f = 0"
  shows "fs_inv (g_blackholeFS g1)" "fs_ext (g_blackholeFS g) (g_blackholeFS g1)"
    "m_total_errors (g_statsManager g1) = m_total_errors (g_statsManager g)"
    "handle_ok fs f1 = handle_ok fs f"
proof -
  let ?fs = "g_blackholeFS g" and ?fs1 = "upd_stub r (set_size (out_bytes f)) (g_blackholeFS g)"
  have "fs_inv ?fs1" "fs_ext ?fs ?fs1"
    by (rule fs_inv_upd [OF assms(2)] fs_ext_upd; simp add: set_size_def)+
  moreover have "g_blackholeFS g1 = ?fs \<or> g_blackholeFS g1 = ?fs1"
    using assms(1)
    by (auto simp: Close_begin_def Let_def out_bytes_def set_size_def [abs_def] split: if_splits)
  ultimately show "fs_inv (g_blackholeFS g1)" "fs_ext ?fs (g_blackholeFS g1)"
    using assms(2) fs_ext_refl by auto
  show "m_total_errors (g_statsManager g1) = m_total_errors (g_statsManager g)"
    using assms(1,3) by (auto simp: Close_begin_def Let_def recordTransfer_fields)
  show "handle_ok fs f1 = handle_ok fs f"
    using assms(1) by (auto simp: Close_begin_def Let_def handle_ok_def)
qed

lemma step_inv:
  assumes "step s s'" "plugin_inv s"
  shows "plugin_inv s'"
  using assms
proof (induction rule: step.induct)
  case (new_file s h tident)
  then show ?case
    by (intro plugin_inv_set) (auto simp: plugin_inv_def fs_ext_refl handle_ok_def newFile_def new_file_def)
next
  case (open_fail s h f path flags mode rc f1 g1)
  have inv: "fs_inv (p_fs s)" "handle_ok (p_fs s) f" using open_fail by (auto simp: plugin_inv_def)
  note o = Open_begin_ok [OF open_fail(3) inv(1) open_fail(2)]
  show ?case
    using open_fail o inv handle_ok_ext [OF inv(2) o(2)] by (intro plugin_inv_set) (auto simp: plugin_inv_def)
next
  case (open_begin s h f path flags mode rc f1 g1)
  have inv: "fs_inv (p_fs s)" "handle_ok (p_fs s) f" using open_begin by (auto simp: plugin_inv_def)
  note o = Open_begin_ok [OF open_begin(3) inv(1) open_begin(2)]
  show ?case
    using open_begin o inv handle_ok_ext [OF inv(2) o(2)] by (intro plugin_inv_set) (auto simp: plugin_inv_def)
next
  case (open_finish s h path flags f t0 now)
  then show ?case
    by (intro plugin_inv_set) (auto simp: plugin_inv_def fs_ext_refl handle_ok_finish)
next
  case (io s h f op)
  then show ?case
    by (intro plugin_inv_set) (auto simp: plugin_inv_def fs_ext_refl handle_ok_do_op)
next
  case (close_begin s h f r now f1 g1)
  have inv: "fs_inv (p_fs s)" "handle_ok (p_fs s) f" using close_begin by (auto simp: plugin_inv_def)
  then have "m_errors f = 0" using close_begin(2) by (simp add: handle_ok_def)
  note c = Close_begin_ok [OF close_begin(3) inv(1) this]
  show ?case
    using close_begin c inv handle_ok_ext [OF inv(2) c(2)] by (intro plugin_inv_set) (auto simp: plugin_inv_def)
next
  case (close_finish s h f f1 g1)
  have "f1 = f\<lparr>m_stub := None\<rparr>" "g_statsManager g1 = g_statsManager (p_globals s)"
    "g_blackholeFS g1 = close_fs (m_path f) (p_fs s)"
    using close_finish(2) by (auto simp: Close_finish_def)
  then show ?case
    using close_finish(3) fs_inv_close fs_ext_close
    by (intro plugin_inv_set) (auto simp: plugin_inv_def handle_ok_def)
next
  case (rename "from" to s rc g1)
  then have "g1 = (p_globals s)\<lparr>g_blackholeFS := snd (rename_fs from to (p_fs s))\<rparr>"
    by (auto simp: Rename_def case_prod_beta)
  then show ?case
    using rename(2) fs_inv_rename fs_ext_rename by (intro plugin_inv_globals) (auto simp: plugin_inv_def)
next
  case (unlink path opts s rc g1)
  then have "g1 = (p_globals s)\<lparr>g_blackholeFS := snd (BlackholeFS.unlink path (p_fs s))\<rparr>"
    by (auto simp: Unlink_def case_prod_beta)
  then show ?case
    using unlink(2) fs_inv_unlink fs_ext_unlink by (intro plugin_inv_globals) (auto simp: plugin_inv_def)
next
  case (seed s rt path sz)
  then show ?case
    using fs_inv_seed fs_ext_seed by (intro plugin_inv_globals) (auto simp: plugin_inv_def)
qed

lemma start_inv: "plugin_inv (start bhOss)"
proof -
  have "st_mode (m_stat (cell empty_fs r)) = 0" for r by (simp add: empty_fs_def new_stub_def)
  then show ?thesis
    by (simp add: plugin_inv_def start_def fs_inv_empty empty_manager_def del: empty_fs_simps)
qed

lemma reachable_inv: "reachable bhOss s \<Longrightarrow> plugin_inv s"
  by (induction rule: reachable.induct) (auto intro: start_inv step_inv)

inductive_cases stepE: "step s s'"
inductive_simps reachable_step: "reachable bhOss s"

lemmas set_handle_simps [simp] = set_handle_def

section \<open>Properties of every reachable server\<close>

text \<open>A server on which a client has opened and read a seeded file, for the witnesses.\<close>

definition demo_fs :: bhfs where
  "demo_fs = seed ''/r'' 16 ''random'' empty_fs"

definition demo_g :: globals where
  "demo_g = \<lparr>g_blackholeFS = snd (open_fs ''/r'' 0 0 demo_fs), g_statsManager = empty_manager\<rparr>"

definition demo_file :: oss_file where
  "demo_file = Open_finish new_oss ''/r'' 0 0 0 (new_file\<lparr>m_path := ''/r''\<rparr>) demo_g"

definition demo :: "nat \<Rightarrow> plugin" where
  "demo h = set_handle h Idle demo_file demo_g (start new_oss)"

lemma demo_fs_facts:
  "m_fd_last demo_fs = 1" "getStub demo_fs ''/r'' = Some 0"
  "m_readtype (cell demo_fs 0) = ''random''"
  "open_fs ''/r'' 0 0 demo_fs = (2, g_blackholeFS demo_g)"
  by (simp_all add: demo_fs_def demo_g_def seed_eq om_find_def open_fs_read to_int_def)

lemma demo_g_facts:
  "\<lparr>g_blackholeFS = g_blackholeFS demo_g, g_statsManager = empty_manager\<rparr> = demo_g"
  "m_fd_last (g_blackholeFS demo_g) = 2" "m_size (cell (g_blackholeFS demo_g) 0) = 16"
  by (simp_all add: demo_g_def demo_fs_def seed_eq om_find_def open_fs_read)

lemma demo_file_facts:
  "m_stub demo_file = Some 0" "m_size_cached demo_file = 16" "m_isRandom demo_file"
  "m_path demo_file = ''/r''" "getStub (g_blackholeFS demo_g) ''/r'' = Some 0"
  by (simp_all add: demo_file_def demo_g_def demo_fs_def seed_eq om_find_def open_fs_read
      Open_finish_def Let_def)

lemma demo_reachable: "reachable new_oss (demo h)"
proof -
  let ?g0 = "\<lparr>g_blackholeFS = demo_fs, g_statsManager = empty_manager\<rparr>"
  let ?s1 = "(start new_oss)\<lparr>p_globals := ?g0\<rparr>"
  let ?s2 = "set_handle h Idle (newFile '''') ?g0 ?s1"
  let ?s3 = "set_handle h (Opening ''/r'' 0) (new_file\<lparr>m_path := ''/r''\<rparr>) demo_g ?s2"
  have "step (start new_oss) ?s1"
    using step.seed [of "start new_oss" "''random''" "''/r''" 16]
    by (simp add: start_def demo_fs_def)
  moreover have "step ?s1 ?s2"
    using step.new_file [of ?s1 h "''''"] by (simp add: start_def)
  moreover have "step ?s2 ?s3"
    by (rule step.open_begin [of _ _ "newFile ''''" _ _ 0 2])
      (simp_all add: start_def Open_begin_def demo_fs_facts newFile_def demo_g_facts(1))
  moreover have "step ?s3 (demo h)"
    using step.open_finish [of ?s3 h "''/r''" 0 "new_file\<lparr>m_path := ''/r''\<rparr>" 0 0]
    by (simp add: demo_def demo_file_def start_def)
  ultimately show ?thesis
    by - (rule reachable.step, rule reachable.step, rule reachable.step, rule reachable.step,
        rule reachable.start)
qed

lemma demo_at: "handles (demo h) h = Some (Idle, demo_file)" "p_globals (demo h) = demo_g"
  "handles (demo h) h' = (if h' = h then Some (Idle, demo_file) else None)"
  by (simp_all add: demo_def start_def)

text \<open>
  C35: In every reachable state the error counter on the metrics page reads 0: errors
  are only counted on handles that have no stub, and those never report a transfer.
\<close>

theorem errors_metric_stays_zero:
  assumes "reachable bhOss s"
  shows "map_of (scrape (buildMetrics (g_statsManager (p_globals s)))) ''blackhole_errors_total''
    = Some ''0''"
proof -
  have "m_total_errors (g_statsManager (p_globals s)) = 0"
    using reachable_inv [OF assms] by (simp add: plugin_inv_def)
  then show ?thesis
    by (simp add: map_of_metrics show_nat.simps [of 0] digit_def char_of_eq_iff)
qed

theorem errors_metric_stays_zero_witness:
  "map_of (scrape (buildMetrics (g_statsManager (p_globals (demo 7))))) ''blackhole_errors_total''
    = Some ''0''"
  by (rule errors_metric_stays_zero [OF demo_reachable])

text \<open>
  Two handles on one stub that were opened at the same size return the same count
  and the same bytes for the same read, also with the pseudo-random pattern.
\<close>

lemma handles_read_the_same:
  assumes "reachable bhOss s"
    and "handles s h1 = Some (ph1, f1)" and "handles s h2 = Some (ph2, f2)"
    and "m_stub f1 = Some r" and "m_stub f2 = Some r" and "m_size_cached f1 = m_size_cached f2"
  shows "fst (Read buff offset blen f1) = fst (Read buff offset blen f2) \<and>
    snd (snd (Read buff offset blen f1)) = snd (snd (Read buff offset blen f2))"
proof -
  have "handle_ok (p_fs s) f1" "handle_ok (p_fs s) f2"
    using reachable_inv [OF assms(1)] assms(2,3) by (auto simp: plugin_inv_def)
  then have "ReadInner f1 = ReadInner f2"
    using assms(4-6) by (intro ReadInner_cong) (auto simp: handle_ok_def)
  then show ?thesis using assms(4,5) by (simp add: Read_def case_prod_beta Let_def)
qed

text \<open>
  C34: In every state the server can reach between the halves of calls, Stat on a path
  and Fstat on a handle of the same stub agree on device 1, a non-zero inode and the
  size, but Fstat reports a regular file with mode 0666 and Stat reports mode 0.
\<close>

theorem stat_is_not_a_regular_file:
  assumes "reachable bhOss s" and "getStub (p_fs s) p = Some r" and "m_stub f = Some r"
  shows "let (rc1, st1) = Stat p buff (p_globals s); (rc2, st2) = Fstat buff f (p_globals s)
    in rc1 = 0 \<and> rc2 = 0 \<and> st_mode st1 = 0 \<and> st_mode st2 = 33206 \<and>
      st_dev st1 = 1 \<and> st_ino st1 \<noteq> 0 \<and> st_size st1 = m_size (cell (p_fs s) r) \<and>
      st2 = st1\<lparr>st_mode := 33206\<rparr>"
proof -
  have inv: "fs_inv (p_fs s)" "st_mode (m_stat (cell (p_fs s) r)) = 0"
    using reachable_inv [OF assms(1)] by (simp_all add: plugin_inv_def)
  then have "stub_ok (m_fd_last (p_fs s)) (cell (p_fs s) r)"
    using fs_inv_ref [OF inv(1) assms(2)] by (simp add: fs_inv_def)
  then show ?thesis
    using inv(2) assms(2,3) by (auto simp: Stat_def Fstat_def stub_ok_def)
qed

theorem stat_is_not_a_regular_file_witness:
  "st_mode (snd (Stat ''/r'' (m_stat new_stub) (p_globals (demo 7)))) = 0"
  using stat_is_not_a_regular_file [OF demo_reachable, of 7 "''/r''" 0 demo_file "m_stat new_stub"]
    demo_file_facts(1,5) by (simp add: demo_at case_prod_beta Let_def)

section \<open>Handles and steps\<close>

text \<open>One step moves one handle, and only a close reports a transfer.\<close>

definition closes :: "plugin \<Rightarrow> plugin \<Rightarrow> nat \<Rightarrow> bool" where
  "closes s s' h \<longleftrightarrow> (\<exists>f f'. handles s h = Some (Idle, f) \<and> handles s' h = Some (Closing, f'))"

lemma Open_begin_stats:
  "Open_begin path flags mode f g = (rc, f1, g1) \<Longrightarrow> g_statsManager g1 = g_statsManager g"
  by (auto simp: Open_begin_def case_prod_beta)

lemma Close_begin_stats:
  "Close_begin now r f g = (f1, g1) \<Longrightarrow> g_statsManager g1 = recordTransfer (m_stats f1) (g_statsManager g)"
  by (auto simp: Close_begin_def Let_def)

lemma Close_finish_stats: "Close_finish f g = (f1, g1) \<Longrightarrow> g_statsManager g1 = g_statsManager g"
  by (auto simp: Close_finish_def)

text \<open>
  Of all steps the server can take, only the first half of a close touches the
  statistics, and it adds exactly the record of the handle that closes.
\<close>

lemma transfer_recorded_at_close:
  assumes "step s s'"
  shows "(\<exists>h f'. closes s s' h \<and> handles s' h = Some (Closing, f') \<and>
      g_statsManager (p_globals s') = recordTransfer (m_stats f') (g_statsManager (p_globals s))) \<or>
    (\<nexists>h. closes s s' h) \<and> g_statsManager (p_globals s') = g_statsManager (p_globals s)"
  using assms
proof (cases rule: step.cases)
  case (close_begin h f r now f1 g1)
  then have "closes s s' h" "handles s' h = Some (Closing, f1)"
    by (auto simp: closes_def)
  moreover have "g_statsManager (p_globals s') = recordTransfer (m_stats f1) (g_statsManager (p_globals s))"
    using close_begin Close_begin_stats by simp
  ultimately show ?thesis by blast
qed (auto simp: closes_def Rename_def Unlink_def case_prod_beta Open_begin_stats Close_finish_stats
    split: if_splits)

text \<open>The calls as the code composes them are runs of steps.\<close>

lemma open_call_steps:
  assumes "handles s h = Some (Idle, f)" and "m_fd_last (p_fs s) \<noteq> - 1"
  shows "let (rc, f1, g1) = Open (p_oss s) path flags mode t0 now f (p_globals s)
      in step\<^sup>*\<^sup>* s (set_handle h Idle f1 g1 s)"
proof -
  obtain rc f1 g1 where o: "Open_begin path flags mode f (p_globals s) = (rc, f1, g1)"
    by (metis prod_cases3)
  let ?s1 = "set_handle h (Opening path flags) f1 g1 s"
  have "step\<^sup>*\<^sup>* s (set_handle h Idle f1 g1 s)" if "rc < 0"
    using step.open_fail [OF assms o that] by blast
  moreover have "step\<^sup>*\<^sup>* s (set_handle h Idle (Open_finish (p_oss s) path flags t0 now f1 g1) g1 s)"
    if "\<not> rc < 0"
  proof -
    have "step s ?s1" using step.open_begin [OF assms o] that by simp
    moreover have "step ?s1 (set_handle h Idle (Open_finish (p_oss s) path flags t0 now f1 g1) g1 ?s1)"
      using step.open_finish [of ?s1 h path flags f1 t0 now] by simp
    ultimately show ?thesis by (auto intro: rtranclp_trans)
  qed
  ultimately show ?thesis
    by (auto simp: Open_def o)
qed

lemma close_call_steps:
  assumes "handles s h = Some (Idle, f)"
  shows "let (rc, f1, g1) = Close t1 f (p_globals s)
      in step\<^sup>*\<^sup>* s (set_handle h Idle f1 g1 s)"
proof -
  have same: "set_handle h Idle f (p_globals s) s = s" using assms by (simp add: fun_upd_idem)
  show ?thesis
  proof (cases "m_stub f")
    case None
    then show ?thesis by (simp add: Close_def same [simplified])
  next
    case (Some r)
    obtain f1 g1 where b: "Close_begin t1 r f (p_globals s) = (f1, g1)" by (metis surj_pair)
    obtain f2 g2 where e: "Close_finish f1 g1 = (f2, g2)" by (metis surj_pair)
    let ?s1 = "set_handle h Closing f1 g1 s"
    have "step s ?s1" by (rule step.close_begin [OF assms Some b])
    moreover have "step ?s1 (set_handle h Idle f2 g2 ?s1)"
      using step.close_finish [of ?s1 h f1 f2 g2] e by simp
    ultimately have "step\<^sup>*\<^sup>* s (set_handle h Idle f2 g2 ?s1)" by (auto intro: rtranclp_trans)
    then show ?thesis by (simp add: Close_def Some b e)
  qed
qed

text \<open>Open and Close as the code composes them are runs of the step relation.\<close>

lemma calls_are_steps:
  assumes "handles s h = Some (Idle, f)" and "m_fd_last (p_fs s) \<noteq> - 1"
  shows "(let (rc, f1, g1) = Open (p_oss s) path flags mode t0 now f (p_globals s)
      in step\<^sup>*\<^sup>* s (set_handle h Idle f1 g1 s)) \<and>
    (let (rc, f1, g1) = Close t1 f (p_globals s) in step\<^sup>*\<^sup>* s (set_handle h Idle f1 g1 s))"
  by (intro conjI open_call_steps close_call_steps assms)

text \<open>Between the two halves of an open another client may remove the file.\<close>

lemma Unlink_gone:
  assumes "files_wf (g_blackholeFS g)" "Unlink path opts g = (0, g1)"
  shows "getStub (g_blackholeFS g1) path = None"
proof (cases "getStub (g_blackholeFS g) path")
  case None
  then show ?thesis using assms(2) by (auto simp: Unlink_def unlink_enoent)
next
  case (Some r)
  then have "getStub (g_blackholeFS g1) = (getStub (g_blackholeFS g))(path := None)"
    using unlink_ok(2) [OF assms(1), of path] assms(2) by (auto simp: Unlink_def case_prod_beta)
  then show ?thesis by simp
qed

end
