(* ===== verification/Server_Runs.thy ===== *)
theory Server_Runs
  imports Plugin
begin

text \<open>
  Whole runs of the server. What becomes of a stub that nothing points to any more (the
  code frees it when the last \<^verbatim>\<open>shared_ptr\<close> goes), and that every call which has taken
  its first half is finished in a fair run, whatever the other clients do meanwhile.
\<close>

section \<open>Stubs that nothing points to\<close>

text \<open>
  The \<^verbatim>\<open>shared_ptr\<close>s to a stub are the entry of the namespace map and the \<^verbatim>\<open>m_stub\<close> of
  the handles. The model never frees a stub; the code does, when the last pointer is gone.
\<close>

definition points_to :: "plugin \<Rightarrow> nat \<Rightarrow> bool" where
  "points_to s r \<longleftrightarrow> (\<exists>p. getStub (p_fs s) p = Some r) \<or>
     (\<exists>h ph f. handles s h = Some (ph, f) \<and> m_stub f = Some r)"

definition unlisted :: "bhfs \<Rightarrow> nat \<Rightarrow> bool" where
  "unlisted fs r \<longleftrightarrow> r < next_ref fs \<and> (\<forall>p. getStub fs p \<noteq> Some r)"

text \<open>No call of the namespace lists or writes a stub that it does not list.\<close>

definition keeps_unlisted :: "bhfs \<Rightarrow> bhfs \<Rightarrow> bool" where
  "keeps_unlisted fs fs' \<longleftrightarrow>
     (\<forall>r. unlisted fs r \<longrightarrow> unlisted fs' r \<and> cell fs' r = cell fs r)"

lemma keeps_unlisted_refl: "keeps_unlisted fs fs"
  by (simp add: keeps_unlisted_def)

lemma keeps_unlisted_trans:
  "keeps_unlisted a b \<Longrightarrow> keeps_unlisted b c \<Longrightarrow> keeps_unlisted a c"
  by (auto simp: keeps_unlisted_def)

lemma keeps_unlisted_erase:
  "files_wf fs \<Longrightarrow> keeps_unlisted fs (fs\<lparr>m_files := om_erase p (m_files fs)\<rparr>)"
  by (auto simp: keeps_unlisted_def unlisted_def files_wf_def om.find_del)

lemma keeps_unlisted_insert:
  "files_wf fs \<Longrightarrow> getStub fs q = Some r \<Longrightarrow>
   keeps_unlisted fs (fs\<lparr>m_files := om_insert p r (m_files fs)\<rparr>)"
  by (auto simp: keeps_unlisted_def unlisted_def files_wf_def om.find_ins)

lemma keeps_unlisted_create: "files_wf fs \<Longrightarrow> keeps_unlisted fs (snd (open_create p flags mode fs))"
  by (auto simp: keeps_unlisted_def unlisted_def files_wf_def open_create_eq om.find_ins)

lemma keeps_unlisted_seed: "files_wf fs \<Longrightarrow> keeps_unlisted fs (seed p n rt fs)"
  by (auto simp: keeps_unlisted_def unlisted_def files_wf_def seed_eq om.find_ins)

lemma keeps_unlisted_upd: "getStub fs p = Some r \<Longrightarrow> keeps_unlisted fs (upd_stub r k fs)"
  by (auto simp: keeps_unlisted_def unlisted_def upd_stub_def)

lemma keeps_unlisted_bump: "keeps_unlisted fs (fs\<lparr>m_fd_last := n\<rparr>)"
  by (simp add: keeps_unlisted_def unlisted_def)

lemma keeps_unlisted_open:
  assumes "files_wf fs"
  shows "keeps_unlisted fs (snd (open_fs p flags mode fs))"
proof -
  have wf: "files_wf (fs\<lparr>m_files := om_erase p (m_files fs)\<rparr>)"
    using assms by (simp add: files_wf_def om.wf_del)
  show ?thesis
    using keeps_unlisted_trans [OF keeps_unlisted_bump keeps_unlisted_upd]
      keeps_unlisted_trans [OF keeps_unlisted_erase [OF assms] keeps_unlisted_create [OF wf]]
    by (cases rule: open_fs_cases [of flags fs p])
      (auto simp: open_fs_simps keeps_unlisted_refl intro: keeps_unlisted_create [OF assms] keeps_unlisted_bump)
qed

lemma keeps_unlisted_close: "keeps_unlisted fs (close_fs p fs)"
  by (auto simp: close_fs_def keeps_unlisted_refl intro: keeps_unlisted_upd split: option.split)

lemma keeps_unlisted_unlink: "files_wf fs \<Longrightarrow> keeps_unlisted fs (snd (BlackholeFS.unlink p fs))"
  by (auto simp: unlink_def keeps_unlisted_refl keeps_unlisted_erase split: option.split)

lemma keeps_unlisted_rename:
  "files_wf fs \<Longrightarrow> keeps_unlisted fs (snd (rename_fs a b fs))"
  by (auto simp: keeps_unlisted_def unlisted_def rename_fs_def files_wf_def om.find_ins om.find_del
      om.wf_ins om.wf_del Let_def split: option.split if_splits)

text \<open>The handles: a step gives the moving handle no stub that was not listed.\<close>

definition handle_refs :: "bhfs \<Rightarrow> oss_file \<Rightarrow> oss_file \<Rightarrow> bool" where
  "handle_refs fs f f' \<longleftrightarrow>
     (\<forall>r. m_stub f' = Some r \<longrightarrow> m_stub f = Some r \<or> (\<exists>p. getStub fs p = Some r))"

definition dead :: "plugin \<Rightarrow> nat \<Rightarrow> bool" where
  "dead s r \<longleftrightarrow> r < next_ref (p_fs s) \<and> \<not> points_to s r"

lemma dead_unlisted: "dead s r \<Longrightarrow> unlisted (p_fs s) r"
  by (auto simp: dead_def unlisted_def points_to_def)

lemma dead_set_handle:
  assumes "dead s r" "keeps_unlisted (p_fs s) (g_blackholeFS g)"
    and "\<And>ph0 f0. handles s h = Some (ph0, f0) \<Longrightarrow> handle_refs (p_fs s) f0 f"
    and "handles s h = None \<Longrightarrow> m_stub f = None"
  shows "dead (set_handle h ph f g s) r"
proof -
  have keep: "unlisted (g_blackholeFS g) r"
    using assms(2) dead_unlisted [OF assms(1)] by (simp add: keeps_unlisted_def)
  have "m_stub f \<noteq> Some r"
    using assms(1,3,4) by (cases "handles s h") (auto simp: dead_def points_to_def handle_refs_def)
  then show ?thesis
    using keep assms(1) by (auto simp: dead_def points_to_def unlisted_def split: if_splits)
qed

lemma dead_globals:
  assumes "dead s r" "keeps_unlisted (p_fs s) (g_blackholeFS g)"
  shows "dead (s\<lparr>p_globals := g\<rparr>) r"
  using assms dead_unlisted [OF assms(1)]
  by (auto simp: dead_def points_to_def unlisted_def keeps_unlisted_def)

lemma keeps_unlisted_cell:
  "keeps_unlisted (p_fs s) fs' \<Longrightarrow> dead s r \<Longrightarrow> cell fs' r = cell (p_fs s) r"
  using dead_unlisted by (auto simp: keeps_unlisted_def)

lemma handle_refs_same: "m_stub f' = m_stub f \<Longrightarrow> handle_refs fs f f'"
  by (simp add: handle_refs_def)

lemma handle_refs_none: "m_stub f' = None \<Longrightarrow> handle_refs fs f f'"
  by (simp add: handle_refs_def)

lemma Open_begin_facts:
  "Open_begin path flags mode f g = (rc, f1, g1) \<Longrightarrow>
   m_stub f1 = m_stub f \<and> g_blackholeFS g1 = snd (open_fs path flags mode (g_blackholeFS g))"
  by (auto simp: Open_begin_def case_prod_beta)

lemma Close_begin_facts:
  "Close_begin now q f g = (f1, g1) \<Longrightarrow>
   m_stub f1 = m_stub f \<and> (\<forall>r. r \<noteq> q \<longrightarrow> cell (g_blackholeFS g1) r = cell (g_blackholeFS g) r) \<and>
   next_ref (g_blackholeFS g1) = next_ref (g_blackholeFS g) \<and>
   getStub (g_blackholeFS g1) = getStub (g_blackholeFS g)"
  by (auto simp: Close_begin_def upd_stub_def Let_def)

text \<open>A dead stub stays dead and keeps its contents.\<close>

lemma step_dead:
  assumes "step s s'" "plugin_inv s" "dead s r"
  shows "dead s' r \<and> cell (p_fs s') r = cell (p_fs s) r"
proof -
  have wf: "files_wf (p_fs s)" using assms(2) fs_inv_wf by (simp add: plugin_inv_def)
  show ?thesis
    using assms(1)
  proof (cases rule: step.cases)
    case (new_file h tident)
    then show ?thesis
      using dead_set_handle [OF assms(3), of "p_globals s" h "newFile tident" Idle]
      by (simp add: keeps_unlisted_refl newFile_def new_file_def)
  next
    case (open_fail h f path flags mode rc f1 g1)
    then have "keeps_unlisted (p_fs s) (g_blackholeFS g1)" "m_stub f1 = m_stub f"
      using Open_begin_facts keeps_unlisted_open [OF wf] by auto
    then show ?thesis
      using open_fail dead_set_handle [OF assms(3), of g1 h f1 Idle] keeps_unlisted_cell [OF _ assms(3)]
      by (simp add: handle_refs_same)
  next
    case (open_begin h f path flags mode rc f1 g1)
    then have "keeps_unlisted (p_fs s) (g_blackholeFS g1)" "m_stub f1 = m_stub f"
      using Open_begin_facts keeps_unlisted_open [OF wf] by auto
    then show ?thesis
      using open_begin dead_set_handle [OF assms(3), of g1 h f1 "Opening path flags"]
        keeps_unlisted_cell [OF _ assms(3)]
      by (simp add: handle_refs_same)
  next
    case (open_finish h path flags f t0 now)
    then show ?thesis
      using dead_set_handle [OF assms(3), of "p_globals s" h
          "Open_finish (p_oss s) path flags t0 now f (p_globals s)" Idle]
      by (auto simp: keeps_unlisted_refl handle_refs_def Open_finish_def Let_def)
  next
    case (io h f op)
    then show ?thesis
      using dead_set_handle [OF assms(3), of "p_globals s" h "snd (do_op op f)" Idle]
        same_open_do_op [of f op]
      by (simp add: keeps_unlisted_refl handle_refs_same same_open_def)
  next
    case (close_begin h f q now f1 g1)
    then have "q \<noteq> r" using assms(3) by (auto simp: dead_def points_to_def)
    with close_begin Close_begin_facts [OF close_begin(4)] assms(3) show ?thesis
      by (auto simp: dead_def points_to_def split: if_splits)
  next
    case (close_finish h f f1 g1)
    then have "keeps_unlisted (p_fs s) (g_blackholeFS g1)" "m_stub f1 = None"
      using keeps_unlisted_close by (auto simp: Close_finish_def)
    then show ?thesis
      using close_finish dead_set_handle [OF assms(3), of g1 h f1 Idle] keeps_unlisted_cell [OF _ assms(3)]
      by (simp add: handle_refs_none)
  next
    case (rename "from" to rc g1)
    then have "keeps_unlisted (p_fs s) (g_blackholeFS g1)"
      using keeps_unlisted_rename [OF wf] by (auto simp: Rename_def case_prod_beta)
    then show ?thesis
      using rename dead_globals [OF assms(3)] keeps_unlisted_cell [OF _ assms(3)] by simp
  next
    case (unlink path opts rc g1)
    then have "keeps_unlisted (p_fs s) (g_blackholeFS g1)"
      using keeps_unlisted_unlink [OF wf] by (auto simp: Unlink_def case_prod_beta)
    then show ?thesis
      using unlink dead_globals [OF assms(3)] keeps_unlisted_cell [OF _ assms(3)] by simp
  next
    case (seed rt path sz)
    then show ?thesis
      using dead_globals [OF assms(3)] keeps_unlisted_seed [OF wf] keeps_unlisted_cell [OF _ assms(3)]
      by simp
  qed
qed

lemma steps_dead:
  assumes "step\<^sup>*\<^sup>* s s'" "plugin_inv s" "dead s r"
  shows "dead s' r \<and> cell (p_fs s') r = cell (p_fs s) r"
  using assms
proof (induction rule: rtranclp_induct)
  case (step s1 s2)
  have "plugin_inv s1" using step(1) assms(2) by (induction rule: rtranclp_induct) (auto intro: step_inv)
  with step step_dead [OF step(2)] show ?case by auto
qed simp

text \<open>
  C15: A stub that neither the namespace nor any handle points to is never pointed to
  again and never changes, whatever the clients do, so freeing it when its last shared
  pointer goes is safe.
\<close>

theorem freed_stub_stays_unreachable:
  assumes "reachable bhOss s" and "r < next_ref (p_fs s)" and "\<not> points_to s r"
    and "step\<^sup>*\<^sup>* s s'"
  shows "\<not> points_to s' r \<and> cell (p_fs s') r = cell (p_fs s) r"
  using steps_dead [OF assms(4) reachable_inv [OF assms(1)]] assms(2,3) by (simp add: dead_def)

theorem freed_stub_stays_unreachable_witness:
  "\<exists>s s'. reachable new_oss s \<and> \<not> points_to s 0 \<and> step\<^sup>*\<^sup>* s s' \<and> getStub (p_fs s') ''/r'' = Some 1 \<and>
     \<not> points_to s' 0 \<and> m_size (cell (p_fs s') 0) = 16"
proof -
  let ?g = "\<lambda>fs. \<lparr>g_blackholeFS = fs, g_statsManager = empty_manager\<rparr>"
  let ?fs2 = "snd (BlackholeFS.unlink ''/r'' demo_fs)"
  let ?s1 = "(start new_oss)\<lparr>p_globals := ?g demo_fs\<rparr>"
  let ?s2 = "(start new_oss)\<lparr>p_globals := ?g ?fs2\<rparr>"
  let ?s3 = "(start new_oss)\<lparr>p_globals := ?g (seed ''/r'' 5 ''zeros'' ?fs2)\<rparr>"
  have fs2: "?fs2 = demo_fs\<lparr>m_files := []\<rparr>" "m_fd_last demo_fs = 1" "next_ref demo_fs = 1"
    "m_size (cell demo_fs 0) = 16"
    by (simp_all add: unlink_def demo_fs_def seed_eq om_find_def)
  have "step (start new_oss) ?s1"
    using step.seed [of "start new_oss" "''random''" "''/r''" 16]
    by (simp add: start_def demo_fs_def)
  moreover have "step ?s1 ?s2"
    using step.unlink [of "''/r''" 0 ?s1 "fst (BlackholeFS.unlink ''/r'' demo_fs)" "?g ?fs2"]
    by (simp add: Unlink_def case_prod_beta)
  ultimately have r: "reachable new_oss ?s2"
    by - (rule reachable.step, rule reachable.step, rule reachable.start)
  have st: "step ?s2 ?s3"
    using step.seed [of ?s2 "''zeros''" "''/r''" 5] by (simp add: fs2)
  have dead: "0 < next_ref (p_fs ?s2)" "\<not> points_to ?s2 0"
    by (simp_all add: points_to_def start_def fs2 getStub_def om_find_def)
  from freed_stub_stays_unreachable [OF r dead r_into_rtranclp [of step, OF st]]
  have "\<not> points_to ?s3 0 \<and> m_size (cell (p_fs ?s3) 0) = 16" by (simp add: fs2)
  moreover have "getStub (p_fs ?s3) ''/r'' = Some 1"
    by (simp add: fs2 seed_eq getStub_def om_find_def)
  ultimately show ?thesis using r dead(2) st by blast
qed

section \<open>Calls that are under way get finished\<close>

text \<open>
  A state predicate that only one action can end, and that action ends it well. If the
  action is not put off for ever, every run that meets the predicate gets to its end.
\<close>

locale leads_to =
  fixes next_state :: "'s \<Rightarrow> 's \<Rightarrow> bool" and holds :: "'s \<Rightarrow> bool"
    and action :: "'s \<Rightarrow> 's \<Rightarrow> bool" and outcome :: "'s \<Rightarrow> 's \<Rightarrow> bool"
  assumes stays: "next_state s s' \<Longrightarrow> holds s \<Longrightarrow> \<not> action s s' \<Longrightarrow> holds s'"
    and ends: "next_state s s' \<Longrightarrow> holds s \<Longrightarrow> action s s' \<Longrightarrow> outcome s s'"
begin

lemma holds_until:
  assumes "\<And>i. next_state (run i) (run (Suc i))" "holds (run i)"
    and "\<And>k. i \<le> k \<Longrightarrow> k < j \<Longrightarrow> \<not> action (run k) (run (Suc k))" "i \<le> j"
  shows "holds (run j)"
  using assms(4,3)
proof (induction j rule: dec_induct)
  case (step j)
  then show ?case using stays [OF assms(1) _ step.prems [of j]] by simp
qed (rule assms(2))

lemma reaches_outcome:
  assumes run: "\<And>i. next_state (run i) (run (Suc i))" and "holds (run i)"
    and fair: "(\<And>j. i \<le> j \<Longrightarrow> holds (run j)) \<Longrightarrow> \<exists>j\<ge>i. action (run j) (run (Suc j))"
  shows "\<exists>j\<ge>i. (\<forall>k\<in>{i..j}. holds (run k)) \<and> outcome (run j) (run (Suc j))"
proof -
  let ?act = "\<lambda>j. i \<le> j \<and> action (run j) (run (Suc j))"
  have ex: "\<exists>j. ?act j"
  proof (rule ccontr)
    assume "\<nexists>j. ?act j"
    then show False using fair holds_until [OF run assms(2)] by blast
  qed
  define j where "j = (LEAST j. ?act j)"
  have j: "?act j" unfolding j_def using ex by (rule LeastI_ex)
  have "\<not> ?act k" if "k < j" for k using that unfolding j_def by (rule not_less_Least)
  then have "holds (run k)" if "i \<le> k" "k \<le> j" for k
    using that by (intro holds_until [OF run assms(2)]) auto
  then show ?thesis using j ends [OF run] by auto
qed

end

text \<open>What the second half of an open or of a close leaves behind.\<close>

definition completed :: "nat \<Rightarrow> phase \<Rightarrow> oss_file \<Rightarrow> plugin \<Rightarrow> plugin \<Rightarrow> bool" where
  "completed h ph f s s' \<longleftrightarrow>
     (\<exists>f'. handles s' h = Some (Idle, f') \<and> (\<forall>h'. h' \<noteq> h \<longrightarrow> handles s' h' = handles s h') \<and>
        (case ph of
           Idle \<Rightarrow> False
         | Opening path flags \<Rightarrow>
             p_globals s' = p_globals s \<and> m_stub f' = getStub (p_fs s) (m_path f) \<and>
             m_writeBytes f' = 0 \<and> m_writeBytesAIO f' = 0 \<and> m_readBytes f' = 0 \<and>
             m_writeOps f' = 0 \<and> m_writeAioOps f' = 0 \<and> m_readOps f' = 0 \<and> m_errors f' = 0
         | Closing \<Rightarrow>
             m_stub f' = None \<and> p_fs s' = close_fs (m_path f) (p_fs s)))"

definition pending :: "nat \<Rightarrow> phase \<Rightarrow> oss_file \<Rightarrow> plugin \<Rightarrow> bool" where
  "pending h ph f s \<longleftrightarrow> handles s h = Some (ph, f) \<and> ph \<noteq> Idle"

definition moves :: "nat \<Rightarrow> plugin \<Rightarrow> plugin \<Rightarrow> bool" where
  "moves h s s' \<longleftrightarrow> handles s' h \<noteq> handles s h"

lemma pending_ends:
  assumes "step s s'" "pending h ph f s" "moves h s s'"
  shows "completed h ph f s s'"
  using assms
  by (cases rule: step.cases)
    (auto simp: pending_def moves_def completed_def Close_finish_def Open_finish_def out_bytes_def
      Let_def split: if_splits)

interpretation calls: leads_to step "pending h ph f" "moves h" "completed h ph f" for h ph f
  by unfold_locales (auto simp: pending_ends, simp add: pending_def moves_def)

text \<open>
  The scheduling assumption is weak fairness: the thread that runs a call on a handle is
  not stopped for ever between the two halves of the call.
\<close>

definition fair :: "(nat \<Rightarrow> plugin) \<Rightarrow> nat \<Rightarrow> bool" where
  "fair run h \<longleftrightarrow> (\<forall>i. (\<forall>j\<ge>i. \<exists>ph f. pending h ph f (run j)) \<longrightarrow>
     (\<exists>j\<ge>i. moves h (run j) (run (Suc j))))"

text \<open>
  C14: In every run in which the thread of a handle is not put off for ever, an Open or
  Close that has done its first half does its second: until then no other client touches
  the handle, and then it is idle with the stub its path leads to and all seven counters
  at zero, or without a stub and the write mark at its path cleared.
\<close>

theorem pending_call_completes:
  assumes "\<forall>i. step (run i) (run (Suc i))" and "fair run h" and "pending h ph f (run i)"
  shows "\<exists>j\<ge>i. (\<forall>k\<in>{i..j}. pending h ph f (run k)) \<and> completed h ph f (run j) (run (Suc j))"
  using assms unfolding fair_def by (intro calls.reaches_outcome) blast+

theorem pending_call_completes_witness:
  "\<exists>run f. (\<forall>i. step (run i) (run (Suc i))) \<and> fair run 7 \<and> pending 7 Closing f (run 0) \<and>
     (\<exists>j f'. handles (run j) 7 = Some (Idle, f') \<and> m_stub f' = None)"
proof -
  obtain f1 g1 where c: "Close_begin 5 0 demo_file demo_g = (f1, g1)" by (metis surj_pair)
  obtain f2 g2 where e: "Close_finish f1 g1 = (f2, g2)" by (metis surj_pair)
  let ?c = "set_handle 7 Closing f1 g1 (demo 7)" and ?d = "set_handle 7 Idle f2 g2 (demo 7)"
  let ?run = "\<lambda>i :: nat. if i = 0 then ?c else ?d"
  have st: "step ?c ?d" using step.close_finish [of ?c 7 f1 f2 g2] e by simp
  have "Rename ''/x'' ''/x'' g2 = (- ENOENT, g2)" if "getStub (g_blackholeFS g2) ''/x'' = None"
    using that by (simp add: Rename_def rename_fs_enoent)
  moreover have "getStub (g_blackholeFS g2) ''/x'' = None"
  proof -
    have "getStub (g_blackholeFS g2) = getStub (g_blackholeFS g1)"
      using e by (auto simp: Close_finish_def close_fs_def split: option.split)
    then show ?thesis
      using Close_begin_facts [OF c] by (simp add: demo_g_def demo_fs_def seed_eq open_fs_read om_find_def)
  qed
  ultimately have "step ?d (?d\<lparr>p_globals := g2\<rparr>)"
    by (intro step.rename [of "''/x''" "''/x''" _ "- ENOENT"]) simp
  moreover have "?d\<lparr>p_globals := g2\<rparr> = ?d" by (rule plugin.equality) simp_all
  ultimately have "step ?d ?d" by (simp only:)
  then have run: "\<forall>i. step (?run i) (?run (Suc i))" using st by auto
  have idle: "\<not> pending 7 ph f (?run (Suc i))" for ph f i by (auto simp: pending_def)
  have fair: "fair ?run 7" unfolding fair_def
  proof (intro allI impI)
    fix i assume "\<forall>j\<ge>i. \<exists>ph f. pending 7 ph f (?run j)"
    then show "\<exists>j\<ge>i. moves 7 (?run j) (?run (Suc j))"
      using idle [of _ _ i] by (meson le_SucI order_refl)
  qed
  have pend: "pending 7 Closing f1 (?run 0)" by (simp add: pending_def)
  obtain j where "completed 7 Closing f1 (?run j) (?run (Suc j))"
    using pending_call_completes [OF run fair pend] by blast
  then have "\<exists>f'. handles (?run (Suc j)) 7 = Some (Idle, f') \<and> m_stub f' = None"
    by (auto simp: completed_def)
  then show ?thesis using run fair pend by (intro exI [of _ ?run] exI [of _ f1]) blast
qed

end
