(* ===== verification/Configured_Server.thy ===== *)
theory Configured_Server
  imports Server_Runs
begin

text \<open>
  From the configuration file to the running server: reading a configuration comes to an
  end, what it leaves behind is a state the server can be in, and a file it announces is
  served with the size and the pattern the file says, down to the metrics page.
\<close>

section \<open>Reading a configuration comes to an end\<close>

text \<open>
  The one thing C leaves undefined: a numbered seedfile (one whose options ask for more
  than one file) whose path is not a format for one \<^verbatim>\<open>int\<close>. The path of a
  seedfile line that is not numbered may be any word, as is the path of a numbered one
  that the reader refuses because it has no percent sign.
\<close>

definition numbered :: "string list \<Rightarrow> bool" where
  "numbered ws \<longleftrightarrow>
     (case ws of
        path # sizeval # opts \<Rightarrow>
          parse_size sizeval \<noteq> None \<and> CHR ''%'' \<in> set path \<and>
          (\<exists>count rt. line_options opts 1 ''zeros'' = Some (count, rt) \<and> 1 < count)
      | _ \<Rightarrow> False)"

definition path_formats_ok :: "string list list \<Rightarrow> bool" where
  "path_formats_ok ls \<longleftrightarrow>
     (\<forall>v ws. (v # ws) \<in> set ls \<and> map_of k_directives v = Some Seedfile \<and> numbered ws \<longrightarrow>
        (\<forall>i. snprintf_int (hd ws) i \<noteq> None))"

lemma seed_numbered_total:
  "(\<And>i. snprintf_int path i \<noteq> None) \<Longrightarrow> seed_numbered k i path sz rt fs \<noteq> None"
  by (induction k arbitrary: i fs) (auto split: option.splits)

text \<open>The options never ask for no file at all: a count of 0 is refused.\<close>

lemma line_options_count:
  "line_options ts count rt = Some (n, rt1) \<Longrightarrow> 1 \<le> count \<Longrightarrow> 1 \<le> n"
proof (induction ts count rt rule: line_options.induct)
  case (2 t ts count readtype)
  have "1 \<le> v" if "v \<noteq> 0" for v :: u64 using that by (simp add: word_le_nat_alt unat_gt_0 Suc_le_eq)
  with 2 show ?case by (auto split: if_splits prod.splits)
qed simp

lemma line_directive_total:
  assumes "d = Seedfile \<Longrightarrow> numbered ws \<Longrightarrow> (\<And>i. snprintf_int (hd ws) i \<noteq> None)"
  shows "line_directive d ws this fs \<noteq> None"
proof (cases d)
  case Seedfile
  have "line_seedfile ws fs \<noteq> None" if "\<not> numbered ws"
    using that line_options_count [of _ 1 "''zeros''"]
    by (cases "(ws, fs)" rule: line_seedfile.cases)
      (fastforce simp: numbered_def word_gt_0 split: option.splits)+
  moreover have "line_seedfile ws fs \<noteq> None" if "numbered ws"
    using assms [OF Seedfile that] seed_numbered_total
    by (cases "(ws, fs)" rule: line_seedfile.cases) (auto split: option.splits)
  ultimately have "line_seedfile ws fs \<noteq> None" by blast
  then show ?thesis using Seedfile by simp
qed (auto split: list.split prod.split)

lemma configure_lines_total: "path_formats_ok ls \<Longrightarrow> configure_lines ls n this fs \<noteq> None"
proof (induction ls n this fs rule: configure_lines.induct)
  case (2 ls n this fs)
  then show ?case by (simp add: path_formats_ok_def)
next
  case (3 v ws ls n this fs)
  have ls: "path_formats_ok ls" using "3.prems" by (auto simp: path_formats_ok_def)
  show ?case
  proof (cases "map_of k_directives v")
    case None
    then show ?thesis using 3 ls by simp
  next
    case (Some d)
    have "line_directive d ws this fs \<noteq> None"
    proof (rule line_directive_total)
      fix i
      assume "d = Seedfile" "numbered ws"
      then show "snprintf_int (hd ws) i \<noteq> None"
        using "3.prems" Some by (auto simp: path_formats_ok_def)
    qed
    then obtain ok this1 fs1 where d: "line_directive d ws this fs = Some (ok, this1, fs1)" by auto
    then show ?thesis using "3.IH"(2) [OF Some d refl refl ls] Some by simp
  qed
qed simp

text \<open>
  C13: Reading a configuration always comes to an end, whatever the file holds, if the
  tokeniser behaves as documented and the paths of numbered seedfiles (those with a
  count above 1) are formats C defines; other paths may be any word.
\<close>

theorem configure_terminates:
  assumes "stream_laws ops words lines"
    and "\<forall>fn st. Attach ops fn = Inr st \<longrightarrow> path_formats_ok (lines st)"
  shows "\<exists>rc this1 fs1. Configure ops configfn this fs = Some (rc, this1, fs1)"
proof -
  have loop: "configure_loop ops st 0 this fs \<noteq> None" if "Attach ops fn = Inr st" for fn st
  proof -
    obtain st1 where "configure_loop ops st 0 this fs =
      map_option (\<lambda>(n1, this1, fs1). (n1, this1, fs1, st1)) (configure_lines (lines st) 0 this fs)"
      using configure_loop_lines [OF assms(1)] by blast
    then show ?thesis using configure_lines_total assms(2) that by auto
  qed
  then have "Configure ops configfn this fs \<noteq> None"
    by (auto simp: Configure_def Let_def dest: loop split: option.splits sum.splits)
  then show ?thesis by auto
qed

text \<open>A numbered path that is a format, and one that is none in a line without a count.\<close>

theorem configure_terminates_witness:
  "\<exists>rc this1 fs1. Configure (list_stream [[''blackhole.seedfile'', ''/a%%'', ''1'', ''count=9''],
       [''blackhole.seedfile'', ''/a%b'', ''1k''], [''zzz'']])
     (Some ''/etc/x'') new_oss empty_fs = Some (rc, this1, fs1)"
proof (rule configure_terminates [OF list_stream_laws])
  have "snprintf_int ''/a%%'' i \<noteq> None" for i
    by (simp add: snprintf_int_def format_int.simps starts_with_def)
  moreover have "\<not> numbered [''/a%b'', ''1k'']" by (simp add: numbered_def)
  ultimately show "\<forall>fn st. Attach (list_stream [[''blackhole.seedfile'', ''/a%%'', ''1'', ''count=9''],
       [''blackhole.seedfile'', ''/a%b'', ''1k''], [''zzz'']]) fn
      = Inr st \<longrightarrow> path_formats_ok (snd st)"
    by (auto simp: list_stream_def path_formats_ok_def k_directives_def)
qed

section \<open>A configuration only seeds files\<close>

definition seeds :: "bhfs \<Rightarrow> bhfs \<Rightarrow> bool" where
  "seeds fs fs' \<longleftrightarrow> (\<exists>p sz rt. rt \<in> read_patterns \<and> fs' = seed p sz rt fs)"

lemma seeds_one: "rt \<in> read_patterns \<Longrightarrow> seeds\<^sup>*\<^sup>* fs (seed p sz rt fs)"
  by (rule r_into_rtranclp) (auto simp: seeds_def)

lemma seeds_defaults: "seeds\<^sup>*\<^sup>* fs (create_defaults p fs)"
  unfolding create_defaults_eq by (rule rtranclp_trans [OF rtranclp_trans]; rule seeds_one; simp)

lemma seeds_numbered:
  "seed_numbered k i path sz rt fs = Some (ok, fs1) \<Longrightarrow> rt \<in> read_patterns \<Longrightarrow> seeds\<^sup>*\<^sup>* fs fs1"
proof (induction k arbitrary: i fs)
  case (Suc k)
  have "seeds fs (seed p sz rt fs)" for p using Suc.prems(2) by (auto simp: seeds_def)
  then show ?case using Suc
    by (auto split: option.splits if_splits intro: converse_rtranclp_into_rtranclp)
qed simp

lemma line_options_pattern:
  "line_options ts count rt = Some (n, rt1) \<Longrightarrow> rt \<in> read_patterns \<Longrightarrow> rt1 \<in> read_patterns"
  by (induction ts count rt rule: line_options.induct) (auto split: if_splits prod.splits)

lemma seeds_seedfile:
  assumes "line_seedfile ws fs = Some (ok, fs1)"
  shows "seeds\<^sup>*\<^sup>* fs fs1"
proof -
  show ?thesis
  proof (cases "(ws, fs)" rule: line_seedfile.cases)
    case (1 path sizeval opts fs')
    show ?thesis
    proof (cases "parse_size sizeval = None \<or> line_options opts 1 ''zeros'' = None")
      case True
      then have "fs1 = fs" using assms 1 by (auto split: option.splits)
      then show ?thesis by simp
    next
      case False
      then obtain sz count rt where opts: "parse_size sizeval = Some sz"
        "line_options opts 1 ''zeros'' = Some (count, rt)" by auto
      have rt: "rt \<in> read_patterns" by (rule line_options_pattern [OF opts(2)]) simp
      have "fs1 = fs \<or> fs1 = seed path sz rt fs \<or>
        seed_numbered (unat count) 0 path sz rt fs = Some (ok, fs1)"
        using assms 1 opts by (simp split: if_splits)
      then show ?thesis using seeds_one [OF rt] seeds_numbered [OF _ rt] by blast
    qed
  qed (use assms in auto)
qed

lemma seeds_directive: "line_directive d ws this fs = Some (ok, this1, fs1) \<Longrightarrow> seeds\<^sup>*\<^sup>* fs fs1"
  using seeds_seedfile seeds_defaults
  by (cases d) (auto split: list.splits prod.splits if_splits)

lemma seeds_configure: "configure_lines ls n this fs = Some (rc, this1, fs1) \<Longrightarrow> seeds\<^sup>*\<^sup>* fs fs1"
proof (induction ls n this fs rule: configure_lines.induct)
  case (3 v ws ls n this fs)
  show ?case
  proof (cases "map_of k_directives v")
    case None
    then show ?thesis using 3 by simp
  next
    case (Some d)
    then obtain ok this2 fs2 where d: "line_directive d ws this fs = Some (ok, this2, fs2)"
      using "3.prems" by (auto split: option.splits)
    then have "seeds\<^sup>*\<^sup>* fs2 fs1"
      using "3.IH"(2) [OF Some d refl refl] "3.prems" Some by simp
    then show ?thesis by (rule rtranclp_trans [OF seeds_directive [OF d]])
  qed
qed simp_all

text \<open>The state the server starts in once it is configured.\<close>

definition serve :: "oss \<Rightarrow> bhfs \<Rightarrow> plugin" where
  "serve bhOss fs =
     (start bhOss)\<lparr>p_globals := \<lparr>g_blackholeFS = fs, g_statsManager = empty_manager\<rparr>\<rparr>"

text \<open>While fewer than 2^64 files are made the descriptor counter is their number.\<close>

lemma seeds_reachable:
  assumes "seeds\<^sup>*\<^sup>* empty_fs fs" "next_ref fs < 2 ^ 64"
  shows "reachable bhOss (serve bhOss fs) \<and> uint (m_fd_last fs) = int (next_ref fs)"
  using assms
proof (induction rule: rtranclp_induct)
  case base
  have "serve bhOss empty_fs = start bhOss" by (simp add: serve_def start_def)
  then show ?case by (simp add: reachable.start)
next
  case (step fs fs')
  obtain p sz rt where s: "rt \<in> read_patterns" "fs' = seed p sz rt fs"
    using step(2) by (auto simp: seeds_def)
  have room: "int (next_ref fs) + 1 \<le> 2 ^ 64 - 1" using step.prems by (simp add: s(2) seed_eq)
  then have ih: "reachable bhOss (serve bhOss fs)" "uint (m_fd_last fs) = int (next_ref fs)"
    using step.IH by simp_all
  have fd: "uint (m_fd_last fs + 1) = int (next_ref fs) + 1"
    using uint_Suc_room [of "m_fd_last fs"] room ih(2) by simp
  have "m_fd_last fs \<noteq> - 1" using fd by auto
  then have "step (serve bhOss fs) (serve bhOss fs')"
    using step.seed [of "serve bhOss fs" rt p sz] s by (simp add: serve_def)
  then show ?case using ih(1) fd by (auto simp: s(2) seed_eq intro: reachable.step)
qed

section \<open>The types the running server keeps\<close>

definition patterns_known :: "bhfs \<Rightarrow> bool" where
  "patterns_known fs \<longleftrightarrow> (\<forall>r < next_ref fs. m_readtype (cell fs r) \<in> read_patterns)"

lemma patterns_upd:
  "(\<And>st. m_readtype (k st) = m_readtype st) \<Longrightarrow> patterns_known fs \<Longrightarrow> patterns_known (upd_stub r k fs)"
  by (simp add: patterns_known_def upd_stub_def)

lemma patterns_create: "patterns_known fs \<Longrightarrow> patterns_known (snd (open_create p flags mode fs))"
  by (simp add: patterns_known_def open_create_eq less_Suc_eq)

lemma patterns_seed: "patterns_known fs \<Longrightarrow> rt \<in> read_patterns \<Longrightarrow> patterns_known (seed p n rt fs)"
  by (auto simp: patterns_known_def seed_eq less_Suc_eq)

lemma patterns_same:
  "cell fs' = cell fs \<Longrightarrow> next_ref fs' = next_ref fs \<Longrightarrow> patterns_known fs \<Longrightarrow> patterns_known fs'"
  by (simp add: patterns_known_def)

lemma patterns_open: "patterns_known fs \<Longrightarrow> patterns_known (snd (open_fs p flags mode fs))"
  by (cases rule: open_fs_cases [of flags fs p])
    (auto simp: open_fs_simps intro!: patterns_upd patterns_create intro: patterns_same [of _ fs])

lemma patterns_close: "patterns_known fs \<Longrightarrow> patterns_known (close_fs p fs)"
  by (auto simp: close_fs_def intro: patterns_upd split: option.split)

lemma patterns_unlink: "patterns_known fs \<Longrightarrow> patterns_known (snd (BlackholeFS.unlink p fs))"
  by (auto simp: unlink_def intro: patterns_same [of _ fs] split: option.split)

lemma patterns_rename: "patterns_known fs \<Longrightarrow> patterns_known (snd (rename_fs a b fs))"
  by (auto simp: rename_fs_def Let_def intro: patterns_same [of _ fs] split: option.split)

lemma patterns_Close_begin:
  assumes "patterns_known (g_blackholeFS g)" "Close_begin now r f g = (f1, g1)"
  shows "patterns_known (g_blackholeFS g1)"
proof -
  have "patterns_known (upd_stub r (set_size n) (g_blackholeFS g))" for n
    by (rule patterns_upd [OF _ assms(1)]) simp
  then show ?thesis
    using assms by (auto simp: Close_begin_def Let_def set_size_def [abs_def] out_bytes_def)
qed

lemma step_patterns:
  assumes "step s s'" "patterns_known (p_fs s)"
  shows "patterns_known (p_fs s') \<and> p_oss s' = p_oss s"
  using assms
  by (cases rule: step.cases)
    (auto simp: Rename_def Unlink_def Close_finish_def Open_begin_facts case_prod_beta
      intro: patterns_open patterns_close patterns_unlink patterns_rename patterns_Close_begin
      intro!: patterns_seed)

lemma steps_patterns:
  assumes "step\<^sup>*\<^sup>* s s'" "patterns_known (p_fs s)"
  shows "patterns_known (p_fs s') \<and> p_oss s' = p_oss s"
  using assms by (induction rule: rtranclp_induct) (auto dest: step_patterns)

lemma seeds_patterns: "seeds\<^sup>*\<^sup>* fs fs' \<Longrightarrow> patterns_known fs \<Longrightarrow> patterns_known fs'"
  by (induction rule: rtranclp_induct) (auto simp: seeds_def intro!: patterns_seed)

lemma configured_reachable:
  assumes "configure_lines ls 0 new_oss empty_fs = Some (rc, this1, fs1)" "next_ref fs1 < 2 ^ 64"
    and "step\<^sup>*\<^sup>* (serve this1 fs1) s"
  shows "reachable this1 s"
  using assms(3)
proof (induction rule: rtranclp_induct)
  case base
  show ?case using seeds_reachable [OF seeds_configure [OF assms(1)] assms(2)] by simp
qed (rule reachable.step)

text \<open>
  C9: Whatever the configuration file says, the server it starts stays typed: the result
  is 0 or 1, every later state is a reachable one, the write speed stays below 2^31 - 1,
  every stub has one of the two patterns the reader knows, and the flag an open handle
  caches names the pattern of its stub.
\<close>

theorem configured_server_typed:
  assumes "stream_laws ops words lines" and "\<forall>st. LastError ops st = 0"
    and "fn \<noteq> ''''" and "Attach ops fn = Inr st"
    and "Configure ops (Some fn) new_oss empty_fs = Some (rc, this1, fs1)"
    and "next_ref fs1 < 2 ^ 64" and "step\<^sup>*\<^sup>* (serve this1 fs1) s"
  shows "rc \<in> {0, 1} \<and> reachable this1 s \<and> uint (writespeedMiBs (p_oss s)) < 2147483647 \<and>
    m_readtype_oss (p_oss s) = ''zeros'' \<and>
    (\<forall>r < next_ref (p_fs s). m_readtype (cell (p_fs s) r) \<in> {''zeros'', ''random''}) \<and>
    (\<forall>h ph f r. handles s h = Some (ph, f) \<and> m_stub f = Some r \<longrightarrow>
      m_readtype (cell (p_fs s) r) = (if m_isRandom f then ''random'' else ''zeros''))"
proof -
  have c: "configure_lines (lines st) 0 new_oss empty_fs = Some (rc, this1, fs1)"
    using assms(5) Configure_lines [OF assms(1-4)] by simp
  have range: "uint (m_writespeedMiBs this1) < 2147483647 \<and> m_readtype_oss this1 = ''zeros'' \<and> rc \<in> {0, 1}"
    by (rule configure_lines_range [OF c]) (simp_all add: new_oss_def)
  have r: "reachable this1 s" by (rule configured_reachable [OF c assms(6,7)])
  have "patterns_known fs1"
    by (rule seeds_patterns [OF seeds_configure [OF c]]) (simp add: patterns_known_def)
  then have t: "patterns_known (p_fs s)" "p_oss s = this1"
    using steps_patterns [OF assms(7)] by (simp_all add: serve_def start_def)
  have "m_readtype (cell (p_fs s) q) = (if m_isRandom f then ''random'' else ''zeros'')"
    if "handles s h = Some (ph, f)" "m_stub f = Some q" for h ph f q
  proof -
    have "handle_ok (p_fs s) f" using reachable_inv [OF r] that(1) by (auto simp: plugin_inv_def)
    with t(1) that(2) show ?thesis by (auto simp: handle_ok_def patterns_known_def)
  qed
  then show ?thesis using range r t by (auto simp: patterns_known_def writespeedMiBs_def)
qed

theorem configured_server_typed_witness:
  "\<exists>this1. Configure (list_stream [[''blackhole.readtype'', ''ones'']]) (Some ''/etc/x'') new_oss
       empty_fs = Some (1, this1, empty_fs) \<and> reachable this1 (serve this1 empty_fs) \<and>
     uint (writespeedMiBs this1) < 2147483647"
proof -
  let ?ops = "list_stream [[''blackhole.readtype'', ''ones'']]"
  have at: "Attach ?ops ''/etc/x'' = Inr ([], [[''blackhole.readtype'', ''ones'']])"
    "\<forall>st. LastError ?ops st = 0" "''/etc/x'' \<noteq> ''''"
    by (simp_all add: list_stream_def)
  have c: "Configure ?ops (Some ''/etc/x'') new_oss empty_fs = Some (1, new_oss, empty_fs)"
    unfolding Configure_lines [OF list_stream_laws at(2,3,1)] by (simp add: k_directives_def)
  have "next_ref empty_fs < 2 ^ 64" by simp
  from configured_server_typed [OF list_stream_laws at(2,3,1) c this rtranclp.rtrancl_refl]
  show ?thesis using c by (intro exI [of _ new_oss]) (simp add: serve_def start_def)
qed

section \<open>From a seedfile line to the metrics page\<close>

text \<open>A configuration file in which one line is for the plugin: a seedfile line.\<close>

definition foreign :: "string list \<Rightarrow> bool" where
  "foreign l \<longleftrightarrow> l = [] \<or> map_of k_directives (hd l) = None"

lemma configure_lines_foreign:
  "list_all foreign ls \<Longrightarrow> configure_lines (ls @ ls') n this fs = configure_lines ls' n this fs"
proof (induction ls)
  case (Cons l ls)
  then show ?case by (cases l) (auto simp: foreign_def)
qed simp

lemma configure_one_seedfile:
  assumes "list_all foreign before" "list_all foreign after"
    and "parse_size sizeval = Some sz" "rt \<in> read_patterns"
  shows "configure_lines (before @ [''blackhole.seedfile'', p, sizeval, ''type='' @ rt] # after) 0
    new_oss empty_fs = Some (0, new_oss, seed p sz rt empty_fs)"
proof -
  have "line_options [''type='' @ rt] 1 ''zeros'' = Some (1, rt)"
    using assms(4) by (auto simp: starts_with_def)
  then show ?thesis
    using assms(3) configure_lines_foreign [OF assms(1)] configure_lines_foreign [OF assms(2), of "[]"]
    by (simp add: k_directives_def)
qed

text \<open>One open for reading, one read and the close on a file that is there.\<close>

lemma read_session:
  assumes "getStub (g_blackholeFS g) p = Some r" "uint (m_fd_last (g_blackholeFS g)) + 1 < 2 ^ 31"
    and "s = cell (g_blackholeFS g) r" "uint blen < 2 ^ 63" "unat blen \<le> length buff"
  obtains f1 f2 f3 g1 g2 k where
    "Open bhOss p 0 mode t0 now f g = (0, f1, g1)"
    "Read buff offset blen f1 = (of_nat k, f2, content f1 k offset @ drop k buff)"
    "Close t1 f2 g1 = (0, f3, g2)"
    "k = (if sint offset < 0 \<or> uint (m_size s) \<le> sint offset then 0
          else nat (min (uint blen) (uint (m_size s) - sint offset)))"
    "m_isRandom f1 \<longleftrightarrow> m_readtype s = ''random''" "m_ino f1 = st_ino (m_stat s)"
    "g_statsManager g2 = recordTransfer (close_stats t1 f2) (g_statsManager g)"
    "bytes_read (close_stats t1 f2) = of_nat k" "bytes_written (close_stats t1 f2) = 0"
    "k < 2 ^ 63"
proof -
  let ?fs = "g_blackholeFS g"
  let ?fs' = "upd_stub r (\<lambda>s. s\<lparr>m_flags := 0, m_mode := mode\<rparr>)
    (?fs\<lparr>m_fd_last := m_fd_last ?fs + 1\<rparr>)"
  let ?g1 = "g\<lparr>g_blackholeFS := ?fs'\<rparr>"
  have op: "open_fs p 0 mode ?fs = (uint (m_fd_last ?fs) + 1, ?fs')"
    using assms(1) next_fd(1) [OF assms(2)] by (simp add: open_fs_read)
  define f1 where "f1 = Open_finish bhOss p 0 t0 now (f\<lparr>m_path := p\<rparr>) ?g1"
  have o: "Open bhOss p 0 mode t0 now f g = (0, f1, ?g1)"
    unfolding f1_def using Open_ok [OF op] assms(1) uint_nonnegative [of "m_fd_last ?fs"] by simp
  have "getStub (g_blackholeFS ?g1) (m_path (f\<lparr>m_path := p\<rparr>)) = Some r" using assms(1) by simp
  note f1 = Open_finish_fields [OF this f1_def refl]
  let ?k = "read_count f1 offset blen"
  let ?f2 = "account_read ?k f1"
  have rd: "Read buff offset blen f1 = (of_nat ?k, ?f2, content f1 ?k offset @ drop ?k buff)"
    using Read_open [OF f1(1) assms(4)] ReadInner_eq [OF assms(5), of f1 offset] by simp
  have f2: "m_stub ?f2 = Some r" "out_bytes ?f2 = 0" "m_readBytes ?f2 = of_nat ?k"
    using f1 by (simp_all add: account_read_def out_bytes_def)
  have c: "\<exists>f3 g2. Close t1 ?f2 ?g1 = (0, f3, g2) \<and>
      g_statsManager g2 = recordTransfer (close_stats t1 ?f2) (g_statsManager g)"
    by (simp add: Close_eq [OF f2(1)])
  then obtain f3 g2 where c: "Close t1 ?f2 ?g1 = (0, f3, g2)"
    "g_statsManager g2 = recordTransfer (close_stats t1 ?f2) (g_statsManager g)" by blast
  have k: "?k = (if sint offset < 0 \<or> uint (m_size s) \<le> sint offset then 0
      else nat (min (uint blen) (uint (m_size s) - sint offset)))"
    using f1(3) assms(3) by (simp add: read_count_def)
  show ?thesis
    by (rule that [OF o rd c(1) k _ _ c(2) _ _ read_count_small [OF assms(4)]])
      (use f1 f2 assms(3) in \<open>simp_all add: close_stats_def\<close>)
qed

lemma show_i64_of_nat: "k < 2 ^ 63 \<Longrightarrow> show_i64 (of_nat k) = show_nat k"
  by (simp add: show_int_def sint_of_nat_small)

text \<open>
  C7: A configuration file with one seedfile line (a size with a suffix, a type) among
  lines of other plugins makes the factory's plugin serve that file: an open for
  reading, a read and the close succeed, the read delivers min(blen, size - offset)
  bytes of the named pattern, and the metrics page then shows exactly those bytes and
  one read transfer, or none when no byte was read.
\<close>

theorem seedfile_line_to_metrics:
  assumes "stream_laws ops words lines" and "\<forall>st. LastError ops st = 0"
    and "fn \<noteq> ''''" and "Attach ops fn = Inr st"
    and "lines st = before @ [''blackhole.seedfile'', p, show_nat n @ [c], ''type='' @ rt] # after"
    and "list_all foreign before" and "list_all foreign after"
    and "(c, unit) \<in> set size_units" and "n * unit < 2 ^ 63" and "rt \<in> {''zeros'', ''random''}"
    and "uint blen < 2 ^ 63" and "unat blen \<le> length buff"
  shows "\<exists>this1 fs1. construct_oss ops (Some fn) empty_fs = Some (this1, fs1) \<and>
    (let (rc, f1, g1) = Open this1 p 0 mode t0 now f
           \<lparr>g_blackholeFS = fs1, g_statsManager = empty_manager\<rparr>;
         (cnt, f2, out) = Read buff offset blen f1;
         (rc', f3, g2) = Close t1 f2 g1;
         k = (if sint offset < 0 \<or> int (n * unit) \<le> sint offset then 0
              else nat (min (uint blen) (int (n * unit) - sint offset)));
         scraped = map_of (scrape (buildMetrics (g_statsManager g2)))
     in rc = 0 \<and> rc' = 0 \<and> cnt = of_nat k \<and>
        out = (if rt = ''random'' then lcg_stream k (offset XOR 1) else replicate k 0) @ drop k buff \<and>
        scraped ''blackhole_bytes_read_total'' = Some (show_nat k) \<and>
        scraped (''blackhole_transfers_total{op='' @ [QUOTE] @ ''read'' @ [QUOTE] @ ''}'') =
          Some (show_nat (if k = 0 then 0 else 1)) \<and>
        scraped ''blackhole_bytes_written_total'' = Some (show_nat 0))"
proof -
  let ?sz = "of_nat (n * unit) :: u64" and ?fs = "seed p (of_nat (n * unit)) rt empty_fs"
  let ?g = "\<lparr>g_blackholeFS = ?fs, g_statsManager = empty_manager\<rparr>"
  have n: "n < 2 ^ 64"
    using assms(8,9) by (auto simp: size_units_def)
  have "configure_lines (lines st) 0 new_oss empty_fs = Some (0, new_oss, ?fs)"
    unfolding assms(5)
    by (rule configure_one_seedfile [OF assms(6,7) parse_size_suffix [OF n assms(8)]])
      (use assms(10) in simp)
  then have con: "construct_oss ops (Some fn) empty_fs = Some (new_oss, ?fs)"
    using Configure_lines [OF assms(1-4)] by (simp add: construct_oss_def)
  have at: "getStub (g_blackholeFS ?g) p = Some 0" "uint (m_fd_last (g_blackholeFS ?g)) + 1 < 2 ^ 31"
    "m_readtype (cell (g_blackholeFS ?g) 0) = rt" "st_ino (m_stat (cell (g_blackholeFS ?g) 0)) = 1"
    by (simp_all add: seed_eq om_find_def)
  have usz: "uint (m_size (cell (g_blackholeFS ?g) 0)) = int (n * unit)"
    using unat_of_nat_small [OF assms(9)] by (simp add: seed_eq uint_nat del: of_nat_mult)
  obtain f1 f2 f3 g1 g2 k where s: "Open new_oss p 0 mode t0 now f ?g = (0, f1, g1)"
    "Read buff offset blen f1 = (of_nat k, f2, content f1 k offset @ drop k buff)"
    "Close t1 f2 g1 = (0, f3, g2)"
    "k = (if sint offset < 0 \<or> int (n * unit) \<le> sint offset then 0
          else nat (min (uint blen) (int (n * unit) - sint offset)))"
    "m_isRandom f1 \<longleftrightarrow> rt = ''random''" "m_ino f1 = 1"
    "g_statsManager g2 = recordTransfer (close_stats t1 f2) empty_manager"
    "bytes_read (close_stats t1 f2) = of_nat k" "bytes_written (close_stats t1 f2) = 0" "k < 2 ^ 63"
    by (rule read_session [OF at(1,2) refl assms(11,12), unfolded usz at(3,4) globals.select_convs(2)]) (rule that)
  have m: "m_total_bytes_read (g_statsManager g2) = of_nat k"
    "m_total_bytes_written (g_statsManager g2) = 0"
    "m_read_transfers (g_statsManager g2) = (if k = 0 then 0 else 1)"
    using s(10) by (simp_all add: s(7-9) recordTransfer_fields empty_manager_def sint_of_nat_small)
  show ?thesis
    by (rule exI [of _ new_oss], rule exI [of _ ?fs], rule conjI [OF con])
      (unfold Let_def s(1-3) prod.case s(4) [symmetric] map_of_metrics m,
        simp add: s(5,6) sint_of_nat_small [OF s(10)] content_def show_int_def)
qed

theorem seedfile_line_to_metrics_witness:
  "\<exists>this1 fs1. construct_oss (list_stream [[''xrd.port'', ''1094''],
         [''blackhole.seedfile'', ''/r'', ''1k'', ''type=zeros'']]) (Some ''/etc/x'') empty_fs
       = Some (this1, fs1) \<and>
     (let (rc, f1, g1) = Open this1 ''/r'' 0 0 0 0 new_file
            \<lparr>g_blackholeFS = fs1, g_statsManager = empty_manager\<rparr>;
          (cnt, f2, out) = Read [1, 2, 3, 4] 1022 4 f1;
          (rc', f3, g2) = Close 9000 f2 g1
      in rc = 0 \<and> cnt = 2 \<and> out = [0, 0, 3, 4] \<and>
        map_of (scrape (buildMetrics (g_statsManager g2))) ''blackhole_bytes_read_total''
          = Some (show_nat 2))"
proof -
  have one: "show_nat 1 = ''1''" by (simp add: show_nat.simps digit_def char_of_eq_iff)
  let ?ls = "[[''xrd.port'', ''1094''], [''blackhole.seedfile'', ''/r'', ''1k'', ''type=zeros'']]"
  have ls: "?ls = [[''xrd.port'', ''1094'']] @
      [''blackhole.seedfile'', ''/r'', show_nat 1 @ [CHR ''k''], ''type='' @ ''zeros''] # []"
    by (simp add: one [unfolded One_nat_def])
  have "Attach (list_stream ?ls) ''/etc/x'' = Inr ([], ?ls)"
    "\<forall>st. LastError (list_stream ?ls) st = 0" "''/etc/x'' \<noteq> ''''"
    by (simp_all add: list_stream_def)
  note inst = seedfile_line_to_metrics [OF list_stream_laws this(2,3,1), of "[[''xrd.port'', ''1094'']]"
      "''/r''" 1 "CHR ''k''" "''zeros''" "[]" "2 ^ 10" 4 "[1, 2, 3, 4]" 0 0 0 new_file 1022 9000]
  show ?thesis
    using inst
    by (simp add: ls [symmetric] one [unfolded One_nat_def] foreign_def k_directives_def size_units_def replicate_2
        case_prod_beta Let_def min_def) fastforce
qed

end
