(* ===== verification/Logging.thy ===== *)
theory Logging
  imports OssFile_Session Oss OssDir Metrics
begin

text \<open>
  What the calls of the running plugin write to the log: the error messages, the trace
  lines behind the \<^verbatim>\<open>BHTRACE\<close> macro of \<^verbatim>\<open>XrdBlackholeOss.hh\<close>, and the \<^verbatim>\<open>[XFER]\<close> line
  that each close writes, which is read back field by field as an operator's script
  would. The log is XRootD's; here it is the list of the calls made on it.
  \<open>Config_Log\<close> holds what the configuration reader says.
\<close>

section \<open>A reader of the log line\<close>

text \<open>The words of a line that hold a \<^verbatim>\<open>=\<close>, cut at the first one.\<close>

definition field :: "string \<Rightarrow> string \<times> string" where
  "field w = (takeWhile (\<lambda>c. c \<noteq> CHR ''='') w, tl (dropWhile (\<lambda>c. c \<noteq> CHR ''='') w))"

definition log_fields :: "string \<Rightarrow> (string \<times> string) list" where
  "log_fields line = map field (filter (\<lambda>w. CHR ''='' \<in> set w) (split_at_char CHR '' '' line))"

definition get_field :: "string \<Rightarrow> string \<Rightarrow> string" where
  "get_field line key = (case map_of (log_fields line) key of None \<Rightarrow> '''' | Some v \<Rightarrow> v)"

definition get_number :: "string \<Rightarrow> string \<Rightarrow> u64" where
  "get_number line key = fst (strtoull (get_field line key))"

text \<open>The open time is the one member the line does not carry.\<close>

definition parse_xfer :: "string \<Rightarrow> TransferStats" where
  "parse_xfer line =
     \<lparr>ts_path = get_field line ''path'', open_time = 0, duration_us = get_number line ''duration_us'',
      bytes_written = get_number line ''written'', bytes_read = get_number line ''read'',
      write_ops = ucast (get_number line ''write_ops''),
      write_aio_ops = ucast (get_number line ''aio_ops''),
      read_ops = ucast (get_number line ''read_ops''),
      ts_errors = ucast (get_number line ''errors''),
      was_write = (get_field line ''op'' = ''write'')\<rparr>"

section \<open>Numbers\<close>

lemma strtoull_show_u32: "fst (strtoull (show_u32 w)) = ucast w"
proof -
  have "unat w < 2 ^ 64" using unsigned_less [of w, where ?'a = nat] by simp
  then show ?thesis by (simp add: strtoull_show_nat)
qed

lemma ucast_up_down: "ucast (ucast (w :: u32) :: u64) = w"
  by (rule bit_word_eqI) (simp add: bit_simps)

lemma strtoull_minus:
  assumes "0 < n" "n < 2 ^ 64"
  shows "fst (strtoull (CHR ''-'' # show_nat n)) = - of_nat n"
proof -
  have "takeWhile is_digit (show_nat n) = show_nat n"
    using show_nat_digits [of n] by (simp only: takeWhile_eq_all_conv)
  then show ?thesis using assms by (simp add: strtoull_def is_space_def Let_def del: takeWhile_eq_all_conv)
qed

lemma strtoull_show_i64: "fst (strtoull (show_i64 w)) = w"
proof (cases "sint w < 0")
  case False
  then have "nat (sint w) < 2 ^ 64" using sint_less [of w] by (simp add: nat_less_iff)
  then show ?thesis using False by (simp add: show_int_def strtoull_show_nat)
next
  case True
  then have n: "0 < nat (- sint w)" "nat (- sint w) < 2 ^ 64"
    using sint_ge [of w] by (simp_all add: nat_less_iff)
  have "- of_nat (nat (- sint w)) = w" using True by simp
  then show ?thesis using strtoull_minus [OF n] True by (simp add: show_int_def)
qed

section \<open>The line read back\<close>

lemma log_fields_last:
  assumes "CHR '' '' \<notin> set k" "CHR ''='' \<notin> set k" "CHR '' '' \<notin> set v"
  shows "log_fields (k @ CHR ''='' # v) = [(k, v)]"
proof -
  have "split_at_char CHR '' '' (k @ CHR ''='' # v) = [k @ CHR ''='' # v]"
    by (rule split_at_char_plain) (use assms in auto)
  moreover have "\<forall>c \<in> set k. c \<noteq> CHR ''=''" using assms(2) by auto
  ultimately show ?thesis by (simp add: log_fields_def field_def split_at_first)
qed

lemma log_fields_field:
  assumes "CHR '' '' \<notin> set k" "CHR ''='' \<notin> set k" "CHR '' '' \<notin> set v"
  shows "log_fields (k @ CHR ''='' # v @ CHR '' '' # rest) = (k, v) # log_fields rest"
proof -
  have "split_at_char CHR '' '' ((k @ CHR ''='' # v) @ CHR '' '' # rest) =
      (k @ CHR ''='' # v) # split_at_char CHR '' '' rest"
    by (rule split_at_char_append) (use assms in auto)
  moreover have "\<forall>c \<in> set k. c \<noteq> CHR ''=''" using assms(2) by auto
  ultimately show ?thesis by (simp add: log_fields_def field_def split_at_first)
qed

lemma log_fields_word:
  assumes "CHR '' '' \<notin> set w" "CHR ''='' \<notin> set w"
  shows "log_fields (w @ CHR '' '' # rest) = log_fields rest"
  using split_at_char_append [OF assms(1), of rest] assms(2) by (simp add: log_fields_def)

lemma show_no_space: "CHR '' '' \<notin> set (show_nat n)" "CHR '' '' \<notin> set (show_int i)"
  "CHR '' '' \<notin> set (show_fixed2 x)"
  by (rule show_chars; simp add: is_digit_def)+

lemma log_fields_xfer:
  assumes "CHR '' '' \<notin> set (ts_path s)"
  shows "log_fields (xfer_line s) =
    [(''path'', ts_path s), (''op'', if was_write s then ''write'' else ''read''),
     (''written'', show_i64 (bytes_written s)), (''read'', show_i64 (bytes_read s)),
     (''duration_us'', show_i64 (duration_us s)),
     (''write_MiBs'', show_fixed2 (throughputMiBs (bytes_written s) (duration_us s))),
     (''read_MiBs'', show_fixed2 (throughputMiBs (bytes_read s) (duration_us s))),
     (''write_ops'', show_u32 (write_ops s)), (''aio_ops'', show_u32 (write_aio_ops s)),
     (''read_ops'', show_u32 (read_ops s)), (''errors'', show_u32 (ts_errors s))]"
proof -
  note f = log_fields_field [OF _ _ assms, of "''path''"]
    log_fields_field [of "''op''" "''write''"] log_fields_field [of "''op''" "''read''"]
    log_fields_field [OF _ _ show_no_space(2), of "''written''"]
    log_fields_field [OF _ _ show_no_space(2), of "''read''"]
    log_fields_field [OF _ _ show_no_space(2), of "''duration_us''"]
    log_fields_field [OF _ _ show_no_space(3), of "''write_MiBs''"]
    log_fields_field [OF _ _ show_no_space(3), of "''read_MiBs''"]
    log_fields_field [OF _ _ show_no_space(1), of "''write_ops''"]
    log_fields_field [OF _ _ show_no_space(1), of "''aio_ops''"]
    log_fields_field [OF _ _ show_no_space(1), of "''read_ops''"]
    log_fields_last [OF _ _ show_no_space(1), of "''errors''"]
    log_fields_word [of "''[XFER]''"]
  show ?thesis
    by (cases "was_write s") (simp_all add: xfer_line_def f [simplified])
qed

text \<open>All but the open time can be recovered, if the path has no space.\<close>

lemma xfer_line_round_trip:
  assumes "CHR '' '' \<notin> set (ts_path s)"
  shows "parse_xfer (xfer_line s) = s\<lparr>open_time := 0\<rparr>"
  by (intro TransferStats.equality)
    (simp_all add: parse_xfer_def get_number_def get_field_def log_fields_xfer [OF assms]
      strtoull_show_i64 strtoull_show_u32 ucast_up_down)

section \<open>The messages of the calls\<close>

datatype log_call =
    Say "string list"
  | Message string "string list"
  | Error_msg string int string string

abbreviation (input) BHTRACE_IO :: i32 where "BHTRACE_IO \<equiv> 1"

definition BHTRACE :: "i32 \<Rightarrow> string \<Rightarrow> log_call list" where
  "BHTRACE What x = (if What AND BHTRACE_IO \<noteq> 0 then [Say [x]] else [])"

definition show_hex :: "i32 \<Rightarrow> string" where
  "show_hex w = show_base 16 False (unat w)"

definition log_open_fs :: "path \<Rightarrow> log_call list" where
  "log_open_fs fname = [Say [''BH::Open '', fname]]"

definition log_Open :: "i32 \<Rightarrow> path \<Rightarrow> i32 \<Rightarrow> i32 \<Rightarrow> globals \<Rightarrow> log_call list" where
  "log_Open What path flags mode g =
     (let rc = fst (open_fs path flags mode (g_blackholeFS g))
      in log_open_fs path @
         (if rc < 0 then [Error_msg ''Open'' (- rc) ''failed to open'' path]
          else BHTRACE What
            (''Open path='' @ path @ '' flags='' @ show_hex flags @ '' mode='' @ show_u32 mode)))"

definition log_Close :: "int \<Rightarrow> oss_file \<Rightarrow> log_call list" where
  "log_Close now f =
     (case m_stub f of
        None \<Rightarrow> [Error_msg ''Close'' ENOENT ''closing unknown path'' (m_path f)]
      | Some r \<Rightarrow> [Say [xfer_line (close_stats now f)]])"

definition no_stub :: "string \<Rightarrow> int \<Rightarrow> oss_file \<Rightarrow> log_call list" where
  "no_stub call errno f = [Error_msg call errno ''no open stub for'' (m_path f)]"

definition log_Read :: "i32 \<Rightarrow> byte list \<Rightarrow> i64 \<Rightarrow> u64 \<Rightarrow> oss_file \<Rightarrow> log_call list" where
  "log_Read What buff offset blen f =
     (case m_stub f of
        None \<Rightarrow> no_stub ''Read'' EINVAL f
      | Some r \<Rightarrow> BHTRACE What
          (''Read '' @ show_i64 (fst (Read buff offset blen f)) @ '' bytes @ '' @ show_i64 offset @
           '' path='' @ m_path f))"

definition log_ReadV :: "i32 \<Rightarrow> iov list \<Rightarrow> i32 \<Rightarrow> oss_file \<Rightarrow> log_call list" where
  "log_ReadV What readV n f =
     (if sint n \<le> 0 then []
      else case m_stub f of
        None \<Rightarrow> no_stub ''ReadV'' EINVAL f
      | Some r \<Rightarrow>
          (case fst (readv_loop f (take (nat (sint n)) readV) 0 0) of
             Inl rc \<Rightarrow> []
           | Inr (tot, ops) \<Rightarrow> BHTRACE What
               (''ReadV '' @ show_int (sint n) @ '' segs total='' @ show_i64 tot @
                '' path='' @ m_path f)))"

fun log_op :: "i32 \<Rightarrow> file_op \<Rightarrow> oss_file \<Rightarrow> log_call list" where
  "log_op What (DoWrite offset blen) f =
     BHTRACE What (''Write '' @ show_u64 blen @ '' bytes @ '' @ show_i64 offset @ '' path='' @ m_path f)"
| "log_op What (DoWriteAio aiop) f =
     BHTRACE What (''WriteAIO '' @ show_u64 (aio_nbytes aiop) @ '' bytes @ '' @
       show_i64 (aio_offset aiop) @ '' path='' @ m_path f)"
| "log_op What (DoRead buff offset blen) f = log_Read What buff offset blen f"
| "log_op What (DoReadAio aiop) f =
     log_Read What (aio_buf aiop) (aio_offset aiop) (aio_nbytes aiop) f @
     BHTRACE What (''ReadAIO '' @ show_u64 (aio_nbytes aiop) @ '' bytes @ '' @
       show_i64 (aio_offset aiop) @ '' path='' @ m_path f)"
| "log_op What (DoReadRaw buff offset blen) f = log_Read What buff offset blen f"
| "log_op What (DoReadV vs n) f = log_ReadV What vs n f"
| "log_op What (DoReadPrep offset blen) f =
     (case m_stub f of None \<Rightarrow> no_stub ''Read'' EINVAL f | Some r \<Rightarrow> [])"
| "log_op What DoFsync f = []"
| "log_op What (DoFtruncate len) f = []"

fun log_ops :: "i32 \<Rightarrow> file_op list \<Rightarrow> oss_file \<Rightarrow> log_call list" where
  "log_ops What [] f = []"
| "log_ops What (op # ops) f = log_op What op f @ log_ops What ops (snd (do_op op f))"

definition log_Fstat :: "oss_file \<Rightarrow> log_call list" where
  "log_Fstat f = (case m_stub f of None \<Rightarrow> no_stub ''Fstat'' ENOENT f | Some r \<Rightarrow> [])"

text \<open>The calls that are not on an open file.\<close>

definition log_Rename :: "i32 \<Rightarrow> path \<Rightarrow> path \<Rightarrow> globals \<Rightarrow> log_call list" where
  "log_Rename What from to g =
     (let rc = fst (rename_fs from to (g_blackholeFS g))
      in (if rc \<noteq> 0 then [Error_msg ''Rename'' (- rc) ''rename'' from] else []) @
         BHTRACE What (''Rename from='' @ from @ '' to='' @ to @ '' rc='' @ show_int rc))"

definition log_Stat :: "i32 \<Rightarrow> path \<Rightarrow> log_call list" where
  "log_Stat What path = BHTRACE What (''Stat path='' @ path)"

definition log_newFile :: "i32 \<Rightarrow> string \<Rightarrow> log_call list" where
  "log_newFile What tident = BHTRACE What (''newFile tident='' @ tident)"

definition log_destroy_oss :: "globals \<Rightarrow> log_call list" where
  "log_destroy_oss g = [Say [destroy_oss g]]"

definition log_Opendir :: "i32 \<Rightarrow> path \<Rightarrow> bhfs \<Rightarrow> oss_dir \<Rightarrow> log_call list" where
  "log_Opendir What path fs d =
     BHTRACE What (''Opendir path='' @ path @ '' entries='' @
       show_nat (length (m_entries (snd (Opendir path fs d)))))"

definition log_Readdir :: "i32 \<Rightarrow> oss_dir \<Rightarrow> log_call list" where
  "log_Readdir blen d =
     (if length (m_entries d) \<le> m_pos d then []
      else let name = m_entries d ! m_pos d
        in if sint blen \<le> to_int (of_nat (length name))
           then [Error_msg ''Readdir'' ENAMETOOLONG ''entry too long for buffer'' name] else [])"

section \<open>The log of a session\<close>

lemma BHTRACE_off: "What AND 1 = 0 \<Longrightarrow> BHTRACE What x = []"
  by (simp add: BHTRACE_def)

lemma log_op_quiet:
  "What AND 1 = 0 \<Longrightarrow> m_stub f = Some r \<Longrightarrow> log_op What op f = []"
  by (cases op) (auto simp: BHTRACE_off log_Read_def log_ReadV_def split: sum.split)

lemma log_ops_quiet: "What AND 1 = 0 \<Longrightarrow> m_stub f = Some r \<Longrightarrow> log_ops What ops f = []"
proof (induction ops arbitrary: f)
  case (Cons op ops)
  then show ?case
    using same_open_do_op [of f op] log_op_quiet [of What f r op] by (simp add: same_open_def)
qed simp

lemma log_Open_quiet:
  "What AND 1 = 0 \<Longrightarrow> 0 \<le> fst (open_fs path flags mode (g_blackholeFS g)) \<Longrightarrow>
   log_Open What path flags mode g = [Say [''BH::Open '', path]]"
  by (simp add: log_Open_def log_open_fs_def BHTRACE_off Let_def)

text \<open>
  C21: With tracing off, a write session (open, any calls, close) on a path without
  spaces says just two lines: the namespace's open line and a transfer line from which
  every member of the record that the statistics got, but the open time, can be read
  back.
\<close>

theorem session_log_reports_transfer:
  assumes "fs_inv (g_blackholeFS g)" and "can_write (g_blackholeFS g) p flags"
    and "\<forall>r. getStub (g_blackholeFS g) p = Some r \<longrightarrow>
      uint (m_size (cell (g_blackholeFS g) r)) < 2 ^ 63"
    and "What AND 1 = 0" and "CHR '' '' \<notin> set p"
  shows "let (rc, f1, g1) = Open bhOss p flags mode t0 now f g;
      (rcs, f2) = run_ops ops f1;
      (rc', f3, g2) = Close t1 f2 g1
    in \<exists>line s. log_Open What p flags mode g @ log_ops What ops f1 @ log_Close t1 f2 =
        [Say [''BH::Open '', p], Say [line]] \<and>
      g_statsManager g2 = recordTransfer s (g_statsManager g) \<and>
      parse_xfer line = s\<lparr>open_time := 0\<rparr> \<and> ts_path s = p \<and>
      bytes_written s = sum_list (map written ops) \<and> bytes_read s = read_total ops rcs"
proof -
  obtain rc f1 g1 where o: "Open bhOss p flags mode t0 now f g = (rc, f1, g1)"
    by (metis prod_cases3)
  obtain rcs f2 where r: "run_ops ops f1 = (rcs, f2)" by (metis surj_pair)
  obtain rc' f3 g2 where c: "Close t1 f2 g1 = (rc', f3, g2)" by (metis prod_cases3)
  obtain q where s: "rc = 0" "m_stub f1 = Some q" "m_stub f2 = Some q"
    "ts_path (close_stats t1 f2) = p"
    "bytes_written (close_stats t1 f2) = sum_list (map written ops)"
    "bytes_read (close_stats t1 f2) = read_total ops rcs"
    "g_statsManager g2 = recordTransfer (close_stats t1 f2) (g_statsManager g)"
    by (rule session_state [OF assms(1,2) _ o r c]) (use assms(3) in auto)
  have "0 \<le> fst (open_fs p flags mode (g_blackholeFS g))"
    using o s(1) by (auto simp: Open_def Open_begin_def case_prod_beta split: if_splits)
  then have log: "log_Open What p flags mode g @ log_ops What ops f1 @ log_Close t1 f2 =
      [Say [''BH::Open '', p], Say [xfer_line (close_stats t1 f2)]]"
    using log_Open_quiet [OF assms(4)] log_ops_quiet [OF assms(4) s(2)] s(3) by (simp add: log_Close_def)
  have "parse_xfer (xfer_line (close_stats t1 f2)) = (close_stats t1 f2)\<lparr>open_time := 0\<rparr>"
    by (rule xfer_line_round_trip) (simp only: s(4) assms(5) not_False_eq_True)
  then show ?thesis
    using log s(4-7) unfolding o r c prod.case Let_def by (intro exI conjI)
qed

theorem session_log_reports_transfer_witness:
  "let g = \<lparr>g_blackholeFS = empty_fs, g_statsManager = empty_manager\<rparr>;
      (rc, f1, g1) = Open new_oss ''/a'' 65 420 0 0 new_file g;
      (rcs, f2) = run_ops [DoWrite 0 10, DoWrite 10 5] f1
    in \<exists>line. log_Open 2 ''/a'' 65 420 g @ log_ops 2 [DoWrite 0 10, DoWrite 10 5] f1 @ log_Close 9000 f2 =
        [Say [''BH::Open '', ''/a''], Say [line]] \<and> bytes_written (parse_xfer line) = 15"
proof -
  let ?g = "\<lparr>g_blackholeFS = empty_fs, g_statsManager = empty_manager\<rparr>"
  have "fs_inv (g_blackholeFS ?g)" "can_write (g_blackholeFS ?g) ''/a'' 65"
    by (simp_all add: fs_inv_empty can_write_def)
  from session_log_reports_transfer [OF this, of 2 new_oss 420 0 0 new_file
      "[DoWrite 0 10, DoWrite 10 5]" 9000]
  show ?thesis
    unfolding Let_def case_prod_beta by auto
qed

end
