(* ===== verification/Entry.thy ===== *)
theory Entry
  imports Configured_Server Logging
begin

text \<open>
  The entry points XRootD looks up in the three shared libraries, the objects they make,
  and what happens when the server comes up with a configuration it could not read. The
  error destination a factory is given is XRootD's; the calls on it are recorded.
\<close>

section \<open>The calls on an error destination\<close>

text \<open>\<open>'lg\<close> is the type of XRootD's loggers, \<open>'ed\<close> that of its error destinations.\<close>

datatype 'lg dest_call =
    SetPrefix string
  | Set_logger 'lg
  | Dest_say string

section \<open>The storage plugin\<close>

definition XrdOssGetStorageSystem ::
  "'st stream_ops \<Rightarrow> 'os \<Rightarrow> 'lg \<Rightarrow> string option \<Rightarrow> string option \<Rightarrow> bhfs \<Rightarrow>
   (oss \<times> 'lg dest_call list \<times> bhfs) option" where
  "XrdOssGetStorageSystem ops native_oss lp config_fn parms fs =
     (let said = [SetPrefix ''blackhole_'', Set_logger lp, Dest_say ''++++++ CERN/IT-DSS XrdBlackhole'']
      in map_option (\<lambda>(this, fs1). (this, said, fs1)) (construct_oss ops config_fn fs))"

section \<open>The metrics handler\<close>

record 'ed metrics_handler =
  m_log :: 'ed

definition new_metrics :: "'ed \<Rightarrow> 'ed metrics_handler \<times> 'lg dest_call list" where
  "new_metrics log_dest =
     (\<lparr>m_log = log_dest\<rparr>,
      [Dest_say ''blackhole_metrics: Prometheus metrics handler initialised''])"

definition metrics_Init :: "string \<Rightarrow> 'ed metrics_handler \<Rightarrow> int" where
  "metrics_Init cfgfile this = 0"

definition XrdHttpGetExtHandler ::
  "'ed \<Rightarrow> string option \<Rightarrow> string option \<Rightarrow> 'en \<Rightarrow> 'ed metrics_handler \<times> 'lg dest_call list" where
  "XrdHttpGetExtHandler eDest confg parms myEnv = new_metrics eDest"

section \<open>The attribute plugin\<close>

text \<open>The object has no members; \<open>logger\<close> is XRootD's accessor for a destination's logger.\<close>

datatype xattr = XrdBlackholeXAttr

definition XrdSysGetXAttrObject ::
  "('ed \<Rightarrow> 'lg) \<Rightarrow> 'ed \<Rightarrow> string option \<Rightarrow> string option \<Rightarrow> xattr \<times> 'lg dest_call list" where
  "XrdSysGetXAttrObject logger errP config_fn parms =
     (XrdBlackholeXAttr,
      [SetPrefix ''blackhole_xattr_'', Set_logger (logger errP),
       Dest_say ''++++++ CERN/IT-DSS XrdBlackholeXattr''])"

definition XAttr_Free :: "'al \<Rightarrow> 'al" where
  "XAttr_Free aPL = aPL"

section \<open>Coming up without a readable configuration\<close>

text \<open>A directive that fails makes the result 1, whatever else the file says.\<close>

lemma configure_lines_sticky:
  "configure_lines ls 1 this fs = Some (rc, this1, fs1) \<Longrightarrow> rc = 1"
proof (induction ls "1 :: int" this fs rule: configure_lines.induct)
  case (3 v ws ls this fs)
  show ?case
  proof (cases "map_of k_directives v")
    case (Some d)
    then obtain ok this2 fs2 where d: "line_directive d ws this fs = Some (ok, this2, fs2)"
      using "3.prems" by (auto split: option.splits)
    then show ?thesis using "3.hyps"(2) [OF Some d refl refl] "3.prems" Some by (cases ok) auto
  qed (use 3 in simp)
qed simp_all

lemma bad_directive_fails:
  assumes "configure_lines (before @ (v # ws) # after) 0 this fs = Some (rc, this1, fs1)"
    and "list_all foreign before" and "map_of k_directives v = Some d"
    and "line_directive d ws this fs = Some (False, this2, fs2)"
  shows "rc = 1"
  using assms(1) configure_lines_sticky [of after this2 fs2 rc this1 fs1]
  unfolding configure_lines_foreign [OF assms(2)] by (simp add: assms(3,4))

text \<open>The file cannot be opened, or its first directive for the plugin is refused.\<close>

definition config_fails ::
  "'st stream_ops \<Rightarrow> ('st \<Rightarrow> string list list) \<Rightarrow> string \<Rightarrow> bool" where
  "config_fails ops lines fn \<longleftrightarrow>
     (case Attach ops fn of
        Inl errno \<Rightarrow> True
      | Inr st \<Rightarrow> \<exists>before v ws after d fs.
          lines st = before @ (v # ws) # after \<and> list_all foreign before \<and>
          map_of k_directives v = Some d \<and>
          line_directive d ws new_oss empty_fs = Some (False, new_oss, fs))"

text \<open>
  C40: When the configuration file cannot be opened, or its first directive for the
  plugin is refused, Configure returns 1, but the factory still hands out a plugin,
  which serves from a reachable state with a write speed in range.
\<close>

theorem bad_configuration_still_serves:
  assumes "stream_laws ops words lines" and "\<forall>st. LastError ops st = 0" and "fn \<noteq> ''''"
    and "config_fails ops lines fn"
    and "Configure ops (Some fn) new_oss empty_fs = Some (rc, this1, fs1)" and "next_ref fs1 < 2 ^ 64"
  shows "rc = 1 \<and>
    (\<exists>said. XrdOssGetStorageSystem ops native_oss lp (Some fn) parms empty_fs = Some (this1, said, fs1)) \<and>
    reachable this1 (serve this1 fs1) \<and> uint (writespeedMiBs this1) < 2147483647"
proof (cases "Attach ops fn")
  case (Inl errno)
  then have "rc = 1" "this1 = new_oss" "fs1 = empty_fs" using assms(3,5) by (auto simp: Configure_def)
  moreover have "reachable new_oss (serve new_oss empty_fs)"
    using seeds_reachable [of empty_fs] by simp
  ultimately show ?thesis
    using assms(5) by (simp add: XrdOssGetStorageSystem_def construct_oss_def writespeedMiBs_def new_oss_def)
next
  case (Inr st)
  then obtain before v ws after d fs where at: "lines st = before @ (v # ws) # after"
    "list_all foreign before" "map_of k_directives v = Some d"
    "line_directive d ws new_oss empty_fs = Some (False, new_oss, fs)"
    using assms(4) by (auto simp: config_fails_def)
  have c: "configure_lines (lines st) 0 new_oss empty_fs = Some (rc, this1, fs1)"
    using assms(5) Configure_lines [OF assms(1-3) Inr] by simp
  have "rc = 1" using bad_directive_fails [OF c [unfolded at(1)] at(2-4)] .
  moreover have "uint (m_writespeedMiBs this1) < 2147483647"
    using configure_lines_range [OF c] by (simp add: new_oss_def)
  moreover have "reachable this1 (serve this1 fs1)"
    by (rule configured_reachable [OF c assms(6) rtranclp.rtrancl_refl])
  ultimately show ?thesis
    using assms(5) by (simp add: XrdOssGetStorageSystem_def construct_oss_def writespeedMiBs_def)
qed

theorem bad_configuration_still_serves_witness:
  "\<exists>said. XrdOssGetStorageSystem (list_stream [[''blackhole.readtype'', ''ones'']]) () () (Some ''/etc/x'')
      None empty_fs = Some (new_oss, said, empty_fs) \<and> reachable new_oss (serve new_oss empty_fs)"
proof -
  let ?ops = "list_stream [[''blackhole.readtype'', ''ones'']]"
  have at: "Attach ?ops ''/etc/x'' = Inr ([], [[''blackhole.readtype'', ''ones'']])"
    "\<forall>st. LastError ?ops st = 0" "''/etc/x'' \<noteq> ''''"
    by (simp_all add: list_stream_def)
  have c: "Configure ?ops (Some ''/etc/x'') new_oss empty_fs = Some (1, new_oss, empty_fs)"
    unfolding Configure_lines [OF list_stream_laws at(2,3,1)] by (simp add: k_directives_def)
  have "[[''blackhole.readtype'', ''ones'']] = [] @ (''blackhole.readtype'' # [''ones'']) # []" by simp
  then have "config_fails ?ops snd ''/etc/x''"
    unfolding config_fails_def at(1) sum.case snd_conv
    by (intro exI conjI, assumption)
      (simp_all add: k_directives_def, rule line_directive.simps(3) [THEN trans], simp)
  from bad_configuration_still_serves [OF list_stream_laws at(2,3) this c, of "()" "()" None]
  show ?thesis by simp
qed

end
