(* ===== verification/Config_Log.thy ===== *)
theory Config_Log
  imports Config_Lines Logging
begin

text \<open>
  What the configuration reader writes to the log: for each handler of
  \<^verbatim>\<open>XrdBlackholeOss.cc\<close> the messages of the same run over the same tokeniser, and what an
  operator can tell from them. A loop that does not end has the log \<^const>\<open>None\<close>.
\<close>

section \<open>The handlers\<close>

definition config_msg :: "string list \<Rightarrow> log_call list" where
  "config_msg texts = [Message ''Config'' texts]"

definition log_writespeedMiBps :: "'st stream_ops \<Rightarrow> 'st \<Rightarrow> log_call list" where
  "log_writespeedMiBps ops cfg =
     (case fst (GetWord ops cfg) of
        None \<Rightarrow> config_msg [''blackhole.writespeedMiBps: missing value'']
      | Some v \<Rightarrow>
          let (value, used, erange) = strtoull v in
          if used = 0 \<or> used \<noteq> length v
          then config_msg [''blackhole.writespeedMiBps: non-numeric value:'', v]
          else if erange \<or> INT_MAX \<le> value
          then config_msg [''blackhole.writespeedMiBps: value too large:'', v]
          else [])"

definition log_seed :: "path \<Rightarrow> log_call list" where
  "log_seed path = [Say [''blackhole: seed: '', path]]"

definition log_create_defaults :: "path \<Rightarrow> log_call list" where
  "log_create_defaults path = concat (map (\<lambda>(suffix, sz). log_seed (path @ suffix)) default_specs)"

definition log_defaultspath :: "'st stream_ops \<Rightarrow> 'st \<Rightarrow> log_call list" where
  "log_defaultspath ops cfg =
     (let (val, cfg1) = GetWord ops cfg in
      case val of
        None \<Rightarrow> config_msg [''blackhole.defaultspath: missing value'']
      | Some v \<Rightarrow>
          let (got, rest, cfg2) = GetRest ops 1040 cfg1
          in (if \<not> got \<or> rest \<noteq> ''''
              then config_msg [''blackhole.defaultspath: extra tokens ignored''] else []) @
             log_create_defaults v)"

definition log_readtype :: "'st stream_ops \<Rightarrow> 'st \<Rightarrow> log_call list" where
  "log_readtype ops cfg =
     (case fst (GetWord ops cfg) of
        None \<Rightarrow> config_msg [''blackhole.readtype: missing value'']
      | Some v \<Rightarrow>
          if v \<noteq> ''zeros''
          then config_msg [''blackhole.readtype: unknown type (only 'zeros' supported):'', v]
          else [])"

partial_function (option) log_seedfile_options ::
  "'st stream_ops \<Rightarrow> 'st \<Rightarrow> log_call list option" where
  "log_seedfile_options ops cfg =
     (case GetWord ops cfg of (tok, cfg1) \<Rightarrow>
      (case tok of
         None \<Rightarrow> Some []
       | Some t \<Rightarrow>
           if starts_with ''count='' t then
             (case strtoull (drop 6 t) of (value, used, erange) \<Rightarrow>
              if used = 0 \<or> used \<noteq> length (drop 6 t) \<or> erange \<or> value = 0
              then Some (config_msg [''blackhole.seedfile: invalid count='', drop 6 t])
              else log_seedfile_options ops cfg1)
           else if starts_with ''type='' t then
             (if drop 5 t \<noteq> ''zeros'' \<and> drop 5 t \<noteq> ''random''
              then Some (config_msg [''blackhole.seedfile: unknown type (zeros|random):'', drop 5 t])
              else log_seedfile_options ops cfg1)
           else Option.bind (log_seedfile_options ops cfg1)
             (\<lambda>l. Some (config_msg [''blackhole.seedfile: unknown option (ignored):'', t] @ l))))"

fun log_seed_numbered :: "nat \<Rightarrow> nat \<Rightarrow> string \<Rightarrow> log_call list option" where
  "log_seed_numbered 0 i path = Some []"
| "log_seed_numbered (Suc k) i path =
     (case snprintf_int path (of_nat i) of
        None \<Rightarrow> None
      | Some text \<Rightarrow>
          if 4096 \<le> length text then Some (config_msg [''blackhole.seedfile: generated path too long''])
          else map_option (\<lambda>l. log_seed (c_str text) @ l) (log_seed_numbered k (Suc i) path))"

text \<open>A size that is refused: nothing can be read at its start, or the letter is unknown.\<close>

definition log_size :: "string \<Rightarrow> log_call list" where
  "log_size sizeval =
     (let (sz, used, erange) = strtoull sizeval in
      if used = 0 \<or> erange then config_msg [''blackhole.seedfile: invalid size:'', sizeval]
      else config_msg [''blackhole.seedfile: unknown size suffix:'', drop used sizeval])"

definition log_seedfile :: "'st stream_ops \<Rightarrow> 'st \<Rightarrow> log_call list option" where
  "log_seedfile ops cfg =
     (case GetWord ops cfg of
        (None, cfg1) \<Rightarrow> Some (config_msg [''blackhole.seedfile: missing path''])
      | (Some path, cfg1) \<Rightarrow>
      (case GetWord ops cfg1 of
        (None, cfg2) \<Rightarrow> Some (config_msg [''blackhole.seedfile: missing size''])
      | (Some sizeval, cfg2) \<Rightarrow>
      (case parse_size sizeval of
        None \<Rightarrow> Some (log_size sizeval)
      | Some sz \<Rightarrow>
      (case (seedfile_options ops cfg2 1 ''zeros'', log_seedfile_options ops cfg2) of
        (Some (Some (count, readtype), cfg3), Some said) \<Rightarrow>
          if 1 < count \<and> CHR ''%'' \<notin> set path
          then Some (said @ config_msg
            [''blackhole.seedfile: count>1 requires a printf format specifier in path'', path])
          else if count = 1 then Some (said @ log_seed path)
          else map_option (\<lambda>l. said @ l) (log_seed_numbered (unat count) 0 path)
      | (_, said) \<Rightarrow> said))))"

section \<open>Configure\<close>

fun log_directive :: "'st stream_ops \<Rightarrow> directive \<Rightarrow> 'st \<Rightarrow> log_call list option" where
  "log_directive ops Writespeed cfg = Some (log_writespeedMiBps ops cfg)"
| "log_directive ops Defaultspath cfg = Some (log_defaultspath ops cfg)"
| "log_directive ops Readtype cfg = Some (log_readtype ops cfg)"
| "log_directive ops Seedfile cfg = log_seedfile ops cfg"

partial_function (option) log_configure_loop ::
  "'st stream_ops \<Rightarrow> 'st \<Rightarrow> oss \<Rightarrow> bhfs \<Rightarrow> log_call list option" where
  "log_configure_loop ops cfg this fs =
     (case GetMyFirstWord ops cfg of (var, cfg1) \<Rightarrow>
      (case var of
         None \<Rightarrow> Some []
       | Some v \<Rightarrow>
           (case map_of k_directives v of
              None \<Rightarrow>
                Option.bind (log_configure_loop ops cfg1 this fs)
                  (\<lambda>l. Some ((if starts_with ''blackhole.'' v
                              then config_msg [''Unknown directive (ignored):'', v] else []) @ l))
            | Some d \<Rightarrow>
                (case (parse_directive ops d cfg1 this fs, log_directive ops d cfg1) of
                   (Some (ok, this1, fs1, cfg2), Some said) \<Rightarrow>
                     Option.bind (log_configure_loop ops cfg2 this1 fs1) (\<lambda>l. Some (said @ l))
                 | _ \<Rightarrow> None))))"

text \<open>A file that cannot be opened ends the call before the summary line.\<close>

definition log_Configure ::
  "'st stream_ops \<Rightarrow> string option \<Rightarrow> oss \<Rightarrow> bhfs \<Rightarrow> log_call list option" where
  "log_Configure ops configfn this fs =
     (case configfn of
        None \<Rightarrow> Some [Say [logConfig this]]
      | Some fn \<Rightarrow>
          if fn = '''' then Some [Say [logConfig this]]
          else case Attach ops fn of
            Inl errno \<Rightarrow> Some [Error_msg ''Config'' errno ''open config file'' fn]
          | Inr cfg \<Rightarrow>
              (case (configure_loop ops cfg 0 this fs, log_configure_loop ops cfg this fs) of
                 (Some (NoGo, this1, fs1, cfg1), Some said) \<Rightarrow>
                   let retc = LastError ops cfg1
                   in Some (said @
                        (if retc \<noteq> 0 then [Error_msg ''Config'' (- retc) ''read config file'' fn] else []) @
                        [Say [logConfig this1]])
               | _ \<Rightarrow> None))"

section \<open>Refusals and warnings\<close>

text \<open>The three messages that do not make the configuration fail; they say so.\<close>

definition warnings :: "string list" where
  "warnings = [''Unknown directive (ignored):'', ''blackhole.defaultspath: extra tokens ignored'',
     ''blackhole.seedfile: unknown option (ignored):'']"

fun refusal :: "log_call \<Rightarrow> bool" where
  "refusal (Say texts) = False"
| "refusal (Error_msg from errno what arg) = True"
| "refusal (Message from texts) = (hd texts \<notin> set warnings)"

definition refusals :: "log_call list \<Rightarrow> nat" where
  "refusals l = length (filter refusal l)"

lemma refusals_simps [simp]:
  "refusals [] = 0" "refusals (a @ b) = refusals a + refusals b"
  "refusals (config_msg (t # ts)) = (if t \<in> set warnings then 0 else 1)"
  "refusals (Say texts # l) = refusals l"
  "refusals (Error_msg from errno what arg # l) = Suc (refusals l)"
  by (simp_all add: refusals_def config_msg_def)

lemma refusals_seed [simp]: "refusals (log_seed p) = 0" "refusals (log_create_defaults p) = 0"
  by (simp_all add: log_seed_def log_create_defaults_def default_specs_def)

lemma refusal_texts [simp]:
  "''blackhole.seedfile: unknown option (ignored):'' \<in> set warnings"
  "''Unknown directive (ignored):'' \<in> set warnings"
  "''blackhole.defaultspath: extra tokens ignored'' \<in> set warnings"
  by (simp_all add: warnings_def)

lemma seedfile_options_log:
  assumes "seedfile_options ops cfg count rt = Some r"
  shows "\<exists>l. log_seedfile_options ops cfg = Some l \<and> refusals l = (if fst r = None then 1 else 0)"
proof (rule seedfile_options.raw_induct [where P = "\<lambda>ops cfg count rt r.
    \<exists>l. log_seedfile_options ops cfg = Some l \<and> refusals l = (if fst r = None then 1 else 0)",
    OF _ assms], goal_cases)
  case (1 rec ops cfg count rt r)
  then show ?case
    by (subst log_seedfile_options.simps)
      (auto simp: warnings_def split: prod.splits option.splits if_splits dest!: 1(1))
qed

lemma seed_numbered_log:
  "seed_numbered k i path sz rt fs = Some (ok, fs1) \<Longrightarrow>
   \<exists>l. log_seed_numbered k i path = Some l \<and> refusals l = (if ok then 0 else 1)"
proof (induction k arbitrary: i fs)
  case (Suc k)
  then obtain buf where buf: "snprintf_int path (of_nat i) = Some buf"
    by (auto split: option.splits)
  show ?case
  proof (cases "4096 \<le> length buf")
    case True
    then show ?thesis using Suc.prems buf by (auto simp: warnings_def)
  next
    case False
    then obtain l where "log_seed_numbered k (Suc i) path = Some l" "refusals l = (if ok then 0 else 1)"
      using Suc.IH [of "Suc i" "seed (c_str buf) sz rt fs"] Suc.prems buf by auto
    then show ?thesis using False buf by simp
  qed
qed simp

lemma size_log: "refusals (log_size v) = 1"
  by (simp add: log_size_def warnings_def case_prod_beta Let_def)

lemma seedfile_log:
  assumes "cfg_seedfile ops cfg fs = Some (ok, fs1, cfg1)"
  shows "\<exists>l. log_seedfile ops cfg = Some l \<and> refusals l = (if ok then 0 else 1)"
proof -
  obtain p st1 where p: "GetWord ops cfg = (p, st1)" by (metis surj_pair)
  obtain v st2 where v: "GetWord ops st1 = (v, st2)" by (metis surj_pair)
  note defs = cfg_seedfile_def log_seedfile_def p v warnings_def size_log
  show ?thesis
  proof (cases "p = None \<or> v = None \<or> parse_size (the v) = None")
    case True
    then show ?thesis using assms by (cases p; cases v) (auto simp: defs)
  next
    case False
    then obtain path sizeval sz where d: "p = Some path" "v = Some sizeval" "parse_size sizeval = Some sz"
      by auto
    obtain res st3 where o: "seedfile_options ops st2 1 ''zeros'' = Some (res, st3)"
      using assms d by (auto simp: defs split: option.splits)
    obtain l where l: "log_seedfile_options ops st2 = Some l" "refusals l = (if res = None then 1 else 0)"
      using seedfile_options_log [OF o] by auto
    show ?thesis
    proof (cases res)
      case None
      then show ?thesis using assms d o l by (simp add: defs)
    next
      case (Some cr)
      obtain count rt where cr: "cr = (count, rt)" by (metis surj_pair)
      consider "1 < count" "CHR ''%'' \<notin> set path" | "count = 1"
        | "count \<noteq> 1" "\<not> (1 < count \<and> CHR ''%'' \<notin> set path)" by blast
      then show ?thesis
      proof cases
        case 3
        then obtain s where "seed_numbered (unat count) 0 path sz rt fs = Some (ok, s)"
          using assms d o Some cr by (auto simp: defs split: option.splits if_splits)
        then obtain l2 where l2: "log_seed_numbered (unat count) 0 path = Some l2"
          "refusals l2 = (if ok then 0 else 1)"
          using seed_numbered_log by blast
        have "log_seedfile ops cfg = Some (l @ l2)"
          using 3 d o l l2 Some cr by (auto simp: defs)
        then show ?thesis using l l2 Some by simp
      qed (use assms d o l Some cr in \<open>simp_all add: defs\<close>)
    qed
  qed
qed

lemma directive_log:
  assumes "parse_directive ops d cfg this fs = Some (ok, this1, fs1, cfg1)"
  shows "\<exists>l. log_directive ops d cfg = Some l \<and> refusals l = (if ok then 0 else 1)"
proof -
  obtain w st1 where w: "GetWord ops cfg = (w, st1)" by (metis surj_pair)
  show ?thesis
  proof (cases d)
    case Writespeed
    then show ?thesis
      using assms by (cases w) (auto simp: cfg_writespeedMiBps_def log_writespeedMiBps_def w warnings_def
          case_prod_beta Let_def split: if_splits)
  next
    case Defaultspath
    then show ?thesis
      using assms by (cases w) (auto simp: cfg_defaultspath_def log_defaultspath_def w warnings_def
          case_prod_beta Let_def split: if_splits)
  next
    case Readtype
    then show ?thesis
      using assms by (cases w) (auto simp: cfg_readtype_def log_readtype_def w warnings_def
          case_prod_beta Let_def split: if_splits)
  next
    case Seedfile
    then show ?thesis using assms seedfile_log [of ops cfg fs ok fs1 cfg1] by auto
  qed
qed

lemma configure_loop_log:
  assumes "configure_loop ops cfg n this fs = Some r"
  shows "\<exists>l. log_configure_loop ops cfg this fs = Some l \<and> fst r = (if refusals l = 0 then n else 1)"
proof (rule configure_loop.raw_induct [where P = "\<lambda>ops cfg n this fs r.
    \<exists>l. log_configure_loop ops cfg this fs = Some l \<and> fst r = (if refusals l = 0 then n else 1)",
    OF _ assms], goal_cases)
  case (1 rec ops cfg n this fs r)
  obtain var st1 where w: "GetMyFirstWord ops cfg = (var, st1)" by (metis surj_pair)
  show ?case
  proof (cases var)
    case None
    then show ?thesis using 1(2) by (subst log_configure_loop.simps) (auto simp: w)
  next
    case var: (Some v)
    show ?thesis
    proof (cases "map_of k_directives v")
      case None
      then have "rec ops st1 n this fs = Some r" using 1(2) w var by simp
      from 1(1) [OF this] show ?thesis
        using var None by (subst log_configure_loop.simps) (auto simp: w)
    next
      case (Some d)
      then obtain ok this1 fs1 st2 where d: "parse_directive ops d st1 this fs = Some (ok, this1, fs1, st2)"
        "rec ops st2 (if ok then n else 1) this1 fs1 = Some r"
        using 1(2) w var by (auto split: option.splits)
      obtain l where l: "log_directive ops d st1 = Some l" "refusals l = (if ok then 0 else 1)"
        using directive_log [OF d(1)] by blast
      obtain l2 where l2: "log_configure_loop ops st2 this1 fs1 = Some l2"
        "fst r = (if refusals l2 = 0 then if ok then n else 1 else 1)"
        using 1(1) [OF d(2)] by blast
      have "log_configure_loop ops cfg this fs = Some (l @ l2)"
        using l l2 d(1) var Some by (subst log_configure_loop.simps) (simp add: w)
      then show ?thesis using l l2 by simp
    qed
  qed
qed

text \<open>
  C22: Configure returns 0 exactly when it wrote no refusal to the log, that is no
  message other than the three warnings that say 'ignored'; its log is complete whenever
  it returns, and ends with the summary of what was configured unless the file could not
  be opened.
\<close>

theorem refusals_are_logged:
  assumes "Configure ops configfn this fs = Some (rc, this1, fs1)"
    and "\<forall>errno. errno \<noteq> 0 \<longrightarrow> Emsg ops errno \<noteq> 0"
  shows "\<exists>l. log_Configure ops configfn this fs = Some l \<and> (rc = 0 \<longleftrightarrow> refusals l = 0) \<and>
    (last l = Say [logConfig this1] \<or> (\<exists>fn errno. configfn = Some fn \<and> Attach ops fn = Inl errno))"
proof (cases "configfn = None \<or> configfn = Some ''''")
  case True
  then show ?thesis using assms(1) by (auto simp: Configure_def log_Configure_def)
next
  case False
  then obtain fn where fn: "configfn = Some fn" "fn \<noteq> ''''" by auto
  show ?thesis
  proof (cases "Attach ops fn")
    case (Inl errno)
    then show ?thesis using assms(1) fn by (simp add: Configure_def log_Configure_def)
  next
    case (Inr st)
    obtain n st1 where c: "configure_loop ops st 0 this fs = Some (n, this1, fs1, st1)"
      "rc = (if LastError ops st1 \<noteq> 0 then Emsg ops (- LastError ops st1) else n)"
      using assms(1) fn Inr by (auto simp: Configure_def Let_def split: option.splits)
    obtain l where "log_configure_loop ops st this fs = Some l" "n = (if refusals l = 0 then 0 else 1)"
      using configure_loop_log [OF c(1)] by auto
    then show ?thesis using c assms(2) fn Inr by (simp add: log_Configure_def Let_def)
  qed
qed


theorem refusals_are_logged_witness:
  "\<exists>l. log_Configure (list_stream [[''blackhole.readtype'', ''ones'']]) (Some ''/etc/x'') new_oss empty_fs
      = Some l \<and> refusals l \<noteq> 0 \<and> last l = Say [logConfig new_oss]"
proof -
  let ?ops = "list_stream [[''blackhole.readtype'', ''ones'']]"
  have at: "Attach ?ops ''/etc/x'' = Inr ([], [[''blackhole.readtype'', ''ones'']])"
    "\<forall>st. LastError ?ops st = 0" "''/etc/x'' \<noteq> ''''" "\<forall>e. e \<noteq> 0 \<longrightarrow> Emsg ?ops e \<noteq> 0"
    by (simp_all add: list_stream_def)
  have "Configure ?ops (Some ''/etc/x'') new_oss empty_fs = Some (1, new_oss, empty_fs)"
    unfolding Configure_lines [OF list_stream_laws at(2,3,1)] by (simp add: k_directives_def)
  from refusals_are_logged [OF this at(4)] show ?thesis using at(1) by auto
qed

end
