(* ===== verification/Concurrent_IO.thy ===== *)
theory Concurrent_IO
  imports OssFile_Session "HOL-Library.Multiset"
begin

text \<open>
  Concurrent I/O calls on one open handle. \<^verbatim>\<open>XrdBlackholeOssFile.hh\<close> keeps the seven
  counters of a handle in atomics because the calls may come from several threads, so
  here a call is not one step: it is the sequence of its atomic updates and of the
  completion signals it sends, and the updates of different threads interleave.
\<close>

section \<open>The atomic updates of a call\<close>

datatype io_act =
    AddWriteBytes i64
  | AddWriteBytesAIO i64
  | AddReadBytes i64
  | AddWriteOps u32
  | AddWriteAioOps u32
  | AddReadOps u32
  | AddErrors u32
  | Signal i64

fun act :: "io_act \<Rightarrow> oss_file \<Rightarrow> oss_file" where
  "act (AddWriteBytes n) f = f\<lparr>m_writeBytes := m_writeBytes f + n\<rparr>"
| "act (AddWriteBytesAIO n) f = f\<lparr>m_writeBytesAIO := m_writeBytesAIO f + n\<rparr>"
| "act (AddReadBytes n) f = f\<lparr>m_readBytes := m_readBytes f + n\<rparr>"
| "act (AddWriteOps n) f = f\<lparr>m_writeOps := m_writeOps f + n\<rparr>"
| "act (AddWriteAioOps n) f = f\<lparr>m_writeAioOps := m_writeAioOps f + n\<rparr>"
| "act (AddReadOps n) f = f\<lparr>m_readOps := m_readOps f + n\<rparr>"
| "act (AddErrors n) f = f\<lparr>m_errors := m_errors f + n\<rparr>"
| "act (Signal rc) f = f"

fun signals :: "io_act \<Rightarrow> i64 list" where
  "signals (Signal rc) = [rc]"
| "signals _ = []"

definition read_acts :: "oss_file \<Rightarrow> byte list \<Rightarrow> i64 \<Rightarrow> u64 \<Rightarrow> io_act list" where
  "read_acts f buff offset blen =
     (case m_stub f of
        None \<Rightarrow> [AddErrors 1]
      | Some _ \<Rightarrow>
          let n = fst (ReadInner f buff offset blen)
          in if 0 < sint n then [AddReadBytes n, AddReadOps 1] else [])"

definition readv_acts :: "oss_file \<Rightarrow> iov list \<Rightarrow> i32 \<Rightarrow> io_act list" where
  "readv_acts f readV n =
     (if sint n \<le> 0 then []
      else case m_stub f of
        None \<Rightarrow> [AddErrors 1]
      | Some _ \<Rightarrow>
          (case fst (readv_loop f (take (nat (sint n)) readV) 0 0) of
             Inl rc \<Rightarrow> []
           | Inr (tot, ops) \<Rightarrow> [AddReadBytes tot, AddReadOps ops]))"

text \<open>
  The updates of each call in program order. An asynchronous write signals its completion
  before it counts its bytes, an asynchronous read after.
\<close>

fun call_acts :: "file_op \<Rightarrow> oss_file \<Rightarrow> io_act list" where
  "call_acts (DoWrite offset blen) f = [AddWriteBytes blen, AddWriteOps 1]"
| "call_acts (DoWriteAio aiop) f =
     [Signal (aio_nbytes aiop), AddWriteBytesAIO (aio_nbytes aiop), AddWriteAioOps 1]"
| "call_acts (DoRead buff offset blen) f = read_acts f buff offset blen"
| "call_acts (DoReadAio aiop) f =
     read_acts f (aio_buf aiop) (aio_offset aiop) (aio_nbytes aiop) @
     [Signal (fst (Read (aio_buf aiop) (aio_offset aiop) (aio_nbytes aiop) f))]"
| "call_acts (DoReadRaw buff offset blen) f = read_acts f buff offset blen"
| "call_acts (DoReadV vs n) f = readv_acts f vs n"
| "call_acts (DoReadPrep offset blen) f =
     (case m_stub f of None \<Rightarrow> [AddErrors 1] | Some _ \<Rightarrow> [])"
| "call_acts DoFsync f = []"
| "call_acts (DoFtruncate len) f = []"

section \<open>Threads\<close>

record thread =
  th_ops :: "file_op list"
  th_acts :: "io_act list"
  th_rcs :: "i64 list"
  th_done :: "i64 list"

definition new_thread :: "file_op list \<Rightarrow> thread" where
  "new_thread ops = \<lparr>th_ops = ops, th_acts = [], th_rcs = [], th_done = []\<rparr>"

definition finished :: "thread \<Rightarrow> bool" where
  "finished t \<longleftrightarrow> th_ops t = [] \<and> th_acts t = []"

text \<open>
  A thread that is between calls starts its next one; a thread inside a call does its
  next atomic update.
\<close>

inductive io_step :: "oss_file \<times> thread list \<Rightarrow> oss_file \<times> thread list \<Rightarrow> bool" where
  call: "i < length ts \<Longrightarrow> th_acts (ts ! i) = [] \<Longrightarrow> th_ops (ts ! i) = op # ops \<Longrightarrow>
    io_step (f, ts) (f, ts[i := (ts ! i)\<lparr>th_ops := ops, th_acts := call_acts op f,
      th_rcs := th_rcs (ts ! i) @ [fst (do_op op f)]\<rparr>])"
| atom: "i < length ts \<Longrightarrow> th_acts (ts ! i) = a # as \<Longrightarrow>
    io_step (f, ts) (act a f, ts[i := (ts ! i)\<lparr>th_acts := as,
      th_done := th_done (ts ! i) @ signals a\<rparr>])"

inductive_cases io_stepE: "io_step (f, ts) s"

section \<open>The updates commute\<close>

lemma act_commute: "act a (act b f) = act b (act a f)"
  by (cases a; cases b) (simp_all add: ac_simps)

interpretation acts: comp_fun_commute act
  by unfold_locales (simp add: fun_eq_iff act_commute)

lemma fold_act_commute: "act a (fold act as f) = fold act as (act a f)"
  by (induction as arbitrary: f) (simp_all add: act_commute)

lemma fold_mset_acts: "fold_mset act f (mset as) = fold act as f"
  by (induction as arbitrary: f) (simp_all add: fold_act_commute)

lemma same_open_act: "same_open f (act a f)"
  by (cases a) (simp_all add: same_open_def)

lemma same_open_fold_act: "same_open f (fold act as f)"
  by (induction as arbitrary: f)
    (auto intro: same_open_refl same_open_trans [OF same_open_act])

text \<open>A call done in one piece is the run of its updates.\<close>

lemma fold_read_acts:
  "fold act (read_acts f buff offset blen) f = fst (snd (Read buff offset blen f))"
  by (auto simp: read_acts_def Read_def case_prod_beta Let_def split: option.split)

lemma fold_call_acts: "fold act (call_acts op f) f = snd (do_op op f)"
  by (cases op)
    (auto simp: fold_read_acts Write_def Write_aio_def Read_aio_def ReadRaw_def readv_acts_def
      ReadV_def Read_prep_def case_prod_beta Let_def split: option.split sum.split)

text \<open>What a call does and returns depends only on what no call changes.\<close>

lemma ReadInner_same_open: "same_open f g \<Longrightarrow> ReadInner f = ReadInner g"
  by (intro ReadInner_cong) (simp_all add: same_open_def)

lemma readv_loop_same_open: "same_open f g \<Longrightarrow> readv_loop f vs t k = readv_loop g vs t k"
  by (induction vs arbitrary: t k) (simp_all add: ReadInner_same_open [of f g] case_prod_beta Let_def)

lemma Read_same_open:
  assumes "same_open f g"
  shows "fst (Read buff offset blen f) = fst (Read buff offset blen g)"
  using ReadInner_same_open [OF assms] assms
  by (simp add: Read_def same_open_def case_prod_beta Let_def split: option.split)

lemma call_acts_same_open:
  assumes "same_open f g"
  shows "call_acts op f = call_acts op g"
  using ReadInner_same_open [OF assms] readv_loop_same_open [OF assms] Read_same_open [OF assms] assms
  by (cases op) (simp_all add: read_acts_def readv_acts_def same_open_def split: option.split)

lemma do_op_same_open:
  assumes "same_open f g"
  shows "fst (do_op op f) = fst (do_op op g)"
  using Read_same_open [OF assms] readv_loop_same_open [OF assms] assms
  by (cases op)
    (simp_all add: Write_def Write_aio_def Read_aio_def ReadRaw_def ReadV_def Read_prep_def
      Fsync_def Ftruncate_def case_prod_beta Let_def same_open_def split: option.split sum.split)

section \<open>What is still to be done\<close>

text \<open>
  The updates that a thread has left, and those of all threads, as a multiset. A step
  either leaves it as it is or takes the update it performs out of it.
\<close>

definition ops_left :: "oss_file \<Rightarrow> file_op list \<Rightarrow> io_act multiset" where
  "ops_left f ops = (\<Sum>op\<leftarrow>ops. mset (call_acts op f))"

definition acts_left :: "oss_file \<Rightarrow> thread list \<Rightarrow> io_act multiset" where
  "acts_left f ts = (\<Sum>t\<leftarrow>ts. mset (th_acts t) + ops_left f (th_ops t))"

lemma ops_left_simps [simp]:
  "ops_left f [] = {#}" "ops_left f (op # ops) = mset (call_acts op f) + ops_left f ops"
  "ops_left f (ops @ ops') = ops_left f ops + ops_left f ops'"
  by (simp_all add: ops_left_def)

lemma ops_left_mset: "mset ops = mset ops' \<Longrightarrow> ops_left f ops = ops_left f ops'"
  unfolding ops_left_def by (metis mset_map sum_mset_sum_list)

lemma ops_left_same_open: "same_open f g \<Longrightarrow> ops_left f ops = ops_left g ops"
  by (simp add: ops_left_def call_acts_same_open [of f g])

lemma acts_left_same_open: "same_open f g \<Longrightarrow> acts_left f ts = acts_left g ts"
  by (simp add: acts_left_def ops_left_same_open [of f g])

lemma acts_left_new: "acts_left f (map new_thread progs) = ops_left f (concat progs)"
  by (induction progs) (simp_all add: acts_left_def new_thread_def)

lemma acts_left_finished: "list_all finished ts \<Longrightarrow> acts_left f ts = {#}"
  by (induction ts) (simp_all add: acts_left_def finished_def)

lemma sum_list_update:
  fixes g :: "'a \<Rightarrow> 'b::comm_monoid_add"
  shows "i < length ts \<Longrightarrow>
    sum_list (map g (ts[i := t])) + g (ts ! i) = sum_list (map g ts) + g t"
  by (induction ts arbitrary: i) (auto simp: ac_simps split: nat.split)

lemma acts_left_update:
  assumes "i < length ts"
    and "mset (th_acts t) + ops_left f (th_ops t) + d =
      mset (th_acts (ts ! i)) + ops_left f (th_ops (ts ! i))"
  shows "acts_left f (ts[i := t]) + d = acts_left f ts"
proof -
  let ?g = "\<lambda>t. mset (th_acts t) + ops_left f (th_ops t)"
  have "sum_list (map ?g (ts[i := t])) + (?g t + d) = sum_list (map ?g ts) + ?g t"
    using sum_list_update [OF assms(1), of ?g t] assms(2) by simp
  then show ?thesis unfolding acts_left_def by (simp add: ac_simps)
qed

text \<open>A call run on its own is the fold over its updates, in any order.\<close>

lemma run_ops_acts: "snd (run_ops ops f) = fold_mset act f (ops_left f ops)"
proof (induction ops arbitrary: f)
  case (Cons op ops)
  have "ops_left (snd (do_op op f)) ops = ops_left f ops"
    by (rule ops_left_same_open [OF same_open_do_op, symmetric])
  then show ?case
    using Cons [of "snd (do_op op f)"] fold_call_acts [of op f]
    by (simp add: case_prod_beta Let_def fold_mset_acts)
qed simp

lemma run_ops_rcs: "fst (run_ops ops f) = map (\<lambda>op. fst (do_op op f)) ops"
proof (induction ops arbitrary: f)
  case (Cons op ops)
  have "fst (do_op op' (snd (do_op op f))) = fst (do_op op' f)" for op'
    by (rule do_op_same_open [OF same_open_do_op, symmetric])
  then show ?case using Cons [of "snd (do_op op f)"] by (simp add: case_prod_beta Let_def)
qed simp

section \<open>Every schedule\<close>

text \<open>The two facts every schedule keeps: where the updates lead, and what each thread's
  calls return.\<close>

definition goal :: "oss_file \<times> thread list \<Rightarrow> oss_file" where
  "goal s = fold_mset act (fst s) (acts_left (fst s) (snd s))"

definition results :: "oss_file \<Rightarrow> thread \<Rightarrow> i64 list" where
  "results f t = th_rcs t @ map (\<lambda>op. fst (do_op op f)) (th_ops t)"

lemma io_step_same_open: "io_step s s' \<Longrightarrow> same_open (fst s) (fst s')"
  by (induction rule: io_step.induct) (auto simp: same_open_refl same_open_act)

lemma io_step_goal: "io_step s s' \<Longrightarrow> goal s' = goal s"
proof (induction rule: io_step.induct)
  case (call i ts op ops f)
  then have "acts_left f (ts[i := (ts ! i)\<lparr>th_ops := ops, th_acts := call_acts op f,
      th_rcs := th_rcs (ts ! i) @ [fst (do_op op f)]\<rparr>]) + {#} = acts_left f ts"
    by (intro acts_left_update) simp_all
  then show ?case by (simp add: goal_def)
next
  case (atom i ts a as f)
  let ?ts = "ts[i := (ts ! i)\<lparr>th_acts := as, th_done := th_done (ts ! i) @ signals a\<rparr>]"
  have "acts_left f ?ts + {#a#} = acts_left f ts"
    using atom by (intro acts_left_update) simp_all
  then have "goal (f, ts) = fold_mset act f (add_mset a (acts_left (act a f) ?ts))"
    by (simp add: goal_def acts_left_same_open [OF same_open_act, symmetric])
  then show ?case by (simp add: goal_def acts.fold_mset_fun_left_comm)
qed

lemma io_step_results: "io_step s s' \<Longrightarrow> map (results (fst s')) (snd s') = map (results (fst s)) (snd s)"
proof (induction rule: io_step.induct)
  case (call i ts op ops f)
  then show ?case
    by (simp add: map_update results_def list_update_same_conv)
next
  case (atom i ts a as f)
  have "fst (do_op op (act a f)) = fst (do_op op f)" for op
    by (rule do_op_same_open [OF same_open_act, symmetric])
  then show ?case
    using atom by (simp add: map_update results_def [abs_def] list_update_same_conv)
qed

lemma io_steps_keep:
  "io_step\<^sup>*\<^sup>* s s' \<Longrightarrow> goal s' = goal s \<and> map (results (fst s')) (snd s') = map (results (fst s)) (snd s)"
  by (induction rule: rtranclp_induct) (simp_all add: io_step_goal io_step_results)

lemma io_finished:
  assumes "io_step\<^sup>*\<^sup>* (f, map new_thread progs) (f', ts)" and "list_all finished ts"
    and "mset ops = mset (concat progs)"
  shows "f' = snd (run_ops ops f)"
proof -
  have "f' = goal (f, map new_thread progs)"
    using io_steps_keep [OF assms(1)] acts_left_finished [OF assms(2), of f'] by (simp add: goal_def)
  then show ?thesis
    using ops_left_mset [OF assms(3)] by (simp add: goal_def acts_left_new run_ops_acts)
qed

text \<open>
  C10: I/O calls that several threads make on one handle at once, interleaved at their
  single atomic updates, leave the handle as the same calls one after the other do, in
  any order, and each thread gets the results it would get alone.
\<close>

theorem concurrent_io_is_sequential:
  assumes "io_step\<^sup>*\<^sup>* (f, map new_thread progs) (f', ts)" and "list_all finished ts"
    and "mset ops = mset (concat progs)"
  shows "f' = snd (run_ops ops f) \<and> map th_rcs ts = map (\<lambda>prog. fst (run_ops prog f)) progs"
proof
  show "f' = snd (run_ops ops f)" by (rule io_finished [OF assms])
  have keep: "map (results f') ts = map (results f) (map new_thread progs)"
    using io_steps_keep [OF assms(1)] by simp
  have "map th_rcs ts = map (results f') ts"
    using assms(2) by (simp add: results_def finished_def list_all_iff)
  then show "map th_rcs ts = map (\<lambda>prog. fst (run_ops prog f)) progs"
    using keep by (simp add: run_ops_rcs results_def new_thread_def)
qed

section \<open>All calls can run to their end\<close>

text \<open>
  A call makes at most three updates, so a call that is not yet started weighs more than
  the updates it turns into.
\<close>

lemma length_call_acts: "length (call_acts op f) \<le> 3"
  by (cases op) (auto simp: read_acts_def readv_acts_def Let_def split: option.split sum.split)

definition work :: "thread list \<Rightarrow> nat" where
  "work ts = (\<Sum>t\<leftarrow>ts. 4 * length (th_ops t) + length (th_acts t))"

lemma work_update:
  assumes "i < length ts"
    and "4 * length (th_ops t) + length (th_acts t) <
      4 * length (th_ops (ts ! i)) + length (th_acts (ts ! i))"
  shows "work (ts[i := t]) < work ts"
  using sum_list_update [OF assms(1), of "\<lambda>t. 4 * length (th_ops t) + length (th_acts t)" t] assms(2)
  by (simp add: work_def)

lemma io_step_work: "io_step s s' \<Longrightarrow> work (snd s') < work (snd s)"
proof (induction rule: io_step.induct)
  case (call i ts op ops f)
  then show ?case using length_call_acts [of op f] by (auto intro: work_update)
qed (auto intro: work_update)

lemma io_step_progress: "\<not> list_all finished ts \<Longrightarrow> \<exists>s. io_step (f, ts) s"
proof -
  assume "\<not> list_all finished ts"
  then obtain i where i: "i < length ts" "\<not> finished (ts ! i)"
    by (auto simp: list_all_length)
  show ?thesis
  proof (cases "th_acts (ts ! i)")
    case Nil
    with i(2) obtain op ops where "th_ops (ts ! i) = op # ops"
      by (auto simp: finished_def neq_Nil_conv)
    from io_step.call [OF i(1) Nil this] show ?thesis by blast
  next
    case (Cons a as)
    from io_step.atom [OF i(1) Cons] show ?thesis by blast
  qed
qed

lemma io_finishes: "\<exists>f' ts'. io_step\<^sup>*\<^sup>* (f, ts) (f', ts') \<and> list_all finished ts'"
proof (induction "work ts" arbitrary: f ts rule: less_induct)
  case less
  show ?case
  proof (cases "list_all finished ts")
    case False
    then obtain f1 ts1 where st: "io_step (f, ts) (f1, ts1)"
      using io_step_progress [of ts f] by auto
    then have "work ts1 < work ts" using io_step_work [OF st] by simp
    from less [OF this] st show ?thesis by (blast intro: converse_rtranclp_into_rtranclp)
  qed blast
qed

text \<open>A run of the steps of a single thread that makes one call.\<close>

lemma io_step_call1:
  "io_step (f, [new_thread [op]])
     (f, [\<lparr>th_ops = [], th_acts = call_acts op f, th_rcs = [fst (do_op op f)], th_done = []\<rparr>])"
  using io_step.call [of 0 "[new_thread [op]]" op "[]" f] by (simp add: new_thread_def)

lemma io_step_atom1:
  "io_step (f, [\<lparr>th_ops = ops, th_acts = a # as, th_rcs = rcs, th_done = ds\<rparr>])
     (act a f, [\<lparr>th_ops = ops, th_acts = as, th_rcs = rcs, th_done = ds @ signals a\<rparr>])"
  using io_step.atom [of 0 "[\<lparr>th_ops = ops, th_acts = a # as, th_rcs = rcs, th_done = ds\<rparr>]" a as f]
  by simp

theorem concurrent_io_is_sequential_witness:
  "\<exists>f' ts. io_step\<^sup>*\<^sup>* (new_file, map new_thread [[DoWrite 0 5], [DoWrite 5 7]]) (f', ts) \<and>
     list_all finished ts \<and> m_writeBytes f' = 12 \<and> map th_rcs ts = [[5], [7]]"
proof -
  obtain f' ts where r: "io_step\<^sup>*\<^sup>* (new_file, map new_thread [[DoWrite 0 5], [DoWrite 5 7]]) (f', ts)"
    "list_all finished ts" using io_finishes by blast
  have "mset [DoWrite 5 7, DoWrite 0 5] = mset (concat [[DoWrite 0 5], [DoWrite 5 7]])" by simp
  from concurrent_io_is_sequential [OF r this] r show ?thesis
    by (intro exI [of _ f'] exI [of _ ts]) (simp add: Write_def new_file_def)
qed

section \<open>The completion signal of an asynchronous write\<close>

text \<open>
  C39: An asynchronous write signals its completion before it counts its bytes: a close
  at that moment records the transfer and sets the file's size without them, although
  the call adds them in the end.
\<close>

theorem aio_write_signalled_before_counted:
  assumes "m_stub f = Some r" and "m_isOpenWrite (cell (g_blackholeFS g) r)"
  shows "(\<exists>t. io_step\<^sup>*\<^sup>* (f, [new_thread [DoWriteAio aiop]]) (f, [t]) \<and>
      th_done t = [aio_nbytes aiop] \<and>
      (let (f1, g1) = Close_begin now r f g in
        bytes_written (m_stats f1) = out_bytes f \<and>
        m_size (cell (g_blackholeFS g1) r) = out_bytes f)) \<and>
    (\<forall>f' ts. io_step\<^sup>*\<^sup>* (f, [new_thread [DoWriteAio aiop]]) (f', ts) \<and> list_all finished ts \<longrightarrow>
      out_bytes f' = out_bytes f + aio_nbytes aiop)"
proof
  let ?t = "\<lparr>th_ops = [], th_acts = [AddWriteBytesAIO (aio_nbytes aiop), AddWriteAioOps 1],
    th_rcs = [fst (do_op (DoWriteAio aiop) f)], th_done = [] @ signals (Signal (aio_nbytes aiop))\<rparr>"
  have "io_step\<^sup>*\<^sup>* (f, [new_thread [DoWriteAio aiop]]) (f, [?t])"
    using io_step_call1 [of f "DoWriteAio aiop"]
      io_step_atom1 [of f "[]" "Signal (aio_nbytes aiop)"
        "[AddWriteBytesAIO (aio_nbytes aiop), AddWriteAioOps 1]" "[fst (do_op (DoWriteAio aiop) f)]" "[]"]
    by (intro converse_rtranclp_into_rtranclp [OF _ r_into_rtranclp]) simp_all
  moreover have "let (f1, g1) = Close_begin now r f g in
      bytes_written (m_stats f1) = out_bytes f \<and> m_size (cell (g_blackholeFS g1) r) = out_bytes f"
    using assms by (simp add: Close_begin_def out_bytes_def Let_def)
  ultimately show "\<exists>t. io_step\<^sup>*\<^sup>* (f, [new_thread [DoWriteAio aiop]]) (f, [t]) \<and>
      th_done t = [aio_nbytes aiop] \<and>
      (let (f1, g1) = Close_begin now r f g in
        bytes_written (m_stats f1) = out_bytes f \<and> m_size (cell (g_blackholeFS g1) r) = out_bytes f)"
    by (intro exI [of _ ?t]) simp
  show "\<forall>f' ts. io_step\<^sup>*\<^sup>* (f, [new_thread [DoWriteAio aiop]]) (f', ts) \<and> list_all finished ts \<longrightarrow>
      out_bytes f' = out_bytes f + aio_nbytes aiop"
  proof (intro allI impI, elim conjE)
    fix f' ts
    assume "io_step\<^sup>*\<^sup>* (f, [new_thread [DoWriteAio aiop]]) (f', ts)" "list_all finished ts"
    then have "f' = snd (do_op (DoWriteAio aiop) f)"
      using io_finished [of f "[[DoWriteAio aiop]]" f' ts "[DoWriteAio aiop]"]
      by (simp add: case_prod_beta Let_def)
    then show "out_bytes f' = out_bytes f + aio_nbytes aiop"
      using do_op_counters(1) [OF assms(1), of "DoWriteAio aiop"] by simp
  qed
qed

theorem aio_write_signalled_before_counted_witness:
  "\<exists>t. io_step\<^sup>*\<^sup>* (new_file\<lparr>m_stub := Some 0\<rparr>,
      [new_thread [DoWriteAio \<lparr>aio_nbytes = 4096, aio_offset = 0, aio_buf = [], aio_Result = 0,
         doneRead_calls = [], doneWrite_calls = []\<rparr>]]) (new_file\<lparr>m_stub := Some 0\<rparr>, [t]) \<and>
     th_done t = [4096] \<and>
     bytes_written (m_stats (fst (Close_begin 9 0 (new_file\<lparr>m_stub := Some 0\<rparr>)
       \<lparr>g_blackholeFS = snd (open_fs ''/w'' O_WRONLY 0 empty_fs), g_statsManager = empty_manager\<rparr>))) = 0"
proof -
  let ?g = "\<lparr>g_blackholeFS = snd (open_fs ''/w'' O_WRONLY 0 empty_fs), g_statsManager = empty_manager\<rparr>"
  have "m_isOpenWrite (cell (g_blackholeFS ?g) 0)"
    by (simp add: open_fs_new open_create_eq om_find_def)
  from aio_write_signalled_before_counted [of "new_file\<lparr>m_stub := Some 0\<rparr>" 0, OF _ this] show ?thesis
    by (fastforce simp: case_prod_beta Let_def new_file_def out_bytes_def)
qed

end
