(* ===== verification/Concurrent_Close.thy ===== *)
theory Concurrent_Close
  imports OssFile_Session Oss "HOL-Library.Multiset"
begin

text \<open>
  Closes of several handles at once. \<^verbatim>\<open>Close\<close> looks at the write mark of the stub and
  stores the two sizes without the namespace's mutex, so here a close is the sequence of
  its accesses to shared memory, and a schedule says whose turn it is. Closes that do not
  meet on a file that is being written act one after the other; two that do can leave a
  stub with two different sizes.
\<close>

section \<open>The accesses of a close\<close>

datatype close_pc = AtCheck | AtSize | AtStat | AtSubmit | AtUnmark | AtReset | Returned

text \<open>\<open>c_now\<close> is the clock reading at the start, \<open>c_wb\<close> the local variable \<^verbatim>\<open>wb\<close>.\<close>

record closer =
  c_pc :: close_pc
  c_now :: int
  c_wb :: i64
  c_file :: oss_file
  c_rc :: int

definition new_closer :: "int \<times> oss_file \<Rightarrow> closer" where
  "new_closer nf = \<lparr>c_pc = AtCheck, c_now = fst nf, c_wb = 0, c_file = snd nf, c_rc = 0\<rparr>"

definition close_access :: "closer \<Rightarrow> globals \<Rightarrow> closer \<times> globals" where
  "close_access c g =
     (let f = c_file c; fs = g_blackholeFS g; r = the (m_stub f) in
      case c_pc c of
        AtCheck \<Rightarrow>
          (case m_stub f of
             None \<Rightarrow> (c\<lparr>c_pc := Returned, c_rc := - ENOENT\<rparr>, g)
           | Some r \<Rightarrow>
               (c\<lparr>c_pc := (if m_isOpenWrite (cell fs r) then AtSize else AtSubmit),
                  c_wb := m_writeBytes f + m_writeBytesAIO f, c_file := f\<lparr>m_end := c_now c\<rparr>\<rparr>, g))
      | AtSize \<Rightarrow>
          (c\<lparr>c_pc := AtStat\<rparr>, g\<lparr>g_blackholeFS := upd_stub r (\<lambda>s. s\<lparr>m_size := c_wb c\<rparr>) fs\<rparr>)
      | AtStat \<Rightarrow>
          (c\<lparr>c_pc := AtSubmit\<rparr>,
           g\<lparr>g_blackholeFS := upd_stub r (\<lambda>s. s\<lparr>m_stat := (m_stat s)\<lparr>st_size := c_wb c\<rparr>\<rparr>) fs\<rparr>)
      | AtSubmit \<Rightarrow>
          let stats = (m_stats f)\<lparr>duration_us := micros (c_now c - m_start f), bytes_written := c_wb c,
                        bytes_read := m_readBytes f, write_ops := m_writeOps f,
                        write_aio_ops := m_writeAioOps f, read_ops := m_readOps f,
                        ts_errors := m_errors f\<rparr>
          in (c\<lparr>c_pc := AtUnmark, c_file := f\<lparr>m_stats := stats\<rparr>\<rparr>,
              g\<lparr>g_statsManager := recordTransfer stats (g_statsManager g)\<rparr>)
      | AtUnmark \<Rightarrow> (c\<lparr>c_pc := AtReset\<rparr>, g\<lparr>g_blackholeFS := close_fs (m_path f) fs\<rparr>)
      | AtReset \<Rightarrow> (c\<lparr>c_pc := Returned, c_rc := XrdOssOK, c_file := f\<lparr>m_stub := None\<rparr>\<rparr>, g)
      | Returned \<Rightarrow> (c, g))"

text \<open>A schedule is the list of the threads that have a turn.\<close>

definition turn :: "nat \<Rightarrow> closer list \<times> globals \<Rightarrow> closer list \<times> globals" where
  "turn i s =
     (if i < length (fst s)
      then let (c, g) = close_access (fst s ! i) (snd s) in ((fst s)[i := c], g) else s)"

definition run_schedule :: "nat list \<Rightarrow> closer list \<times> globals \<Rightarrow> closer list \<times> globals" where
  "run_schedule sched s = fold turn sched s"

section \<open>Six turns are enough\<close>

fun turns_left :: "close_pc \<Rightarrow> nat" where
  "turns_left AtCheck = 6"
| "turns_left AtSize = 5"
| "turns_left AtStat = 4"
| "turns_left AtSubmit = 3"
| "turns_left AtUnmark = 2"
| "turns_left AtReset = 1"
| "turns_left Returned = 0"

lemma turns_left_0 [simp]: "turns_left pc = 0 \<longleftrightarrow> pc = Returned"
  by (cases pc) simp_all

lemma close_access_turns:
  "turns_left (c_pc (fst (close_access c g))) \<le> turns_left (c_pc c) - 1"
  by (cases "c_pc c") (simp_all add: close_access_def Let_def split: option.split)

lemma length_turn [simp]: "length (fst (turn i s)) = length (fst s)"
  by (simp add: turn_def case_prod_beta Let_def)

lemma run_schedule_simps [simp]:
  "run_schedule [] s = s" "run_schedule (i # sched) s = run_schedule sched (turn i s)"
  by (simp_all add: run_schedule_def)

lemma length_run_schedule [simp]: "length (fst (run_schedule sched s)) = length (fst s)"
  by (induction sched arbitrary: s) simp_all

lemma turn_turns:
  assumes "j < length (fst s)"
  shows "turns_left (c_pc (fst (turn i s) ! j)) \<le>
    turns_left (c_pc (fst s ! j)) - (if i = j then 1 else 0)"
  using close_access_turns [of "fst s ! j" "snd s"] assms
  by (auto simp: turn_def case_prod_beta Let_def nth_list_update)

lemma run_schedule_turns:
  assumes "j < length (fst s)"
  shows "turns_left (c_pc (fst (run_schedule sched s) ! j)) \<le>
    turns_left (c_pc (fst s ! j)) - count_list sched j"
  using assms
proof (induction sched arbitrary: s)
  case (Cons i sched)
  have "turns_left (c_pc (fst (run_schedule sched (turn i s)) ! j)) \<le>
      turns_left (c_pc (fst (turn i s) ! j)) - count_list sched j"
    using Cons by simp
  then show ?case using turn_turns [of j s i] Cons.prems by (simp split: if_splits)
qed simp

section \<open>Where a close is\<close>

text \<open>A handle that had a stub, at each point of its close.\<close>

abbreviation submitted :: "close_pc \<Rightarrow> bool" where
  "submitted pc \<equiv> turns_left pc \<le> 2"

fun closer_at :: "close_pc \<Rightarrow> int \<times> oss_file \<Rightarrow> closer" where
  "closer_at pc (now, f) =
     \<lparr>c_pc = pc, c_now = now, c_wb = (if pc = AtCheck then 0 else out_bytes f),
      c_file = f\<lparr>m_end := (if pc = AtCheck then m_end f else now),
        m_stats := (if submitted pc then close_stats now f else m_stats f),
        m_stub := (if pc = Returned then None else m_stub f)\<rparr>, c_rc = 0\<rparr>"

fun next_pc :: "bool \<Rightarrow> close_pc \<Rightarrow> close_pc" where
  "next_pc marked AtCheck = (if marked then AtSize else AtSubmit)"
| "next_pc marked AtSize = AtStat"
| "next_pc marked AtStat = AtSubmit"
| "next_pc marked AtSubmit = AtUnmark"
| "next_pc marked AtUnmark = AtReset"
| "next_pc marked AtReset = Returned"
| "next_pc marked Returned = Returned"

fun access_effect :: "close_pc \<Rightarrow> int \<times> oss_file \<Rightarrow> globals \<Rightarrow> globals" where
  "access_effect AtSize (now, f) g =
     g\<lparr>g_blackholeFS := upd_stub (the (m_stub f)) (\<lambda>s. s\<lparr>m_size := out_bytes f\<rparr>) (g_blackholeFS g)\<rparr>"
| "access_effect AtStat (now, f) g =
     g\<lparr>g_blackholeFS := upd_stub (the (m_stub f))
        (\<lambda>s. s\<lparr>m_stat := (m_stat s)\<lparr>st_size := out_bytes f\<rparr>\<rparr>) (g_blackholeFS g)\<rparr>"
| "access_effect AtSubmit (now, f) g =
     g\<lparr>g_statsManager := recordTransfer (close_stats now f) (g_statsManager g)\<rparr>"
| "access_effect AtUnmark (now, f) g = g\<lparr>g_blackholeFS := close_fs (m_path f) (g_blackholeFS g)\<rparr>"
| "access_effect _ _ g = g"

lemma new_closer_at: "new_closer nf = closer_at AtCheck nf"
  by (cases nf) (simp add: new_closer_def)

lemma closer_at_pc [simp]: "c_pc (closer_at pc nf) = pc"
  by (cases nf) simp

lemma close_access_at:
  assumes "m_stub (snd nf) = Some r"
  shows "close_access (closer_at pc nf) g =
    (closer_at (next_pc (m_isOpenWrite (cell (g_blackholeFS g) r)) pc) nf, access_effect pc nf g)"
  using assms
  by (cases nf; cases pc) (simp_all add: close_access_def close_stats_def out_bytes_def Let_def)


section \<open>Closes that keep out of each other's way\<close>

text \<open>
  The handles have a stub; their path still leads to it or nowhere; and of a stub that is
  marked as being written no two of them have a pointer.
\<close>

definition undisturbed :: "bhfs \<Rightarrow> (int \<times> oss_file) list \<Rightarrow> bool" where
  "undisturbed fs ps \<longleftrightarrow>
     (\<forall>i < length ps. \<exists>r. m_stub (snd (ps ! i)) = Some r \<and>
        getStub fs (m_path (snd (ps ! i))) \<in> {None, Some r}) \<and>
     (\<forall>i < length ps. \<forall>j < length ps. \<forall>r. i \<noteq> j \<and> m_stub (snd (ps ! i)) = Some r \<and>
        m_stub (snd (ps ! j)) = Some r \<longrightarrow> \<not> m_isOpenWrite (cell fs r))"

text \<open>How far the close has got with the stub; nothing happens to one that is not marked.\<close>

definition stub_at :: "bhfs \<Rightarrow> close_pc \<Rightarrow> oss_file \<Rightarrow> stub \<Rightarrow> stub" where
  "stub_at fs pc f s =
     s\<lparr>m_size := (if turns_left pc \<le> 4 then out_bytes f else m_size s),
       m_stat := (m_stat s)\<lparr>st_size := (if turns_left pc \<le> 3 then out_bytes f else st_size (m_stat s))\<rparr>,
       m_isOpenWrite := (m_isOpenWrite s \<and> (turns_left pc \<le> 1 \<longrightarrow> getStub fs (m_path f) = None))\<rparr>"

definition same_frame :: "bhfs \<Rightarrow> bhfs \<Rightarrow> bool" where
  "same_frame fs fs' \<longleftrightarrow> m_files fs' = m_files fs \<and> m_fd_last fs' = m_fd_last fs \<and>
     next_ref fs' = next_ref fs"

text \<open>
  The state after any number of accesses: it is fixed by where each close is and by the
  order in which the records were submitted.
\<close>

definition closing_state ::
  "globals \<Rightarrow> (int \<times> oss_file) list \<Rightarrow> (nat \<Rightarrow> close_pc) \<Rightarrow> nat list \<Rightarrow> globals \<Rightarrow> bool" where
  "closing_state g0 ps pc order g \<longleftrightarrow>
     (let fs0 = g_blackholeFS g0; fs = g_blackholeFS g in
      same_frame fs0 fs \<and>
      (\<forall>i < length ps. \<forall>r. m_stub (snd (ps ! i)) = Some r \<longrightarrow>
         cell fs r = (if m_isOpenWrite (cell fs0 r)
                      then stub_at fs0 (pc i) (snd (ps ! i)) (cell fs0 r) else cell fs0 r) \<and>
         (pc i \<in> {AtSize, AtStat} \<longrightarrow> m_isOpenWrite (cell fs0 r))) \<and>
      (\<forall>r. (\<forall>i < length ps. m_stub (snd (ps ! i)) \<noteq> Some r) \<longrightarrow> cell fs r = cell fs0 r) \<and>
      distinct order \<and> set order = {i. i < length ps \<and> submitted (pc i)} \<and>
      g_statsManager g =
        fold (\<lambda>i. recordTransfer (close_stats (fst (ps ! i)) (snd (ps ! i)))) order (g_statsManager g0))"

lemma stub_at_check [simp]: "stub_at fs AtCheck f s = s"
  by (simp add: stub_at_def)

lemma closing_start: "closing_state g ps (\<lambda>_. AtCheck) [] g"
  by (simp add: closing_state_def same_frame_def)

lemma same_frame_getStub: "same_frame fs fs' \<Longrightarrow> getStub fs' = getStub fs"
  unfolding fun_eq_iff by (simp only: same_frame_def getStub_def simp_thms)

text \<open>The effect of one access on the namespace, cell by cell.\<close>

lemma close_fs_gone: "getStub fs p = None \<Longrightarrow> close_fs p fs = fs"
  by (simp add: close_fs_def)

lemma access_effect_fs:
  assumes "m_stub f = Some r" "getStub (g_blackholeFS g) (m_path f) \<in> {None, Some r}"
  shows "same_frame (g_blackholeFS g) (g_blackholeFS (access_effect pc (now, f) g))"
    and "q \<noteq> r \<Longrightarrow> cell (g_blackholeFS (access_effect pc (now, f) g)) q = cell (g_blackholeFS g) q"
    and "pc \<notin> {AtSize, AtStat} \<Longrightarrow> \<not> m_isOpenWrite (cell (g_blackholeFS g) r) \<Longrightarrow>
      cell (g_blackholeFS (access_effect pc (now, f) g)) r = cell (g_blackholeFS g) r"
  using assms
  by (cases pc; auto simp: same_frame_def close_fs_found close_fs_gone)+

lemma access_effect_stub:
  assumes "m_stub f = Some r" "getStub (g_blackholeFS g) (m_path f) \<in> {None, Some r}"
    and "getStub fs = getStub (g_blackholeFS g)" "m_isOpenWrite s"
    and "cell (g_blackholeFS g) r = stub_at fs pc f s"
  shows "cell (g_blackholeFS (access_effect pc (now, f) g)) r = stub_at fs (next_pc True pc) f s"
proof (cases "pc = AtUnmark \<and> getStub (g_blackholeFS g) (m_path f) \<noteq> None")
  case True
  then have "getStub (g_blackholeFS g) (m_path f) = Some r" using assms(2) by auto
  then show ?thesis using True assms(3-5) by (simp add: close_fs_found stub_at_def)
next
  case False
  then show ?thesis
    using assms(1,3-5) by (cases pc) (simp_all add: stub_at_def close_fs_gone)
qed

lemma access_effect_stats:
  "g_statsManager (access_effect pc nf g) =
     (if pc = AtSubmit then recordTransfer (close_stats (fst nf) (snd nf)) (g_statsManager g)
      else g_statsManager g)"
  by (cases nf; cases pc) simp_all


lemma undisturbed_stub:
  assumes "undisturbed fs ps" "i < length ps"
  obtains r where "m_stub (snd (ps ! i)) = Some r" "getStub fs (m_path (snd (ps ! i))) \<in> {None, Some r}"
  using assms unfolding undisturbed_def by blast

lemma closing_step:
  assumes st: "closing_state g0 ps pc order g" and un: "undisturbed (g_blackholeFS g0) ps"
    and i: "i < length ps" and r: "m_stub (snd (ps ! i)) = Some r"
  shows "closing_state g0 ps
    (pc(i := next_pc (m_isOpenWrite (cell (g_blackholeFS g0) r)) (pc i)))
    (if pc i = AtSubmit then order @ [i] else order) (access_effect (pc i) (ps ! i) g)"
proof -
  let ?old = "g_blackholeFS g0" and ?fs = "g_blackholeFS g" and ?g' = "access_effect (pc i) (ps ! i) g"
  let ?m = "m_isOpenWrite (cell ?old r)" and ?f = "snd (ps ! i)"
  let ?pc' = "pc(i := next_pc ?m (pc i))"
  have pi: "ps ! i = (fst (ps ! i), ?f)" by simp
  have frame: "same_frame ?old ?fs" and cells: "\<And>j q. j < length ps \<Longrightarrow> m_stub (snd (ps ! j)) = Some q \<Longrightarrow>
      cell ?fs q = (if m_isOpenWrite (cell ?old q)
        then stub_at ?old (pc j) (snd (ps ! j)) (cell ?old q) else cell ?old q) \<and>
      (pc j \<in> {AtSize, AtStat} \<longrightarrow> m_isOpenWrite (cell ?old q))"
    and others: "\<And>q. \<forall>j < length ps. m_stub (snd (ps ! j)) \<noteq> Some q \<Longrightarrow> cell ?fs q = cell ?old q"
    and ord: "distinct order" "set order = {j. j < length ps \<and> submitted (pc j)}"
    "g_statsManager g =
      fold (\<lambda>j. recordTransfer (close_stats (fst (ps ! j)) (snd (ps ! j)))) order (g_statsManager g0)"
    using st by (auto simp: closing_state_def Let_def)
  have get: "getStub ?fs (m_path ?f) \<in> {None, Some r}" "getStub ?old = getStub ?fs"
    using undisturbed_stub [OF un i] r same_frame_getStub [OF frame] by auto
  note eff = access_effect_fs [OF r get(1), where pc = "pc i" and now = "fst (ps ! i)", folded pi]
  have own: "cell (g_blackholeFS ?g') r =
      (if ?m then stub_at ?old (?pc' i) ?f (cell ?old r) else cell ?old r)"
    using cells [OF i r] eff(3) 
      access_effect_stub [OF r get(1,2), where s = "cell ?old r" and pc = "pc i" and now = "fst (ps ! i)",
        folded pi]
    by (cases ?m) auto
  have "cell (g_blackholeFS ?g') q = (if m_isOpenWrite (cell ?old q)
        then stub_at ?old (?pc' j) (snd (ps ! j)) (cell ?old q) else cell ?old q) \<and>
      (?pc' j \<in> {AtSize, AtStat} \<longrightarrow> m_isOpenWrite (cell ?old q))"
    if j: "j < length ps" "m_stub (snd (ps ! j)) = Some q" for j q
  proof (cases "j = i")
    case True
    then show ?thesis using own j r cells [OF i r] by (cases "pc i") auto
  next
    case False
    then have "q = r \<Longrightarrow> \<not> ?m" using un i j r unfolding undisturbed_def by blast
    then show ?thesis using False own eff(2) cells [OF j] by (cases "q = r") auto
  qed
  moreover have "cell (g_blackholeFS ?g') q = cell ?old q"
    if "\<forall>j < length ps. m_stub (snd (ps ! j)) \<noteq> Some q" for q
    using that i r others [OF that] eff(2) [of q] by auto
  moreover have "same_frame ?old (g_blackholeFS ?g')" using frame eff(1) by (simp add: same_frame_def)
  moreover have "submitted (?pc' i) \<longleftrightarrow> submitted (pc i) \<or> pc i = AtSubmit" by (cases "pc i") auto
  ultimately show ?thesis
    unfolding closing_state_def Let_def using ord i by (auto simp: access_effect_stats)
qed

lemma closing_state_unique:
  assumes "closing_state g0 ps pc order g" "closing_state g0 ps pc order g'"
  shows "g = g'"
proof -
  have "cell (g_blackholeFS g) q = cell (g_blackholeFS g') q" for q
    using assms by (cases "\<exists>i < length ps. m_stub (snd (ps ! i)) = Some q")
      (auto simp: closing_state_def Let_def)
  then have "g_blackholeFS g = g_blackholeFS g'"
    using assms by (intro bhfs.equality ext) (auto simp: closing_state_def same_frame_def Let_def)
  then show ?thesis
    using assms by (intro globals.equality) (auto simp: closing_state_def Let_def)
qed


section \<open>Any schedule, and one close after the other\<close>

definition closers_at :: "(int \<times> oss_file) list \<Rightarrow> (nat \<Rightarrow> close_pc) \<Rightarrow> closer list" where
  "closers_at ps pc = map (\<lambda>i. closer_at (pc i) (ps ! i)) [0..<length ps]"

lemma closers_at_simps [simp]:
  "length (closers_at ps pc) = length ps"
  "i < length ps \<Longrightarrow> closers_at ps pc ! i = closer_at (pc i) (ps ! i)"
  by (simp_all add: closers_at_def)

lemma closers_at_update:
  "i < length ps \<Longrightarrow> (closers_at ps pc)[i := closer_at p (ps ! i)] = closers_at ps (pc(i := p))"
  by (rule nth_equalityI) (auto simp: nth_list_update)

lemma map_new_closer: "map new_closer ps = closers_at ps (\<lambda>_. AtCheck)"
  by (rule nth_equalityI) (simp_all add: new_closer_at)

lemma turn_at:
  assumes "i < length ps" "m_stub (snd (ps ! i)) = Some r"
  shows "turn i (closers_at ps pc, g) =
    (closers_at ps (pc(i := next_pc (m_isOpenWrite (cell (g_blackholeFS g) r)) (pc i))),
     access_effect (pc i) (ps ! i) g)"
  using assms by (simp add: turn_def close_access_at closers_at_update del: closer_at.simps)

lemma closing_turn:
  assumes "undisturbed (g_blackholeFS g0) ps" "closing_state g0 ps pc order g"
  shows "\<exists>pc' order' g'. turn i (closers_at ps pc, g) = (closers_at ps pc', g') \<and>
    closing_state g0 ps pc' order' g'"
proof (cases "i < length ps")
  case True
  obtain r where r: "m_stub (snd (ps ! i)) = Some r" by (rule undisturbed_stub [OF assms(1) True])
  have same: "next_pc (m_isOpenWrite (cell (g_blackholeFS g) r)) (pc i) =
      next_pc (m_isOpenWrite (cell (g_blackholeFS g0) r)) (pc i)"
    using assms(2) True r by (cases "pc i") (auto simp: closing_state_def Let_def)
  show ?thesis
    unfolding turn_at [OF True r] same using closing_step [OF assms(2,1) True r] by blast
next
  case False
  then show ?thesis using assms(2) by (auto simp: turn_def)
qed

lemma closing_run:
  assumes "undisturbed (g_blackholeFS g0) ps" "closing_state g0 ps pc order g"
  shows "\<exists>pc' order' g'. run_schedule sched (closers_at ps pc, g) = (closers_at ps pc', g') \<and>
    closing_state g0 ps pc' order' g'"
  using assms(2)
proof (induction sched arbitrary: pc order g)
  case (Cons i sched)
  obtain pc1 order1 g1 where "turn i (closers_at ps pc, g) = (closers_at ps pc1, g1)"
    "closing_state g0 ps pc1 order1 g1"
    using closing_turn [OF assms(1) Cons.prems] by blast
  then show ?case using Cons.IH by simp
qed auto

lemma Close_accesses:
  assumes "m_stub (snd nf) = Some r"
  shows "snd (snd (Close (fst nf) (snd nf) g)) = access_effect AtUnmark nf (access_effect AtSubmit nf
    (if m_isOpenWrite (cell (g_blackholeFS g) r)
     then access_effect AtStat nf (access_effect AtSize nf g) else g))"
  using assms
  by (cases nf) (auto simp: Close_eq set_size_def [abs_def] upd_stub_def intro!: globals.equality)

lemma closing_close:
  assumes "closing_state g0 ps pc order g" "undisturbed (g_blackholeFS g0) ps"
    and "i < length ps" "pc i = AtCheck"
  shows "closing_state g0 ps (pc(i := Returned)) (order @ [i])
    (snd (snd (Close (fst (ps ! i)) (snd (ps ! i)) g)))"
proof -
  obtain r where r: "m_stub (snd (ps ! i)) = Some r" by (rule undisturbed_stub [OF assms(2,3)])
  note step = closing_step [OF _ assms(2,3) r]
  have m: "m_isOpenWrite (cell (g_blackholeFS g) r) = m_isOpenWrite (cell (g_blackholeFS g0) r)"
    using assms(1,3,4) r by (auto simp: closing_state_def Let_def)
  define g1 where "g1 = (if m_isOpenWrite (cell (g_blackholeFS g) r)
     then access_effect AtStat (ps ! i) (access_effect AtSize (ps ! i) g) else g)"
  have c: "access_effect AtCheck (ps ! i) g = g" for g by (cases "ps ! i") simp
  have "closing_state g0 ps (pc(i := AtSubmit)) order g1"
  proof (cases "m_isOpenWrite (cell (g_blackholeFS g0) r)")
    case True
    have "closing_state g0 ps (pc(i := AtSize)) order g" using step [OF assms(1)] assms(4) True by (simp add: c)
    from step [OF step [OF this, simplified]] show ?thesis using True m by (simp add: g1_def)
  next
    case False
    then show ?thesis using step [OF assms(1)] assms(4) m by (simp add: c g1_def)
  qed
  from step [OF step [OF step [OF this, simplified], simplified]]
  have "closing_state g0 ps (pc(i := Returned)) (order @ [i]) (access_effect AtReset (ps ! i)
    (access_effect AtUnmark (ps ! i) (access_effect AtSubmit (ps ! i) g1)))" by simp
  moreover have "access_effect AtReset (ps ! i) g = g" for g by (cases "ps ! i") simp
  ultimately show ?thesis by (simp add: Close_accesses [OF r] g1_def)
qed

definition close_all :: "(int \<times> oss_file) list \<Rightarrow> globals \<Rightarrow> globals" where
  "close_all = fold (\<lambda>(now, f) g. snd (snd (Close now f g)))"

lemma closing_sequence:
  assumes "undisturbed (g_blackholeFS g0) ps" "distinct order" "set order \<subseteq> {..<length ps}"
  shows "closing_state g0 ps (\<lambda>i. if i \<in> set order then Returned else AtCheck) order
    (close_all (map ((!) ps) order) g0)"
  using assms(2,3)
proof (induction order rule: rev_induct)
  case Nil
  then show ?case using closing_start by (simp add: close_all_def)
next
  case (snoc i order)
  let ?pc = "\<lambda>order j. if j \<in> set order then Returned else AtCheck"
  have "closing_state g0 ps ((?pc order)(i := Returned)) (order @ [i])
    (snd (snd (Close (fst (ps ! i)) (snd (ps ! i)) (close_all (map ((!) ps) order) g0))))"
    by (rule closing_close [OF snoc.IH assms(1)]) (use snoc.prems in auto)
  moreover have "(?pc order)(i := Returned) = ?pc (order @ [i])" by (auto simp: fun_eq_iff)
  ultimately show ?case by (simp add: close_all_def case_prod_beta)
qed

text \<open>
  C11: Closes of any number of handles at once, cut at every access to shared memory and
  interleaved by any schedule that gives each thread six turns, all return 0 and leave
  the namespace and the statistics as the same closes one after the other do in some
  order, if no file that is being written is held by two of them and no path leads to
  another file by now.
\<close>

theorem concurrent_closes_linearize:
  assumes "undisturbed (g_blackholeFS g) ps" and "\<forall>i < length ps. 6 \<le> count_list sched i"
  shows "\<exists>ps'. mset ps' = mset ps \<and>
    (let (cs, g') = run_schedule sched (map new_closer ps, g)
     in g' = close_all ps' g \<and>
        map (\<lambda>c. (c_pc c, c_rc c, c_file c)) cs =
          map (\<lambda>(now, f). (Returned, 0, fst (snd (Close now f g)))) ps)"
proof -
  obtain pc order g' where run: "run_schedule sched (map new_closer ps, g) = (closers_at ps pc, g')"
    and st: "closing_state g ps pc order g'"
    using closing_run [OF assms(1) closing_start] by (metis map_new_closer)
  have pc: "pc i = Returned" if "i < length ps" for i
    using run_schedule_turns [of i "(map new_closer ps, g)" sched] assms(2) that
    by (simp add: run new_closer_def del: closer_at.simps)
  have order: "distinct order" "set order = {..<length ps}"
    using st pc by (auto simp: closing_state_def Let_def)
  let ?ps' = "map ((!) ps) order"
  have "mset order = mset [0..<length ps]" 
    using mset_set_set [OF order(1)] order(2) by (simp add: mset_upt atLeast0LessThan)
  then have "mset ?ps' = mset (map ((!) ps) [0..<length ps])" by (metis mset_map)
  then have perm: "mset ?ps' = mset ps" by (simp only: map_nth)
  have "closing_state g ps pc order (close_all ?ps' g)"
    using closing_sequence [OF assms(1) order(1)] order(2) pc
    by (auto simp: closing_state_def Let_def)
  then have "g' = close_all ?ps' g" by (rule closing_state_unique [OF st])
  moreover have "map (\<lambda>c. (c_pc c, c_rc c, c_file c)) (closers_at ps pc) =
      map (\<lambda>(now, f). (Returned, 0, fst (snd (Close now f g)))) ps"
  proof (rule nth_equalityI)
    fix i assume "i < length (map (\<lambda>c. (c_pc c, c_rc c, c_file c)) (closers_at ps pc))"
    then have i: "i < length ps" by simp
    obtain r where "m_stub (snd (ps ! i)) = Some r" by (rule undisturbed_stub [OF assms(1) i])
    then show "map (\<lambda>c. (c_pc c, c_rc c, c_file c)) (closers_at ps pc) ! i =
        map (\<lambda>(now, f). (Returned, 0, fst (snd (Close now f g)))) ps ! i"
      using pc [OF i] i by (cases "ps ! i") (simp add: Close_eq)
  qed simp
  ultimately show ?thesis using perm run by (intro exI [of _ ?ps']) simp
qed


text \<open>Two files being written, and their closes in turns.\<close>

definition two_writers :: globals where
  "two_writers = \<lparr>g_blackholeFS = snd (open_fs ''/b'' O_WRONLY 0 (snd (open_fs ''/a'' O_WRONLY 0 empty_fs))),
     g_statsManager = empty_manager\<rparr>"

definition writer :: "nat \<Rightarrow> path \<Rightarrow> i64 \<Rightarrow> oss_file" where
  "writer r p n = new_file\<lparr>m_stub := Some r, m_path := p, m_writeBytes := n\<rparr>"

lemma two_writers_at:
  "getStub (g_blackholeFS two_writers) ''/a'' = Some 0" "getStub (g_blackholeFS two_writers) ''/b'' = Some 1"
  "m_isOpenWrite (cell (g_blackholeFS two_writers) 0)" "m_isOpenWrite (cell (g_blackholeFS two_writers) 1)"
  "m_fd_last (g_blackholeFS two_writers) = 2"
  by (simp_all add: two_writers_def open_fs_new open_create_eq om_find_def)

theorem concurrent_closes_linearize_witness:
  "\<exists>ps'. mset ps' = {#(7, writer 0 ''/a'' 5), (8, writer 1 ''/b'' 6)#} \<and>
     snd (run_schedule (concat (replicate 6 [0, 1]))
       (map new_closer [(7, writer 0 ''/a'' 5), (8, writer 1 ''/b'' 6)], two_writers)) =
     close_all ps' two_writers"
proof -
  let ?ps = "[(7, writer 0 ''/a'' 5), (8, writer 1 ''/b'' 6)]"
  have "undisturbed (g_blackholeFS two_writers) ?ps"
    by (auto simp: undisturbed_def less_Suc_eq writer_def two_writers_at)
  from concurrent_closes_linearize [OF this, of "concat (replicate 6 [0, 1])"] show ?thesis
    by (auto simp: less_Suc_eq eval_nat_numeral case_prod_beta Let_def)
qed

section \<open>Two writers of one file\<close>

text \<open>
  C31: When two handles that write the same file are closed at once there is a schedule
  in which both closes return 0 and the stub ends with two sizes: the next open reads up
  to the count of one writer while Fstat reports that of the other, which breaks the
  namespace's invariant when the counts differ.
\<close>

theorem concurrent_closes_tear_size:
  assumes "m_stub f1 = Some r" and "m_stub f2 = Some r" and "m_path f1 = p" and "m_path f2 = p"
    and "getStub (g_blackholeFS g) p = Some r" and "m_isOpenWrite (cell (g_blackholeFS g) r)"
    and "uint (m_fd_last (g_blackholeFS g)) + 1 < 2 ^ 31"
  shows "\<exists>sched. let (cs, g1) = run_schedule sched (map new_closer [(t1, f1), (t2, f2)], g);
      (rc, h, g2) = Open bhOss p 0 mode t3 now f3 g1
    in map (\<lambda>c. (c_pc c, c_rc c)) cs = [(Returned, 0), (Returned, 0)] \<and> rc = 0 \<and>
       st_size (snd (Fstat buf h g2)) = out_bytes f1 \<and> m_size_cached h = out_bytes f2 \<and>
       (out_bytes f1 \<noteq> out_bytes f2 \<longrightarrow> \<not> fs_inv (g_blackholeFS g1))"
proof -
  let ?ps = "[(t1, f1), (t2, f2)]" and ?fs = "g_blackholeFS g"
  let ?sched = "[0, 1, 0, 1, 1, 0, 0, 0, 0, 1, 1, 1]"
  let ?fs1 = "upd_stub r (\<lambda>s. s\<lparr>m_size := out_bytes f2,
    m_stat := (m_stat s)\<lparr>st_size := out_bytes f1\<rparr>, m_isOpenWrite := False\<rparr>) ?fs"
  note turn0 = turn_at [of 0 ?ps, simplified, OF assms(1)] and turn1 = turn_at [of 1 ?ps, simplified, OF assms(2)]
  obtain cs g1 where run: "run_schedule ?sched (map new_closer ?ps, g) = (cs, g1)" by (metis surj_pair)
  have "cs = closers_at ?ps ((\<lambda>_. AtCheck)(0 := Returned, Suc 0 := Returned)) \<and> g_blackholeFS g1 = ?fs1"
    using run unfolding map_new_closer
    by (auto simp: turn0 turn1 assms(1-6) close_fs_found upd_stub_def)
  then have fs1: "g_blackholeFS g1 = ?fs1"
    and cs: "map (\<lambda>c. (c_pc c, c_rc c)) cs = [(Returned, 0), (Returned, 0)]"
    by (auto simp: closers_at_def)
  let ?fs2 = "upd_stub r (\<lambda>s. s\<lparr>m_flags := 0, m_mode := mode\<rparr>) (?fs1\<lparr>m_fd_last := m_fd_last ?fs1 + 1\<rparr>)"
  let ?g2 = "g1\<lparr>g_blackholeFS := ?fs2\<rparr>"
  have op: "open_fs p 0 mode (g_blackholeFS g1) = (uint (m_fd_last ?fs) + 1, ?fs2)"
    unfolding fs1 using assms(5) next_fd(1) [OF assms(7)] by (simp add: open_fs_read)
  obtain h where h: "Open bhOss p 0 mode t3 now f3 g1 = (0, h, ?g2)"
    "h = Open_finish bhOss p 0 t3 now (f3\<lparr>m_path := p\<rparr>) ?g2"
    using Open_ok [OF op] assms(5) uint_nonnegative [of "m_fd_last ?fs"] by simp
  have "getStub (g_blackholeFS ?g2) (m_path (f3\<lparr>m_path := p\<rparr>)) = Some r" using assms(5) by simp
  note hf = Open_finish_fields [OF this h(2) refl]
  have "\<not> fs_inv ?fs1" if "out_bytes f1 \<noteq> out_bytes f2"
  proof
    assume inv: "fs_inv ?fs1"
    then have "r < next_ref ?fs1" using fs_inv_ref [OF inv, of p r] assms(5) by simp
    with inv have "stub_ok (m_fd_last ?fs1) (cell ?fs1 r)" unfolding fs_inv_def by blast
    then show False using that by (simp add: stub_ok_def)
  qed
  then show ?thesis
    using cs hf(1,3) by (intro exI [of _ ?sched]) (unfold run Let_def prod.case h(1), simp add: Fstat_def fs1)
qed

theorem concurrent_closes_tear_size_witness:
  "\<exists>sched. let (cs, g1) = run_schedule sched
        (map new_closer [(7, writer 0 ''/a'' 5), (8, writer 0 ''/a'' 6)], two_writers);
      (rc, h, g2) = Open new_oss ''/a'' 0 0 0 0 new_file g1
    in map (\<lambda>c. (c_pc c, c_rc c)) cs = [(Returned, 0), (Returned, 0)] \<and> rc = 0 \<and>
       st_size (snd (Fstat (m_stat new_stub) h g2)) = 5 \<and> m_size_cached h = 6 \<and>
       \<not> fs_inv (g_blackholeFS g1)"
  using concurrent_closes_tear_size [of "writer 0 ''/a'' 5" 0 "writer 0 ''/a'' 6" "''/a''" two_writers
      7 8 new_oss 0 0 0 new_file "m_stat new_stub"]
  by (simp add: writer_def two_writers_at out_bytes_def new_file_def)

end
