(* ===== verification/Server_Accesses.thy ===== *)
theory Server_Accesses
  imports Plugin Concurrent_Close
begin

text \<open>
  The running server once more, now cut between any two accesses an open or a close makes
  to shared memory, in or outside a mutex. \<^verbatim>\<open>Plugin\<close> takes each half of an open or a close as one step; here
  an open makes its call to the namespace, looks its stub up and then copies the size out
  of it, and a close is the sequence of accesses of \<^verbatim>\<open>Concurrent_Close\<close>. What holds at
  this grain is less: a stub can have two sizes.
\<close>

section \<open>The second half of an open\<close>

text \<open>
  \<^verbatim>\<open>getStub\<close> takes the mutex; the size of the stub is read later and without it. The
  pattern and the inode of a stub never change.
\<close>

definition Open_lookup :: "oss_file \<Rightarrow> globals \<Rightarrow> oss_file" where
  "Open_lookup f g = f\<lparr>m_stub := getStub (g_blackholeFS g) (m_path f)\<rparr>"

definition Open_fill ::
  "oss \<Rightarrow> path \<Rightarrow> i32 \<Rightarrow> int \<Rightarrow> int \<Rightarrow> oss_file \<Rightarrow> globals \<Rightarrow> oss_file" where
  "Open_fill bhOss path flags hr_now sys_now f g =
     (let fs = g_blackholeFS g; stub = m_stub f;
          f1 = f\<lparr>m_start := hr_now, m_writeBytes := 0, m_writeBytesAIO := 0,
                 m_readBytes := 0, m_writeOps := 0, m_writeAioOps := 0, m_readOps := 0,
                 m_errors := 0\<rparr>;
          f2 = f1\<lparr>m_size_cached := (case stub of None \<Rightarrow> 0 | Some r \<Rightarrow> m_size (cell fs r)),
                  m_isRandom := (case stub of None \<Rightarrow> False
                                 | Some r \<Rightarrow> m_readtype (cell fs r) = ''random''),
                  m_ino := (case stub of None \<Rightarrow> 0 | Some r \<Rightarrow> st_ino (m_stat (cell fs r))),
                  m_throttleBytesPerUs := throttle_rate (writespeedMiBs bhOss)\<rparr>
      in f2\<lparr>m_stats := empty_stats\<lparr>ts_path := path, open_time := sys_now,
                          was_write := (flags AND O_ACCMODE \<noteq> O_RDONLY)\<rparr>\<rparr>)"

lemma Open_finish_accesses:
  "Open_finish bhOss path flags t0 now f g =
    Open_fill bhOss path flags t0 now (Open_lookup f g) g"
  by (simp add: Open_finish_def Open_fill_def Open_lookup_def Let_def)

section \<open>States and steps\<close>

text \<open>What a handle is in the middle of: nothing, an open after each of its first two
  accesses, or a close.\<close>

datatype slot = Calls oss_file | Opened path i32 oss_file | Holding path i32 oss_file
  | Closes closer

record server =
  s_oss :: oss
  s_globals :: globals
  slots :: "nat \<Rightarrow> slot option"

abbreviation s_fs :: "server \<Rightarrow> bhfs" where
  "s_fs s \<equiv> g_blackholeFS (s_globals s)"

definition start_server :: "oss \<Rightarrow> server" where
  "start_server bhOss =
     \<lparr>s_oss = bhOss, s_globals = \<lparr>g_blackholeFS = empty_fs, g_statsManager = empty_manager\<rparr>,
      slots = (\<lambda>_. None)\<rparr>"

definition put_slot :: "nat \<Rightarrow> slot \<Rightarrow> globals \<Rightarrow> server \<Rightarrow> server" where
  "put_slot h sl g s = s\<lparr>s_globals := g, slots := (slots s)(h \<mapsto> sl)\<rparr>"

inductive access_step :: "server \<Rightarrow> server \<Rightarrow> bool" where
  new_file: "slots s h = None \<Longrightarrow>
    access_step s (put_slot h (Calls (newFile tident)) (s_globals s) s)"
| open_call: "slots s h = Some (Calls f) \<Longrightarrow> m_fd_last (s_fs s) \<noteq> - 1 \<Longrightarrow>
    Open_begin path flags mode f (s_globals s) = (rc, f1, g1) \<Longrightarrow>
    access_step s (put_slot h (if rc < 0 then Calls f1 else Opened path flags f1) g1 s)"
| open_lookup: "slots s h = Some (Opened path flags f) \<Longrightarrow>
    access_step s (put_slot h (Holding path flags (Open_lookup f (s_globals s))) (s_globals s) s)"
| open_fill: "slots s h = Some (Holding path flags f) \<Longrightarrow>
    access_step s (put_slot h (Calls (Open_fill (s_oss s) path flags t0 now f (s_globals s)))
      (s_globals s) s)"
| io: "slots s h = Some (Calls f) \<Longrightarrow>
    access_step s (put_slot h (Calls (snd (do_op op f))) (s_globals s) s)"
| close_call: "slots s h = Some (Calls f) \<Longrightarrow>
    access_step s (put_slot h (Closes (new_closer (now, f))) (s_globals s) s)"
| close_access: "slots s h = Some (Closes c) \<Longrightarrow> close_access c (s_globals s) = (c1, g1) \<Longrightarrow>
    access_step s (put_slot h (if c_pc c1 = Returned then Calls (c_file c1) else Closes c1) g1 s)"
| rename: "Rename from to (s_globals s) = (rc, g1) \<Longrightarrow> access_step s (s\<lparr>s_globals := g1\<rparr>)"
| unlink: "Unlink path opts (s_globals s) = (rc, g1) \<Longrightarrow> access_step s (s\<lparr>s_globals := g1\<rparr>)"
| seed: "m_fd_last (s_fs s) \<noteq> - 1 \<Longrightarrow> rt \<in> read_patterns \<Longrightarrow>
    access_step s (s\<lparr>s_globals := (s_globals s)\<lparr>g_blackholeFS := seed path sz rt (s_fs s)\<rparr>\<rparr>)"

text \<open>The states that runs reach through states with a property.\<close>

inductive reached :: "(server \<Rightarrow> bool) \<Rightarrow> oss \<Rightarrow> server \<Rightarrow> bool" for P bhOss where
  start: "reached P bhOss (start_server bhOss)"
| step: "reached P bhOss s \<Longrightarrow> access_step s s' \<Longrightarrow> P s' \<Longrightarrow> reached P bhOss s'"

abbreviation access_reachable :: "oss \<Rightarrow> server \<Rightarrow> bool" where
  "access_reachable \<equiv> reached (\<lambda>_. True)"

lemma put_slot_simps [simp]:
  "s_globals (put_slot h sl g s) = g" "slots (put_slot h sl g s) = (slots s)(h \<mapsto> sl)"
  "s_oss (put_slot h sl g s) = s_oss s"
  by (simp_all add: put_slot_def)

section \<open>Stubs with two sizes\<close>

text \<open>
  The invariant of the namespace without what it says about sizes, and the namespace in
  which the stubs of a set have been given one size.
\<close>

definition fs_shape :: "bhfs \<Rightarrow> bool" where
  "fs_shape fs \<longleftrightarrow> files_wf fs \<and>
     (\<forall>p r. getStub fs p = Some r \<longrightarrow> r < next_ref fs) \<and>
     (\<forall>p q r. getStub fs p = Some r \<longrightarrow> getStub fs q = Some r \<longrightarrow> p = q) \<and>
     (\<forall>r < next_ref fs. st_dev (m_stat (cell fs r)) = 1 \<and> 0 < uint (ino_of fs r) \<and>
        uint (ino_of fs r) \<le> uint (m_fd_last fs)) \<and>
     inj_on (ino_of fs) {..<next_ref fs}"

definition one_size :: "bhfs \<Rightarrow> nat \<Rightarrow> bool" where
  "one_size fs r \<longleftrightarrow> st_size (m_stat (cell fs r)) = m_size (cell fs r)"

definition mend :: "nat set \<Rightarrow> bhfs \<Rightarrow> bhfs" where
  "mend R fs = fs\<lparr>cell := (\<lambda>r. if r \<in> R then (cell fs r)\<lparr>m_size := st_size (m_stat (cell fs r))\<rparr>
     else cell fs r)\<rparr>"

lemma mend_simps [simp]:
  "m_files (mend R fs) = m_files fs" "m_fd_last (mend R fs) = m_fd_last fs"
  "next_ref (mend R fs) = next_ref fs" "getStub (mend R fs) = getStub fs"
  "m_stat (cell (mend R fs) r) = m_stat (cell fs r)" "ino_of (mend R fs) = ino_of fs"
  by (simp_all add: mend_def fun_eq_iff getStub_def ino_of_def del: om_find_files)

lemma fs_inv_mend:
  "fs_inv (mend R fs) \<longleftrightarrow> fs_shape fs \<and> (\<forall>r < next_ref fs. r \<notin> R \<longrightarrow> one_size fs r)"
proof -
  have "m_size (cell (mend R fs) r) = (if r \<in> R then st_size (m_stat (cell fs r)) else m_size (cell fs r))" for r
    by (simp add: mend_def)
  then have "stub_ok n (cell (mend R fs) r) \<longleftrightarrow> st_dev (m_stat (cell fs r)) = 1 \<and> 0 < uint (ino_of fs r) \<and>
      uint (ino_of fs r) \<le> uint n \<and> (r \<notin> R \<longrightarrow> one_size fs r)" for n r
    by (auto simp: stub_ok_def ino_of_def one_size_def)
  then show ?thesis unfolding fs_inv_def fs_shape_def files_wf_def by auto
qed

lemma fs_shape_upd:
  assumes "\<And>s. st_dev (m_stat (u s)) = st_dev (m_stat s)" "\<And>s. st_ino (m_stat (u s)) = st_ino (m_stat s)"
  shows "fs_shape (upd_stub r u fs) = fs_shape fs"
proof -
  have "ino_of (upd_stub r u fs) = ino_of fs" using assms(2) by (simp add: ino_of_def fun_eq_iff)
  moreover have "st_dev (m_stat (cell (upd_stub r u fs) q)) = st_dev (m_stat (cell fs q))" for q
    using assms(1) by (simp add: upd_stub_def)
  ultimately show ?thesis unfolding fs_shape_def files_wf_def by simp
qed

text \<open>The calls to the namespace commute with mending.\<close>

lemma mend_upd:
  assumes "\<And>x. m_size (u x) = m_size x" "\<And>x. st_size (m_stat (u x)) = st_size (m_stat x)"
    "\<And>x n. u (x\<lparr>m_size := n\<rparr>) = (u x)\<lparr>m_size := n\<rparr>"
  shows "mend R (upd_stub r u fs) = upd_stub r u (mend R fs)"
  using assms by (cases fs) (auto simp: upd_stub_def mend_def fun_eq_iff)

lemma mend_fields [simp]:
  "mend R (fs\<lparr>m_fd_last := n\<rparr>) = (mend R fs)\<lparr>m_fd_last := n\<rparr>"
  "mend R (fs\<lparr>m_files := m\<rparr>) = (mend R fs)\<lparr>m_files := m\<rparr>"
  by (rule bhfs.equality; simp add: mend_def cong: if_cong)+

lemma mend_alloc:
  assumes "st_size (m_stat x) = m_size x"
  shows "mend R (fs\<lparr>m_fd_last := n, cell := (cell fs)(q := x), next_ref := k, m_files := m\<rparr>) =
    (mend R fs)\<lparr>m_fd_last := n, cell := (cell (mend R fs))(q := x), next_ref := k, m_files := m\<rparr>"
  using assms by (cases fs) (auto simp: mend_def fun_eq_iff)

lemma mend_create: "mend R (snd (open_create p flags md fs)) = snd (open_create p flags md (mend R fs))"
  unfolding open_create_eq snd_conv by (subst mend_alloc) simp_all

lemma mend_open: "mend R (snd (open_fs p flags md fs)) = snd (open_fs p flags md (mend R fs))"
  by (cases rule: open_fs_cases [of flags fs p])
    (auto simp: open_fs_simps mend_create mend_upd)

lemma mend_close: "mend R (close_fs p fs) = close_fs p (mend R fs)"
  by (auto simp: close_fs_def mend_upd split: option.split)

lemma mend_unlink: "mend R (snd (BlackholeFS.unlink p fs)) = snd (BlackholeFS.unlink p (mend R fs))"
  by (simp add: unlink_def split: option.split)

lemma mend_rename: "mend R (snd (rename_fs p q fs)) = snd (rename_fs p q (mend R fs))"
  by (simp add: rename_fs_def Let_def split: option.split)

lemma mend_seed: "mend R (seed p n rt fs) = seed p n rt (mend R fs)"
  unfolding seed_eq by (subst mend_alloc) simp_all

section \<open>Calls that leave sizes alone\<close>

text \<open>A change of the namespace that keeps its invariant, mended or not, and every size.\<close>

definition mild :: "bhfs \<Rightarrow> bhfs \<Rightarrow> bool" where
  "mild fs fs' \<longleftrightarrow> fs_ext fs fs' \<and> (\<forall>R. fs_inv (mend R fs) \<longrightarrow> fs_inv (mend R fs')) \<and>
     (\<forall>r < next_ref fs. m_size (cell fs' r) = m_size (cell fs r))"

lemma mild_refl [simp]: "mild fs fs"
  by (simp add: mild_def fs_ext_refl)

lemma open_keeps_size:
  "r < next_ref fs \<Longrightarrow> m_size (cell (snd (open_fs p flags md fs)) r) = m_size (cell fs r)"
  by (cases rule: open_fs_cases [of flags fs p]) (simp_all add: open_fs_simps open_create_eq)

lemma mild_open: "m_fd_last fs \<noteq> - 1 \<Longrightarrow> mild fs (snd (open_fs p flags md fs))"
  using open_keeps_size by (simp add: mild_def mend_open fs_ext_open fs_inv_open)

lemma mild_close: "mild fs (close_fs p fs)"
  by (auto simp: mild_def mend_close fs_ext_close fs_inv_close)
    (auto simp: close_fs_def split: option.split)

lemma mild_unlink: "mild fs (snd (BlackholeFS.unlink p fs))"
  by (auto simp: mild_def mend_unlink fs_ext_unlink fs_inv_unlink)
    (auto simp: unlink_def split: option.split)

lemma mild_rename: "mild fs (snd (rename_fs p q fs))"
  by (auto simp: mild_def mend_rename fs_ext_rename fs_inv_rename)
    (auto simp: rename_fs_def Let_def split: option.split)

lemma mild_seed: "m_fd_last fs \<noteq> - 1 \<Longrightarrow> mild fs (seed p n rt fs)"
  unfolding mild_def mend_seed
  by (intro conjI allI impI fs_ext_seed fs_inv_seed) (auto simp: seed_eq)

section \<open>What one access does\<close>

fun slot_file :: "slot \<Rightarrow> oss_file" where
  "slot_file (Calls f) = f"
| "slot_file (Opened path flags f) = f"
| "slot_file (Holding path flags f) = f"
| "slot_file (Closes c) = c_file c"

text \<open>A handle whose open has just looked its stub up has not set its fields yet.\<close>

fun slot_ok :: "bhfs \<Rightarrow> slot \<Rightarrow> bool" where
  "slot_ok fs (Calls f) \<longleftrightarrow> handle_ok fs f"
| "slot_ok fs (Opened path flags f) \<longleftrightarrow> handle_ok fs f"
| "slot_ok fs (Holding path flags f) \<longleftrightarrow> (\<forall>r. m_stub f = Some r \<longrightarrow> r < next_ref fs)"
| "slot_ok fs (Closes c) \<longleftrightarrow> handle_ok fs (c_file c) \<and> (c_pc c \<noteq> AtCheck \<longrightarrow> m_stub (c_file c) \<noteq> None)"

definition slots_ok :: "server \<Rightarrow> bool" where
  "slots_ok s \<longleftrightarrow> (\<forall>h sl. slots s h = Some sl \<longrightarrow> slot_ok (s_fs s) sl)"

lemma fs_ext_next: "fs_ext fs fs' \<Longrightarrow> next_ref fs \<le> next_ref fs'"
  by (simp add: fs_ext_def)

lemma slot_ok_ext: "slot_ok fs sl \<Longrightarrow> fs_ext fs fs' \<Longrightarrow> slot_ok fs' sl"
  using less_le_trans [of _ "next_ref fs" "next_ref fs'"]
  by (cases sl) (auto intro: handle_ok_ext simp: fs_ext_next)

lemma slots_ok_put:
  assumes "slots_ok s" "fs_ext (s_fs s) (g_blackholeFS g)" "slot_ok (g_blackholeFS g) sl"
  shows "slots_ok (put_slot h sl g s)"
  using assms by (auto simp: slots_ok_def intro: slot_ok_ext split: if_splits)

lemma slots_ok_globals:
  assumes "slots_ok s" "fs_ext (s_fs s) (g_blackholeFS g)"
  shows "slots_ok (s\<lparr>s_globals := g\<rparr>)"
  using assms by (auto simp: slots_ok_def intro: slot_ok_ext)

text \<open>The close of the slot is about to store the second size of the stub.\<close>

definition tearing :: "server \<Rightarrow> nat \<Rightarrow> closer \<Rightarrow> nat \<Rightarrow> bool" where
  "tearing s h c r \<longleftrightarrow> slots s h = Some (Closes c) \<and> c_pc c = AtStat \<and> m_stub (c_file c) = Some r"

text \<open>
  A step leaves sizes and the closes between their two stores alone, or it is the first
  or the second of those stores.
\<close>

definition first_store :: "server \<Rightarrow> server \<Rightarrow> bool" where
  "first_store s s' \<longleftrightarrow> (\<exists>h c r. slots s h = Some (Closes c) \<and> c_pc c = AtSize \<and>
     m_stub (c_file c) = Some r \<and>
     s' = put_slot h (Closes (c\<lparr>c_pc := AtStat\<rparr>)) ((s_globals s)\<lparr>g_blackholeFS :=
       upd_stub r (\<lambda>x. x\<lparr>m_size := c_wb c\<rparr>) (s_fs s)\<rparr>) s)"

definition second_store :: "server \<Rightarrow> server \<Rightarrow> bool" where
  "second_store s s' \<longleftrightarrow> (\<exists>h c r. tearing s h c r \<and>
     s' = put_slot h (Closes (c\<lparr>c_pc := AtSubmit\<rparr>)) ((s_globals s)\<lparr>g_blackholeFS :=
       upd_stub r (\<lambda>x. x\<lparr>m_stat := (m_stat x)\<lparr>st_size := c_wb c\<rparr>\<rparr>) (s_fs s)\<rparr>) s)"

definition quiet :: "server \<Rightarrow> server \<Rightarrow> bool" where
  "quiet s s' \<longleftrightarrow> mild (s_fs s) (s_fs s') \<and> slots_ok s' \<and> tearing s' = tearing s"

lemma quiet_put:
  assumes "slots_ok s" "mild (s_fs s) (g_blackholeFS g)" "slot_ok (g_blackholeFS g) sl"
    and "\<And>c. sl = Closes c \<Longrightarrow> c_pc c \<noteq> AtStat" "\<And>c. slots s h = Some (Closes c) \<Longrightarrow> c_pc c \<noteq> AtStat"
  shows "quiet s (put_slot h sl g s)"
  using assms slots_ok_put [OF assms(1) _ assms(3)]
  by (auto simp: quiet_def mild_def tearing_def fun_eq_iff)

lemma quiet_globals:
  assumes "slots_ok s" "mild (s_fs s) (g_blackholeFS g)"
  shows "quiet s (s\<lparr>s_globals := g\<rparr>)"
  using assms slots_ok_globals by (auto simp: quiet_def mild_def tearing_def fun_eq_iff)

lemma Open_fill_ok:
  "\<forall>r. m_stub f = Some r \<longrightarrow> r < next_ref (g_blackholeFS g) \<Longrightarrow>
   handle_ok (g_blackholeFS g) (Open_fill bhOss p flags t0 now f g)"
  by (auto simp: handle_ok_def Open_fill_def Let_def ino_of_def)

lemma Open_begin_mild:
  assumes "Open_begin path flags mode f g = (rc, f1, g1)" "m_fd_last (g_blackholeFS g) \<noteq> - 1"
  shows "mild (g_blackholeFS g) (g_blackholeFS g1)" "handle_ok fs f1 = handle_ok fs f"
  using assms mild_open by (auto simp: Open_begin_def case_prod_beta handle_ok_def)

lemma handle_ok_upd [simp]:
  "handle_ok fs (f\<lparr>m_end := t\<rparr>) = handle_ok fs f" "handle_ok fs (f\<lparr>m_stats := st\<rparr>) = handle_ok fs f"
  "handle_ok fs (f\<lparr>m_stub := None\<rparr>)"
  by (simp_all add: handle_ok_def)

lemma close_access_quiet:
  assumes "c_pc c \<notin> {AtSize, AtStat}" "handle_ok fs (c_file c)"
    and "c_pc c \<noteq> AtCheck \<longrightarrow> m_stub (c_file c) \<noteq> None"
  shows "mild (g_blackholeFS g) (g_blackholeFS (snd (close_access c g)))"
    "handle_ok fs (c_file (fst (close_access c g)))" "c_pc (fst (close_access c g)) \<noteq> AtStat"
    "c_pc (fst (close_access c g)) \<noteq> Returned \<longrightarrow>
      c_pc (fst (close_access c g)) \<noteq> AtCheck \<and> m_stub (c_file (fst (close_access c g))) \<noteq> None"
  using assms
  by (cases "c_pc c"; simp add: close_access_def Let_def mild_close split: option.split)+

lemma close_access_kinds:
  assumes "slots_ok s" "slots s h = Some (Closes c)" "close_access c (s_globals s) = (c1, g1)"
    and "s' = put_slot h (if c_pc c1 = Returned then Calls (c_file c1) else Closes c1) g1 s"
  shows "quiet s s' \<or> first_store s s' \<or> second_store s s'"
proof -
  have ok: "handle_ok (s_fs s) (c_file c)" "c_pc c \<noteq> AtCheck \<longrightarrow> m_stub (c_file c) \<noteq> None"
    using assms(1,2) unfolding slots_ok_def by (metis slot_ok.simps(4))+
  consider r where "c_pc c = AtSize" "m_stub (c_file c) = Some r"
    | r where "c_pc c = AtStat" "m_stub (c_file c) = Some r" | "c_pc c \<notin> {AtSize, AtStat}"
    using ok(2) by (cases "c_pc c") auto
  then show ?thesis
  proof cases
    case 1
    then have "first_store s s'"
      using assms(2-4) by (auto simp: first_store_def close_access_def Let_def)
    then show ?thesis by simp
  next
    case 2
    then have "second_store s s'"
      using assms(2-4) by (auto simp: second_store_def tearing_def close_access_def Let_def)
    then show ?thesis by simp
  next
    case 3
    note q = close_access_quiet [OF 3 ok, of "s_globals s", unfolded assms(3) fst_conv snd_conv]
    have "handle_ok (g_blackholeFS g1) (c_file c1)"
      using handle_ok_ext [OF q(2)] q(1) by (simp add: mild_def)
    then have "slot_ok (g_blackholeFS g1) (if c_pc c1 = Returned then Calls (c_file c1) else Closes c1)"
      using q(4) by simp
    then show ?thesis
      unfolding assms(4) using 3 assms(2) q(3)
      by (intro disjI1 quiet_put [OF assms(1) q(1)]) (auto split: if_splits)
  qed
qed

lemma access_step_kinds:
  assumes "access_step s s'" "slots_ok s" "fs_shape (s_fs s)"
  shows "quiet s s' \<or> first_store s s' \<or> second_store s s'"
  using assms
proof (induction rule: access_step.induct)
  case (new_file s h tident)
  then show ?case
    by (intro disjI1 quiet_put) (auto simp: handle_ok_def newFile_def new_file_def)
next
  case (open_call s h f path flags mode rc f1 g1)
  have "handle_ok (s_fs s) f" using open_call unfolding slots_ok_def by (metis slot_ok.simps(1))
  then have "handle_ok (g_blackholeFS g1) f1"
    using Open_begin_mild [OF open_call(3,2)] handle_ok_ext by (auto simp: mild_def)
  then show ?case
    using open_call Open_begin_mild(1) [OF open_call(3,2)] by (intro disjI1 quiet_put) (auto split: if_splits)
next
  case (open_lookup s h path flags f)
  then show ?case
    by (intro disjI1 quiet_put) (auto simp: Open_lookup_def fs_shape_def)
next
  case (open_fill s h path flags f t0 now)
  have "\<forall>r. m_stub f = Some r \<longrightarrow> r < next_ref (s_fs s)"
    using open_fill unfolding slots_ok_def by (metis slot_ok.simps(3))
  then show ?case using open_fill by (intro disjI1 quiet_put) (auto simp: Open_fill_ok)
next
  case (io s h f op)
  then have "handle_ok (s_fs s) f" unfolding slots_ok_def by (metis slot_ok.simps(1))
  then show ?case using io by (intro disjI1 quiet_put) (auto simp: handle_ok_do_op)
next
  case (close_call s h f now)
  then have "handle_ok (s_fs s) f" unfolding slots_ok_def by (metis slot_ok.simps(1))
  then show ?case using close_call by (intro disjI1 quiet_put) (auto simp: new_closer_def)
next
  case (close_access s h c c1 g1)
  show ?case by (rule close_access_kinds [OF close_access(3,1,2) refl])
next
  case (rename "from" to s rc g1)
  then show ?case
    using mild_rename by (intro disjI1 quiet_globals) (auto simp: Rename_def case_prod_beta)
next
  case (unlink path opts s rc g1)
  then show ?case
    using mild_unlink by (intro disjI1 quiet_globals) (auto simp: Unlink_def case_prod_beta)
next
  case (seed s rt path sz)
  then show ?case using mild_seed by (intro disjI1 quiet_globals) auto
qed

section \<open>The invariant of every reachable state\<close>

definition server_inv :: "server \<Rightarrow> bool" where
  "server_inv s \<longleftrightarrow> fs_shape (s_fs s) \<and> slots_ok s"

lemma fs_shape_mend: "fs_shape fs \<longleftrightarrow> fs_inv (mend UNIV fs)"
  by (simp add: fs_inv_mend)

lemma store_keeps:
  assumes "server_inv s" "slots s h = Some (Closes c)"
    and "\<And>x. st_dev (m_stat (u x)) = st_dev (m_stat x)" "\<And>x. st_ino (m_stat (u x)) = st_ino (m_stat x)"
    "\<And>x. m_readtype (u x) = m_readtype x" "\<And>x. st_mode (m_stat (u x)) = st_mode (m_stat x)"
    and "m_stub (c_file c) = Some r"
  shows "server_inv (put_slot h (Closes (c\<lparr>c_pc := pc\<rparr>))
    ((s_globals s)\<lparr>g_blackholeFS := upd_stub r u (s_fs s)\<rparr>) s)"
proof -
  let ?g = "(s_globals s)\<lparr>g_blackholeFS := upd_stub r u (s_fs s)\<rparr>"
  have ext: "fs_ext (s_fs s) (g_blackholeFS ?g)" using assms(4-6) by (simp add: fs_ext_upd)
  have "handle_ok (s_fs s) (c_file c)"
    using assms(1,2) unfolding server_inv_def slots_ok_def by (metis slot_ok.simps(4))
  then have "slot_ok (g_blackholeFS ?g) (Closes (c\<lparr>c_pc := pc\<rparr>))"
    using handle_ok_ext [OF _ ext] assms(7) by simp
  then show ?thesis
    using assms(1) slots_ok_put [OF _ ext] fs_shape_upd [of u r, OF assms(3,4)] by (simp add: server_inv_def)
qed

lemma access_step_inv:
  assumes "access_step s s'" "server_inv s"
  shows "server_inv s'"
proof -
  have "quiet s s' \<or> first_store s s' \<or> second_store s s'"
    using access_step_kinds [OF assms(1)] assms(2) by (simp add: server_inv_def)
  then show ?thesis
  proof (elim disjE)
    assume "quiet s s'"
    then show ?thesis using assms(2) by (simp add: quiet_def mild_def server_inv_def fs_shape_mend)
  next
    assume "first_store s s'"
    then show ?thesis using assms(2) by (auto simp: first_store_def intro!: store_keeps)
  next
    assume "second_store s s'"
    then show ?thesis using assms(2) by (auto simp: second_store_def tearing_def intro!: store_keeps)
  qed
qed

lemma start_server_inv: "server_inv (start_server bhOss)"
proof -
  have "fs_inv (mend {} empty_fs)" by (simp add: mend_def fs_inv_empty del: empty_fs_simps)
  then show ?thesis
    by (simp add: server_inv_def start_server_def slots_ok_def fs_inv_mend del: empty_fs_simps)
qed

lemma reached_inv: "reached P bhOss s \<Longrightarrow> server_inv s"
  by (induction rule: reached.induct) (auto intro: start_server_inv access_step_inv)

lemma reached_mono: "reached P bhOss s \<Longrightarrow> access_reachable bhOss s"
  by (induction rule: reached.induct) (auto intro: reached.intros)

section \<open>Closes that do not overlap on a stub\<close>

text \<open>The close has found the write mark and has not stored both sizes yet.\<close>

definition storing :: "server \<Rightarrow> nat \<Rightarrow> nat \<Rightarrow> bool" where
  "storing s h r \<longleftrightarrow> (\<exists>c. slots s h = Some (Closes c) \<and> c_pc c \<in> {AtSize, AtStat} \<and>
     m_stub (c_file c) = Some r)"

definition calm :: "server \<Rightarrow> bool" where
  "calm s \<longleftrightarrow> (\<forall>h h' r. storing s h r \<and> storing s h' r \<longrightarrow> h = h')"

definition sizes_inv :: "server \<Rightarrow> bool" where
  "sizes_inv s \<longleftrightarrow> (\<forall>r < next_ref (s_fs s). (\<nexists>h c. tearing s h c r) \<longrightarrow> one_size (s_fs s) r) \<and>
     (\<forall>h c r. tearing s h c r \<longrightarrow> m_size (cell (s_fs s) r) = c_wb c)"

lemma tearing_storing: "tearing s h c r \<Longrightarrow> storing s h r"
  by (auto simp: tearing_def storing_def)

lemma tearing_ref: "server_inv s \<Longrightarrow> tearing s h c r \<Longrightarrow> r < next_ref (s_fs s)"
  unfolding server_inv_def slots_ok_def tearing_def handle_ok_def by (metis handle_ok_def slot_ok.simps(4))

lemma tearing_put:
  "tearing (put_slot h sl g s) k c r \<longleftrightarrow>
    (if k = h then sl = Closes c \<and> c_pc c = AtStat \<and> m_stub (c_file c) = Some r else tearing s k c r)"
  by (auto simp: tearing_def)

lemma quiet_sizes:
  assumes "quiet s s'" "server_inv s" "sizes_inv s"
  shows "sizes_inv s'"
proof -
  let ?R = "{r. \<exists>h c. tearing s h c r}"
  have "fs_inv (mend ?R (s_fs s))" using assms(2,3) by (simp add: fs_inv_mend server_inv_def sizes_inv_def)
  then have "fs_inv (mend ?R (s_fs s'))" using assms(1) unfolding quiet_def mild_def by blast
  moreover have "m_size (cell (s_fs s') r) = m_size (cell (s_fs s) r)" if "tearing s h c r" for h c r
    using tearing_ref [OF assms(2) that] assms(1) by (simp add: quiet_def mild_def)
  ultimately show ?thesis using assms(1,3) by (simp add: sizes_inv_def quiet_def fs_inv_mend)
qed

lemma first_store_sizes:
  assumes "first_store s s'" "calm s" "sizes_inv s"
  shows "sizes_inv s'"
proof -
  obtain h c r where s: "slots s h = Some (Closes c)" "c_pc c = AtSize" "m_stub (c_file c) = Some r"
    and s': "s' = put_slot h (Closes (c\<lparr>c_pc := AtStat\<rparr>)) ((s_globals s)\<lparr>g_blackholeFS :=
       upd_stub r (\<lambda>x. x\<lparr>m_size := c_wb c\<rparr>) (s_fs s)\<rparr>) s"
    using assms(1) by (auto simp: first_store_def)
  have "storing s h r" using s by (auto simp: storing_def)
  then have other: "q \<noteq> r" if "tearing s k d q" "k \<noteq> h" for k d q
    using that assms(2) tearing_storing [OF that(1)] unfolding calm_def by blast
  have own: "\<not> tearing s h d q" for d q using s by (auto simp: tearing_def)
  have tear: "tearing s' k d q \<longleftrightarrow>
      (if k = h then d = c\<lparr>c_pc := AtStat\<rparr> \<and> q = r else tearing s k d q)" for k d q
    using s by (auto simp: s' tearing_put)
  have "one_size (s_fs s') q" if "q < next_ref (s_fs s)" "\<nexists>k d. tearing s' k d q" for q
  proof -
    have q: "q \<noteq> r" using that(2) tear by metis
    moreover have "\<nexists>k d. tearing s k d q" using that(2) own by (metis tear)
    ultimately have "one_size (s_fs s) q" using that(1) assms(3) by (simp add: sizes_inv_def)
    then show ?thesis using q by (simp add: s' one_size_def)
  qed
  moreover have "m_size (cell (s_fs s') q) = c_wb d" if "tearing s' k d q" for k d q
  proof (cases "k = h")
    case True
    then have "d = c\<lparr>c_pc := AtStat\<rparr> \<and> q = r" using that unfolding tear by simp
    then show ?thesis by (simp add: s')
  next
    case False
    then have t: "tearing s k d q" using that unfolding tear by simp
    then have "q \<noteq> r" using other False by blast
    then show ?thesis using t assms(3) by (simp add: s' sizes_inv_def)
  qed
  ultimately show ?thesis by (simp add: sizes_inv_def s')
qed

lemma second_store_sizes:
  assumes "second_store s s'" "sizes_inv s"
  shows "sizes_inv s'"
proof -
  obtain h c r where s: "tearing s h c r"
    and s': "s' = put_slot h (Closes (c\<lparr>c_pc := AtSubmit\<rparr>)) ((s_globals s)\<lparr>g_blackholeFS :=
       upd_stub r (\<lambda>x. x\<lparr>m_stat := (m_stat x)\<lparr>st_size := c_wb c\<rparr>\<rparr>) (s_fs s)\<rparr>) s"
    using assms(1) by (auto simp: second_store_def)
  have tear: "tearing s' k d q \<longleftrightarrow> k \<noteq> h \<and> tearing s k d q" for k d q
    by (auto simp: s' tearing_put)
  have wb: "m_size (cell (s_fs s) r) = c_wb c" using s assms(2) by (simp add: sizes_inv_def)
  have own: "q = r" if "tearing s h d q" for d q using s that by (auto simp: tearing_def)
  have "one_size (s_fs s') q" if "q < next_ref (s_fs s)" "\<nexists>k d. tearing s' k d q" for q
  proof (cases "q = r")
    case True
    then show ?thesis using wb by (simp add: s' one_size_def)
  next
    case False
    then have "\<nexists>k d. tearing s k d q" using that(2) own by (metis tear)
    then have "one_size (s_fs s) q" using that(1) assms(2) by (simp add: sizes_inv_def)
    then show ?thesis using False by (simp add: s' one_size_def)
  qed
  moreover have "m_size (cell (s_fs s') q) = c_wb d" if "tearing s' k d q" for k d q
  proof -
    have "tearing s k d q" using that unfolding tear by simp
    then have "m_size (cell (s_fs s) q) = c_wb d" using assms(2) by (simp add: sizes_inv_def)
    then show ?thesis by (cases "q = r") (simp_all add: s')
  qed
  ultimately show ?thesis by (simp add: sizes_inv_def s')
qed

lemma calm_inv:
  assumes "reached calm bhOss s"
  shows "sizes_inv s \<and> calm s"
  using assms
proof (induction rule: reached.induct)
  case start
  then show ?case
    by (simp add: start_server_def sizes_inv_def calm_def storing_def tearing_def empty_fs_def)
next
  case (step s s')
  have inv: "server_inv s" by (rule reached_inv [OF step(1)])
  then have "quiet s s' \<or> first_store s s' \<or> second_store s s'"
    using access_step_kinds [OF step(2)] by (simp add: server_inv_def)
  then show ?case
    using step quiet_sizes [OF _ inv] first_store_sizes second_store_sizes by blast
qed

section \<open>The steps of the coarser model are runs of accesses\<close>

text \<open>
  A close of \<^verbatim>\<open>Plugin\<close> between its halves has stored its sizes and submitted its record,
  in which its clock reading and its byte count stand.
\<close>

fun slot_of :: "phase \<times> oss_file \<Rightarrow> slot" where
  "slot_of (Idle, f) = Calls f"
| "slot_of (Opening path flags, f) = Opened path flags f"
| "slot_of (Closing, f) = Closes \<lparr>c_pc = AtUnmark, c_now = m_end f,
     c_wb = bytes_written (m_stats f), c_file = f, c_rc = 0\<rparr>"

definition server_of :: "plugin \<Rightarrow> server" where
  "server_of s = \<lparr>s_oss = p_oss s, s_globals = p_globals s,
     slots = (\<lambda>h. map_option slot_of (handles s h))\<rparr>"

lemma server_of_simps [simp]:
  "s_globals (server_of s) = p_globals s" "s_oss (server_of s) = p_oss s"
  "slots (server_of s) h = map_option slot_of (handles s h)"
  by (simp_all add: server_of_def)

lemma server_of_set: "server_of (set_handle h ph f g s) = put_slot h (slot_of (ph, f)) g (server_of s)"
  by (auto simp: server_of_def set_handle_def put_slot_def fun_eq_iff)

lemma server_of_globals: "server_of (s\<lparr>p_globals := g\<rparr>) = (server_of s)\<lparr>s_globals := g\<rparr>"
  by (simp add: server_of_def)

lemma put_put [simp]: "put_slot h a g (put_slot h b g' s) = put_slot h a g s"
  by (simp add: put_slot_def)

text \<open>Between the steps of the coarser model no close is at its stores, and one at most is
  on the way.\<close>

lemma slot_of_not_storing [simp]: "c_pc c \<in> {AtSize, AtStat} \<Longrightarrow> slot_of x \<noteq> Closes c"
  by (cases x rule: slot_of.cases) auto

lemma storing_put_server: "k \<noteq> h \<Longrightarrow> \<not> storing (put_slot h sl g (server_of s)) k r"
  using slot_of_not_storing by (auto simp: storing_def)

lemma calm_put [simp]: "calm (put_slot h sl g (server_of s))"
  using storing_put_server unfolding calm_def by metis

lemma calm_server_of [simp]: "calm (server_of s)"
  using slot_of_not_storing by (auto simp: calm_def storing_def)

lemma reached_put:
  assumes "reached calm bhOss (put_slot h sl g (server_of s))"
    and "access_step (put_slot h sl g (server_of s)) (put_slot h sl' g' (server_of s))"
  shows "reached calm bhOss (put_slot h sl' g' (server_of s))"
  by (rule reached.step [OF assms calm_put])

lemma close_begin_accesses:
  assumes "reached calm bhOss (server_of s)" "handles s h = Some (Idle, f)" "m_stub f = Some r"
    and "Close_begin now r f (p_globals s) = (f1, g1)"
  shows "reached calm bhOss (server_of (set_handle h Closing f1 g1 s))"
proof -
  let ?nf = "(now, f)" and ?g = "p_globals s"
  let ?at = "\<lambda>pc g. put_slot h (Closes (closer_at pc ?nf)) g (server_of s)"
  have start: "reached calm bhOss (?at AtCheck ?g)"
  proof -
    have "access_step (server_of s) (put_slot h (Closes (new_closer ?nf)) ?g (server_of s))"
      using access_step.close_call [of "server_of s" h f now] assms(2) by simp
    then show ?thesis using assms(1) by (simp add: reached.step new_closer_at del: closer_at.simps)
  qed
  have go: "reached calm bhOss (?at (next_pc (m_isOpenWrite (cell (g_blackholeFS g) r)) pc) (access_effect pc ?nf g))"
    if "reached calm bhOss (?at pc g)" "next_pc (m_isOpenWrite (cell (g_blackholeFS g) r)) pc \<noteq> Returned" for pc g
  proof (rule reached_put [OF that(1)])
    have "m_stub (snd ?nf) = Some r" using assms(3) by simp
    note acc = close_access_at [OF this, of pc g]
    show "access_step (?at pc g) (?at (next_pc (m_isOpenWrite (cell (g_blackholeFS g) r)) pc) (access_effect pc ?nf g))"
      using access_step.close_access [of "?at pc g" h "closer_at pc ?nf"] acc that(2)
      by (simp del: closer_at.simps access_effect.simps)
  qed
  define g2 where "g2 = (if m_isOpenWrite (cell (g_blackholeFS ?g) r)
     then access_effect AtStat ?nf (access_effect AtSize ?nf ?g) else ?g)"
  have "reached calm bhOss (?at AtSubmit g2)"
  proof (cases "m_isOpenWrite (cell (g_blackholeFS ?g) r)")
    case True
    have "reached calm bhOss (?at AtSize ?g)" using go [OF start] True by (simp del: closer_at.simps)
    from go [OF go [OF this]] show ?thesis using True by (simp add: g2_def del: closer_at.simps)
  next
    case False
    then show ?thesis using go [OF start] by (simp add: g2_def del: closer_at.simps)
  qed
  from go [OF this] have fin: "reached calm bhOss (?at AtUnmark (access_effect AtSubmit ?nf g2))"
    by (simp del: closer_at.simps)
  have "Closes (closer_at AtUnmark ?nf) = slot_of (Closing, f1) \<and> access_effect AtSubmit ?nf g2 = g1"
    using assms(3,4)
    by (auto simp: Close_begin_def close_stats_def out_bytes_def Let_def g2_def upd_stub_def intro!: globals.equality)
  then show ?thesis using fin by (simp only: server_of_set)
qed

lemma step_accesses:
  assumes "step s s'" "reached calm bhOss (server_of s)"
  shows "reached calm bhOss (server_of s')"
  using assms
proof (induction rule: step.induct)
  case (new_file s h tident)
  then have "access_step (server_of s) (server_of (set_handle h Idle (newFile tident) (p_globals s) s))"
    using access_step.new_file [of "server_of s" h tident] by (simp add: server_of_set del: set_handle_simps)
  then show ?case using new_file by (simp add: reached.step del: set_handle_simps)
next
  case (open_fail s h f path flags mode rc f1 g1)
  then have "access_step (server_of s) (server_of (set_handle h Idle f1 g1 s))"
    using access_step.open_call [of "server_of s" h f path flags mode rc f1 g1]
    by (simp add: server_of_set del: set_handle_simps)
  then show ?case using open_fail by (simp add: reached.step del: set_handle_simps)
next
  case (open_begin s h f path flags mode rc f1 g1)
  have "access_step (server_of s) (put_slot h (if rc < 0 then Calls f1 else Opened path flags f1) g1 (server_of s))"
    by (rule access_step.open_call) (use open_begin(1-3) in simp_all)
  then have "access_step (server_of s) (server_of (set_handle h (Opening path flags) f1 g1 s))"
    using open_begin(4) by (simp only: server_of_set slot_of.simps not_less [symmetric] if_False)
  then show ?case using open_begin by (simp add: reached.step del: set_handle_simps)
next
  case (open_finish s h path flags f t0 now)
  let ?s1 = "put_slot h (Holding path flags (Open_lookup f (p_globals s))) (p_globals s) (server_of s)"
  let ?s2 = "put_slot h (Calls (Open_finish (p_oss s) path flags t0 now f (p_globals s))) (p_globals s) (server_of s)"
  have "access_step (server_of s) ?s1"
    using access_step.open_lookup [of "server_of s" h path flags f] open_finish by simp
  moreover have "access_step ?s1 ?s2"
    using access_step.open_fill [of ?s1 h path flags "Open_lookup f (p_globals s)" t0 now]
    by (simp add: Open_finish_accesses)
  ultimately have "reached calm bhOss ?s2"
    by - (rule reached.step [OF reached.step [OF open_finish(2) _ calm_put] _ calm_put])
  then show ?case by (simp add: server_of_set del: set_handle_simps)
next
  case (io s h f op)
  then have "access_step (server_of s) (server_of (set_handle h Idle (snd (do_op op f)) (p_globals s) s))"
    using access_step.io [of "server_of s" h f op] by (simp add: server_of_set del: set_handle_simps)
  then show ?case using io by (simp add: reached.step del: set_handle_simps)
next
  case (close_begin s h f r now f1 g1)
  show ?case by (rule close_begin_accesses [OF close_begin(4,1-3)])
next
  case (close_finish s h f f1 g1)
  let ?c = "\<lparr>c_pc = AtUnmark, c_now = m_end f, c_wb = bytes_written (m_stats f), c_file = f, c_rc = 0\<rparr>"
  let ?s1 = "put_slot h (Closes (?c\<lparr>c_pc := AtReset\<rparr>)) g1 (server_of s)"
  let ?s2 = "put_slot h (Calls f1) g1 (server_of s)"
  have "access_step (server_of s) ?s1"
    using access_step.close_access [of "server_of s" h ?c "?c\<lparr>c_pc := AtReset\<rparr>" g1] close_finish(1,2)
    by (simp add: close_access_def Close_finish_def Let_def)
  moreover have "access_step ?s1 ?s2"
    using access_step.close_access [of ?s1 h "?c\<lparr>c_pc := AtReset\<rparr>" "?c\<lparr>c_pc := Returned, c_file := f1\<rparr>" g1]
      close_finish(2) by (simp add: close_access_def Close_finish_def Let_def)
  ultimately have "reached calm bhOss ?s2"
    by - (rule reached.step [OF reached.step [OF close_finish(3) _ calm_put] _ calm_put])
  then show ?case by (simp add: server_of_set del: set_handle_simps)
next
  case (rename "from" to s rc g1)
  then have "access_step (server_of s) (server_of (s\<lparr>p_globals := g1\<rparr>))"
    using access_step.rename [of "from" to "server_of s"] by (simp add: server_of_globals)
  then show ?case using rename by (simp add: reached.step)
next
  case (unlink path opts s rc g1)
  then have "access_step (server_of s) (server_of (s\<lparr>p_globals := g1\<rparr>))"
    using access_step.unlink [of path opts "server_of s"] by (simp add: server_of_globals)
  then show ?case using unlink by (simp add: reached.step)
next
  case (seed s rt path sz)
  then have "access_step (server_of s) ((server_of s)\<lparr>s_globals := (p_globals s)\<lparr>g_blackholeFS := seed path sz rt (p_fs s)\<rparr>\<rparr>)"
    using access_step.seed [of "server_of s" rt path sz] by simp
  then have "access_step (server_of s) (server_of (s\<lparr>p_globals := (p_globals s)\<lparr>g_blackholeFS := seed path sz rt (p_fs s)\<rparr>\<rparr>))"
    by (simp add: server_of_globals)
  then show ?case by (rule reached.step [OF seed(3) _ calm_server_of])
qed

text \<open>
  So each state \<^verbatim>\<open>Plugin\<close> can reach is one that accesses reach, through states in which
  no two closes are at their stores on one stub.
\<close>

lemma reachable_accesses: "reachable bhOss s \<Longrightarrow> reached calm bhOss (server_of s)"
proof (induction rule: reachable.induct)
  case start
  have "server_of (start bhOss) = start_server bhOss"
    by (simp add: server_of_def start_def start_server_def)
  then show ?case by (simp add: reached.start)
qed (rule step_accesses)

section \<open>Properties\<close>

text \<open>
  C8: In every state the server can reach, with the calls of any number of clients
  interleaved between the single accesses an open or a close makes to shared memory (the
  call of the namespace, the lookup of the stub and the copy of its size; the test of
  the write mark, the two stores of the size, the record and the end of the mark), the
  namespace is well formed but for the two sizes of a stub, which may differ, and each
  handle with a stub points to a live one and carries its inode and read pattern and has
  counted no error, except that a handle whose open has just looked the stub up has not
  copied these yet.
\<close>

theorem reachable_server_inv:
  assumes "access_reachable bhOss s"
  shows "fs_shape (s_fs s) \<and>
    (\<forall>h sl r. slots s h = Some sl \<and> m_stub (slot_file sl) = Some r \<longrightarrow>
       r < next_ref (s_fs s) \<and>
       ((\<nexists>path flags f. sl = Holding path flags f) \<longrightarrow>
         m_errors (slot_file sl) = 0 \<and> m_ino (slot_file sl) = st_ino (m_stat (cell (s_fs s) r)) \<and>
         (m_isRandom (slot_file sl) \<longleftrightarrow> m_readtype (cell (s_fs s) r) = ''random'')))"
proof -
  have inv: "fs_shape (s_fs s)" "slots_ok s"
    using reached_inv [OF assms] by (simp_all add: server_inv_def)
  have "slot_ok (s_fs s) sl" if "slots s h = Some sl" for h sl
    using inv(2) that by (simp add: slots_ok_def)
  moreover have "m_stub (slot_file sl) = Some r \<Longrightarrow> slot_ok (s_fs s) sl \<Longrightarrow> r < next_ref (s_fs s) \<and>
       ((\<nexists>path flags f. sl = Holding path flags f) \<longrightarrow>
         m_errors (slot_file sl) = 0 \<and> m_ino (slot_file sl) = st_ino (m_stat (cell (s_fs s) r)) \<and>
         (m_isRandom (slot_file sl) \<longleftrightarrow> m_readtype (cell (s_fs s) r) = ''random''))" for sl r
    by (cases sl) (auto simp: handle_ok_def ino_of_def)
  ultimately show ?thesis using inv(1) by blast
qed

theorem reachable_server_inv_witness:
  "m_ino demo_file = st_ino (m_stat (cell (s_fs (server_of (demo 7))) 0)) \<and> fs_shape (s_fs (server_of (demo 7)))"
  using reachable_server_inv [OF reached_mono [OF reachable_accesses [OF demo_reachable [of 7]]]]
    demo_file_facts(1) demo_at(1) [of 7] by force

text \<open>
  C27: In every run, at the same grain of single accesses, in which no two closes are at
  once between finding the write mark of one stub and storing its second size, every
  stub has one size in both places except while a close is between its two stores to
  that stub; so when no close is there the whole invariant of the namespace holds.
\<close>

theorem sizes_agree_without_overlap:
  assumes "reached calm bhOss s"
  shows "(\<forall>r < next_ref (s_fs s). (\<nexists>h c. tearing s h c r) \<longrightarrow>
      st_size (m_stat (cell (s_fs s) r)) = m_size (cell (s_fs s) r)) \<and>
    ((\<nexists>h c r. tearing s h c r) \<longrightarrow> fs_inv (s_fs s))"
proof -
  have inv: "fs_shape (s_fs s)" "sizes_inv s"
    using reached_inv [OF assms] calm_inv [OF assms] by (simp_all add: server_inv_def)
  then have "fs_inv (mend {} (s_fs s))" if "\<nexists>h c r. tearing s h c r"
    using that by (auto simp: fs_inv_mend sizes_inv_def)
  moreover have "mend {} fs = fs" for fs by (simp add: mend_def)
  ultimately show ?thesis using inv(2) by (auto simp: sizes_inv_def one_size_def)
qed

theorem sizes_agree_without_overlap_witness:
  "fs_inv (s_fs (server_of (demo 7))) \<and>
   st_size (m_stat (cell (s_fs (server_of (demo 7))) 0)) = 16"
proof -
  have none: "\<nexists>h c r. tearing (server_of (demo 7)) h c r"
    using slot_of_not_storing by (auto simp: tearing_def)
  note sizes = sizes_agree_without_overlap [OF reachable_accesses [OF demo_reachable [of 7]]]
  have inv: "fs_inv (s_fs (server_of (demo 7)))" using sizes none by blast
  moreover have "0 < next_ref (s_fs (server_of (demo 7)))"
    using fs_inv_ref [OF inv] demo_file_facts(5) by (simp add: demo_at)
  ultimately show ?thesis using sizes none by (simp add: demo_at demo_g_facts(3))
qed

end
