(* ===== verification/File_Store.thy ===== *)
theory File_Store
  imports Oss OssFile_Session
begin

text \<open>
  What a client may take the server for: a store of files that have a size and a pattern,
  with sessions that read or write them and directory handles that deliver names. The
  specification has no stubs, pointers, descriptors, marks or sorted containers. A client
  that does not write a file while it is open elsewhere, and does not rename or remove a
  file that is open, cannot tell the plugin from it.
\<close>

section \<open>The specification\<close>

text \<open>A file: its size, and the seed of its pattern unless it is all zeros.\<close>

record afile =
  a_size :: u64
  a_seed :: "u64 option"

record session =
  s_path :: path
  s_write :: bool
  s_out :: i64
  s_in :: i64

record store =
  a_files :: "path \<Rightarrow> afile option"
  a_sessions :: "nat \<Rightarrow> session option"
  a_dirs :: "nat \<Rightarrow> string list"
  a_out :: i64
  a_in :: i64

datatype call =
    COpen nat path i32 i32 int int
  | CWrite nat i64 u64
  | CWriteAio nat sfs_aio
  | CRead nat "byte list" i64 u64
  | CReadRaw nat "byte list" i64 u64
  | CReadAio nat sfs_aio
  | CReadV nat "iov list" i32
  | CReadPrep nat i64 u64
  | CFstat nat
  | CFsync nat
  | CFtruncate nat u64
  | CClose nat int
  | CStat path
  | CRename path path
  | CUnlink path
  | COpendir nat path
  | CReaddir nat string i32
  | CClosedir nat
  | CMkdir path u32 i32
  | CRemdir path i32
  | CChmod path u32
  | CCreate string path u32 i32
  | CTruncate path u64

datatype answer = Rc int | Moved i64 | Data i64 "byte list" | Segments i64 "iov list"
  | Size u64 | Name int string

definition empty_afile :: afile where
  "empty_afile = \<lparr>a_size = 0, a_seed = None\<rparr>"

definition a_count :: "u64 \<Rightarrow> i64 \<Rightarrow> u64 \<Rightarrow> nat" where
  "a_count sz offset blen =
     (if sint offset < 0 \<or> uint sz \<le> sint offset then 0
      else nat (min (uint blen) (uint sz - sint offset)))"

definition a_bytes :: "afile \<Rightarrow> nat \<Rightarrow> i64 \<Rightarrow> byte list" where
  "a_bytes x n offset =
     (case a_seed x of None \<Rightarrow> replicate n 0 | Some ino \<Rightarrow> lcg_stream n (offset XOR ino))"

definition seg_count :: "afile \<Rightarrow> iov \<Rightarrow> nat" where
  "seg_count x v =
     (if sint (iov_size v) \<le> 0 then 0
      else a_count (a_size x) (iov_offset v) (scast (iov_size v)))"

definition fill_seg :: "afile \<Rightarrow> iov \<Rightarrow> iov" where
  "fill_seg x v = v\<lparr>iov_data :=
     a_bytes x (seg_count x v) (iov_offset v) @ drop (seg_count x v) (iov_data v)\<rparr>"

text \<open>The names in a directory, in the order of the paths.\<close>

definition listing :: "path \<Rightarrow> (path \<Rightarrow> afile option) \<Rightarrow> string list" where
  "listing p files =
     map leaf_of (sorted_list_of_set {q. files q \<noteq> None \<and> parent_of q = normalise p})"

definition in_session :: "nat \<Rightarrow> (session \<Rightarrow> session) \<Rightarrow> store \<Rightarrow> store" where
  "in_session h f a = a\<lparr>a_sessions := (a_sessions a)(h := map_option f (a_sessions a h))\<rparr>"

definition store_open :: "nat \<Rightarrow> path \<Rightarrow> i32 \<Rightarrow> store \<Rightarrow> answer \<times> store" where
  "store_open h p flags a =
     (let write = (flags AND O_ACCMODE \<noteq> O_RDONLY);
          start = \<lparr>s_path = p, s_write = write, s_out = 0, s_in = 0\<rparr>;
          opened = (\<lambda>fs. (Rc 0, a\<lparr>a_files := fs, a_sessions := (a_sessions a)(h \<mapsto> start)\<rparr>))
      in case a_files a p of
           None \<Rightarrow> if write then opened ((a_files a)(p \<mapsto> empty_afile)) else (Rc (- ENOENT), a)
         | Some x \<Rightarrow>
             if write \<and> flags AND O_EXCL \<noteq> 0 then (Rc (- EEXIST), a)
             else if write \<and> flags AND O_TRUNC \<noteq> 0 then opened ((a_files a)(p \<mapsto> empty_afile))
             else opened (a_files a))"

definition store_close :: "nat \<Rightarrow> store \<Rightarrow> answer \<times> store" where
  "store_close h a =
     (case a_sessions a h of
        None \<Rightarrow> (Rc (- ENOENT), a)
      | Some s \<Rightarrow>
          (Rc 0, a\<lparr>a_files := (if s_write s
               then (a_files a)(s_path s := map_option (\<lambda>x. x\<lparr>a_size := s_out s\<rparr>) (a_files a (s_path s)))
               else a_files a),
             a_sessions := (a_sessions a)(h := None),
             a_out := a_out a + s_out s, a_in := a_in a + s_in s\<rparr>))"

definition store_read :: "nat \<Rightarrow> byte list \<Rightarrow> i64 \<Rightarrow> u64 \<Rightarrow> store \<Rightarrow> answer \<times> store" where
  "store_read h buff offset blen a =
     (case a_sessions a h of
        None \<Rightarrow> (Data (word_of_int (- EINVAL)) buff, a)
      | Some s \<Rightarrow>
          let x = the (a_files a (s_path s)); k = a_count (a_size x) offset blen
          in (Data (of_nat k) (a_bytes x k offset @ drop k buff),
              in_session h (\<lambda>s. s\<lparr>s_in := s_in s + of_nat k\<rparr>) a))"

definition store_readv :: "nat \<Rightarrow> iov list \<Rightarrow> store \<Rightarrow> answer \<times> store" where
  "store_readv h vs a =
     (case a_sessions a h of
        None \<Rightarrow> (Segments (word_of_int (- EINVAL)) vs, a)
      | Some s \<Rightarrow>
          let x = the (a_files a (s_path s)); tot = of_nat (sum_list (map (seg_count x) vs))
          in (Segments tot (map (fill_seg x) vs),
              in_session h (\<lambda>s. s\<lparr>s_in := s_in s + tot\<rparr>) a))"

definition store_readdir :: "nat \<Rightarrow> string \<Rightarrow> i32 \<Rightarrow> store \<Rightarrow> answer \<times> store" where
  "store_readdir d buff blen a =
     (case a_dirs a d of
        [] \<Rightarrow> (Name 0 '''', a)
      | n # ns \<Rightarrow>
          (if int (length n) < sint blen then Name 0 n else Name (- ENAMETOOLONG) (cstr buff),
           a\<lparr>a_dirs := (a_dirs a)(d := ns)\<rparr>))"

fun store_exec :: "call \<Rightarrow> store \<Rightarrow> answer \<times> store" where
  "store_exec (COpen h p flags mode t0 now) a = store_open h p flags a"
| "store_exec (CWrite h offset blen) a =
     (Moved blen, in_session h (\<lambda>s. s\<lparr>s_out := s_out s + blen\<rparr>) a)"
| "store_exec (CWriteAio h aiop) a =
     (Moved (aio_nbytes aiop), in_session h (\<lambda>s. s\<lparr>s_out := s_out s + aio_nbytes aiop\<rparr>) a)"
| "store_exec (CRead h buff offset blen) a = store_read h buff offset blen a"
| "store_exec (CReadRaw h buff offset blen) a = store_read h buff offset blen a"
| "store_exec (CReadAio h aiop) a =
     store_read h (aio_buf aiop) (aio_offset aiop) (aio_nbytes aiop) a"
| "store_exec (CReadV h vs n) a =
     (if vs = [] then (Segments 0 vs, a) else store_readv h vs a)"
| "store_exec (CReadPrep h offset blen) a =
     (Moved (if a_sessions a h = None then word_of_int (- EINVAL) else 0), a)"
| "store_exec (CFstat h) a =
     (case a_sessions a h of
        None \<Rightarrow> (Rc (- ENOENT), a)
      | Some s \<Rightarrow> (Size (a_size (the (a_files a (s_path s)))), a))"
| "store_exec (CFsync h) a = (Rc (- ENOTSUP), a)"
| "store_exec (CFtruncate h len) a = (Rc (- ENOTSUP), a)"
| "store_exec (CClose h t) a = store_close h a"
| "store_exec (CStat p) a =
     (case a_files a p of None \<Rightarrow> (Rc (- ENOENT), a) | Some x \<Rightarrow> (Size (a_size x), a))"
| "store_exec (CRename p q) a =
     (case a_files a p of
        None \<Rightarrow> (Rc (- ENOENT), a)
      | Some x \<Rightarrow> (Rc 0, a\<lparr>a_files := ((a_files a)(p := None))(q \<mapsto> x)\<rparr>))"
| "store_exec (CUnlink p) a =
     (if a_files a p = None then (Rc (- ENOENT), a)
      else (Rc 0, a\<lparr>a_files := (a_files a)(p := None)\<rparr>))"
| "store_exec (COpendir d p) a =
     (Rc 0, a\<lparr>a_dirs := (a_dirs a)(d := listing p (a_files a))\<rparr>)"
| "store_exec (CReaddir d buff blen) a = store_readdir d buff blen a"
| "store_exec (CClosedir d) a = (Rc 0, a\<lparr>a_dirs := (a_dirs a)(d := [])\<rparr>)"
| "store_exec (CMkdir p mode mkpath) a = (Rc 0, a)"
| "store_exec (CRemdir p opts) a = (Rc 0, a)"
| "store_exec (CChmod p mode) a = (Rc (- ENOTSUP), a)"
| "store_exec (CCreate tident p mode opts) a = (Rc (- ENOTSUP), a)"
| "store_exec (CTruncate p len) a = (Rc (- ENOTSUP), a)"

text \<open>
  What the client keeps to. A handle is not opened twice; a file is opened for writing
  only when it is not open, and opened for reading only when it is not being written; a
  file that is open is not renamed, replaced or removed; a read has room in its buffers;
  a buffer for names is not empty, and the names delivered are C strings.
\<close>

definition unused :: "path \<Rightarrow> store \<Rightarrow> bool" where
  "unused p a \<longleftrightarrow> (\<forall>h s. a_sessions a h = Some s \<longrightarrow> s_path s \<noteq> p)"

definition unwritten :: "path \<Rightarrow> store \<Rightarrow> bool" where
  "unwritten p a \<longleftrightarrow> (\<forall>h s. a_sessions a h = Some s \<longrightarrow> s_path s = p \<longrightarrow> \<not> s_write s)"

abbreviation room_for :: "u64 \<Rightarrow> byte list \<Rightarrow> bool" where
  "room_for blen buff \<equiv> uint blen < 2 ^ 63 \<and> unat blen \<le> length buff"

fun polite :: "call \<Rightarrow> store \<Rightarrow> bool" where
  "polite (COpen h p flags mode t0 now) a \<longleftrightarrow> a_sessions a h = None \<and>
     (if flags AND O_ACCMODE = O_RDONLY then unwritten p a else unused p a)"
| "polite (CRead h buff offset blen) a \<longleftrightarrow> room_for blen buff"
| "polite (CReadRaw h buff offset blen) a \<longleftrightarrow> room_for blen buff"
| "polite (CReadAio h aiop) a \<longleftrightarrow> room_for (aio_nbytes aiop) (aio_buf aiop)"
| "polite (CReadV h vs n) a \<longleftrightarrow> sint n = int (length vs) \<and>
     (\<forall>v \<in> set vs. nat (sint (iov_size v)) \<le> length (iov_data v))"
| "polite (CReaddir d buff blen) a \<longleftrightarrow> buff \<noteq> [] \<and>
     (\<forall>n \<in> set (a_dirs a d). NUL \<notin> set n \<and> int (length n) < 2 ^ 31)"
| "polite (CRename p q) a \<longleftrightarrow> unused p a \<and> unused q a"
| "polite (CUnlink p) a \<longleftrightarrow> unused p a"
| "polite _ a \<longleftrightarrow> True"

section \<open>The server\<close>

record served =
  v_globals :: globals
  v_handles :: "nat \<Rightarrow> oss_file"
  v_dirs :: "nat \<Rightarrow> oss_dir"

abbreviation v_fs :: "served \<Rightarrow> bhfs" where
  "v_fs s \<equiv> g_blackholeFS (v_globals s)"

definition put_handle :: "nat \<Rightarrow> oss_file \<Rightarrow> globals \<Rightarrow> served \<Rightarrow> served" where
  "put_handle h f g s = s\<lparr>v_globals := g, v_handles := (v_handles s)(h := f)\<rparr>"

definition put_dir :: "nat \<Rightarrow> oss_dir \<Rightarrow> served \<Rightarrow> served" where
  "put_dir d dir s = s\<lparr>v_dirs := (v_dirs s)(d := dir)\<rparr>"

fun serve_call :: "oss \<Rightarrow> call \<Rightarrow> served \<Rightarrow> answer \<times> served" where
  "serve_call bhOss (COpen h p flags mode t0 now) s =
     (let (rc, f, g) = Open bhOss p flags mode t0 now (v_handles s h) (v_globals s)
      in (Rc rc, put_handle h f g s))"
| "serve_call bhOss (CWrite h offset blen) s =
     (let (n, f, sleep) = Write offset blen (v_handles s h)
      in (Moved n, put_handle h f (v_globals s) s))"
| "serve_call bhOss (CWriteAio h aiop) s =
     (let (rc, f, aiop1, sleep) = Write_aio aiop (v_handles s h)
      in (Moved (aio_Result aiop1), put_handle h f (v_globals s) s))"
| "serve_call bhOss (CRead h buff offset blen) s =
     (let (n, f, buff1) = Read buff offset blen (v_handles s h)
      in (Data n buff1, put_handle h f (v_globals s) s))"
| "serve_call bhOss (CReadRaw h buff offset blen) s =
     (let (n, f, buff1) = ReadRaw buff offset blen (v_handles s h)
      in (Data n buff1, put_handle h f (v_globals s) s))"
| "serve_call bhOss (CReadAio h aiop) s =
     (let (rc, f, aiop1) = Read_aio aiop (v_handles s h)
      in (Data (aio_Result aiop1) (aio_buf aiop1), put_handle h f (v_globals s) s))"
| "serve_call bhOss (CReadV h vs n) s =
     (let (tot, f, vs1) = ReadV vs n (v_handles s h)
      in (Segments tot vs1, put_handle h f (v_globals s) s))"
| "serve_call bhOss (CReadPrep h offset blen) s =
     (let (rc, f) = Read_prep offset blen (v_handles s h)
      in (Moved rc, put_handle h f (v_globals s) s))"
| "serve_call bhOss (CFsync h) s = (Rc (Fsync (v_handles s h)), s)"
| "serve_call bhOss (CFtruncate h len) s = (Rc (Ftruncate len (v_handles s h)), s)"
| "serve_call bhOss (CFstat h) s =
     (let (rc, st) = Fstat (m_stat new_stub) (v_handles s h) (v_globals s)
      in (if rc = 0 then Size (st_size st) else Rc rc, s))"
| "serve_call bhOss (CClose h t) s =
     (let (rc, f, g) = Close t (v_handles s h) (v_globals s) in (Rc rc, put_handle h f g s))"
| "serve_call bhOss (CStat p) s =
     (let (rc, st) = Stat p (m_stat new_stub) (v_globals s)
      in (if rc = 0 then Size (st_size st) else Rc rc, s))"
| "serve_call bhOss (CRename p q) s =
     (let (rc, g) = Rename p q (v_globals s) in (Rc rc, s\<lparr>v_globals := g\<rparr>))"
| "serve_call bhOss (CUnlink p) s =
     (let (rc, g) = Unlink p 0 (v_globals s) in (Rc rc, s\<lparr>v_globals := g\<rparr>))"
| "serve_call bhOss (COpendir d p) s =
     (let (rc, dir) = Opendir p (v_fs s) (v_dirs s d) in (Rc rc, put_dir d dir s))"
| "serve_call bhOss (CReaddir d buff blen) s =
     (let (rc, dir, buff1) = Readdir buff blen (v_dirs s d)
      in (Name rc (cstr buff1), put_dir d dir s))"
| "serve_call bhOss (CClosedir d) s =
     (let (rc, dir) = Close_dir (v_dirs s d) in (Rc rc, put_dir d dir s))"
| "serve_call bhOss (CMkdir p mode mkpath) s = (Rc (Mkdir p mode mkpath), s)"
| "serve_call bhOss (CRemdir p opts) s = (Rc (Remdir p opts), s)"
| "serve_call bhOss (CChmod p mode) s = (Rc (Chmod p mode), s)"
| "serve_call bhOss (CCreate tident p mode opts) s = (Rc (Create tident p mode opts), s)"
| "serve_call bhOss (CTruncate p len) s = (Rc (Truncate p len), s)"

section \<open>The abstraction\<close>

definition file_of :: "stub \<Rightarrow> afile" where
  "file_of s = \<lparr>a_size = m_size s,
     a_seed = (if m_readtype s = ''random'' then Some (st_ino (m_stat s)) else None)\<rparr>"

definition session_of :: "oss_file \<Rightarrow> session option" where
  "session_of f = (case m_stub f of None \<Rightarrow> None
     | Some r \<Rightarrow> Some \<lparr>s_path = m_path f, s_write = was_write (m_stats f),
         s_out = out_bytes f, s_in = m_readBytes f\<rparr>)"

definition files_of :: "bhfs \<Rightarrow> path \<Rightarrow> afile option" where
  "files_of fs p = map_option (\<lambda>r. file_of (cell fs r)) (getStub fs p)"

definition names_left :: "oss_dir \<Rightarrow> string list" where
  "names_left dir = drop (m_pos dir) (m_entries dir)"

definition abs_served :: "served \<Rightarrow> store" where
  "abs_served s = \<lparr>a_files = files_of (v_fs s), a_sessions = (\<lambda>h. session_of (v_handles s h)),
     a_dirs = (\<lambda>d. names_left (v_dirs s d)),
     a_out = m_total_bytes_written (g_statsManager (v_globals s)),
     a_in = m_total_bytes_read (g_statsManager (v_globals s))\<rparr>"

definition handle_fits :: "bhfs \<Rightarrow> oss_file \<Rightarrow> bool" where
  "handle_fits fs f \<longleftrightarrow> (\<forall>r. m_stub f = Some r \<longrightarrow> getStub fs (m_path f) = Some r \<and>
     m_size_cached f = m_size (cell fs r) \<and> m_ino f = st_ino (m_stat (cell fs r)) \<and>
     (m_isRandom f \<longleftrightarrow> m_readtype (cell fs r) = ''random''))"

text \<open>A stub is marked exactly while a handle writes it, and then no other handle has it.\<close>

definition served_inv :: "served \<Rightarrow> bool" where
  "served_inv s \<longleftrightarrow> fs_inv (v_fs s) \<and> (\<forall>h. handle_fits (v_fs s) (v_handles s h)) \<and>
     (\<forall>p r. getStub (v_fs s) p = Some r \<longrightarrow> m_isOpenWrite (cell (v_fs s) r) \<longrightarrow>
        (\<exists>h. m_stub (v_handles s h) = Some r)) \<and>
     (\<forall>h r. m_stub (v_handles s h) = Some r \<longrightarrow>
        (m_isOpenWrite (cell (v_fs s) r) \<longleftrightarrow> was_write (m_stats (v_handles s h)))) \<and>
     (\<forall>h k r. h \<noteq> k \<longrightarrow> m_stub (v_handles s h) = Some r \<longrightarrow> m_stub (v_handles s k) = Some r \<longrightarrow>
        \<not> m_isOpenWrite (cell (v_fs s) r))"

end
