(* ===== verification/Server_Calls.thy ===== *)
theory Server_Calls
  imports File_Store
begin

text \<open>
  The calls of the server that do not change the namespace, against the store of
  \<^verbatim>\<open>File_Store\<close>: the calls on a file handle, the calls on a directory handle, and those
  that change nothing at all.
\<close>

section \<open>Reading off the abstraction\<close>

lemma served_inv_fs: "served_inv s \<Longrightarrow> fs_inv (v_fs s)"
  by (simp add: served_inv_def)

lemma served_inv_fits: "served_inv s \<Longrightarrow> handle_fits (v_fs s) (v_handles s h)"
  by (simp add: served_inv_def)

lemma put_handle_simps [simp]:
  "v_globals (put_handle h f g s) = g" "v_handles (put_handle h f g s) = (v_handles s)(h := f)"
  "v_dirs (put_handle h f g s) = v_dirs s"
  "v_globals (put_dir d dir s) = v_globals s" "v_handles (put_dir d dir s) = v_handles s"
  "v_dirs (put_dir d dir s) = (v_dirs s)(d := dir)"
  by (simp_all add: put_handle_def put_dir_def)

lemma put_same [simp]:
  "put_handle h (v_handles s h) (v_globals s) s = s" "put_dir d (v_dirs s d) s = s"
  by (cases s, simp add: put_handle_def put_dir_def)+

lemma session_of_None [simp]: "session_of f = None \<longleftrightarrow> m_stub f = None"
  by (simp add: session_of_def split: option.split)

lemma session_of_stub:
  "m_stub f = Some r \<Longrightarrow> session_of f = Some \<lparr>s_path = m_path f, s_write = was_write (m_stats f),
     s_out = out_bytes f, s_in = m_readBytes f\<rparr>"
  by (simp add: session_of_def)

lemma files_of_at: "getStub fs p = Some r \<Longrightarrow> files_of fs p = Some (file_of (cell fs r))"
  by (simp add: files_of_def)

lemma store_eqI:
  "a_files a = a_files b \<Longrightarrow> a_sessions a = a_sessions b \<Longrightarrow> a_dirs a = a_dirs b \<Longrightarrow> a_out a = a_out b \<Longrightarrow>
   a_in a = a_in b \<Longrightarrow> (a :: store) = b"
  by simp

lemma abs_served_simps [simp]:
  "a_files (abs_served s) = files_of (v_fs s)" "a_sessions (abs_served s) h = session_of (v_handles s h)"
  "a_dirs (abs_served s) = (\<lambda>d. names_left (v_dirs s d))"
  "a_out (abs_served s) = m_total_bytes_written (g_statsManager (v_globals s))"
  "a_in (abs_served s) = m_total_bytes_read (g_statsManager (v_globals s))"
  by (simp_all add: abs_served_def)

section \<open>Calls on an open handle\<close>

text \<open>A call that leaves the globals alone and what the open has fixed in the handle.\<close>

lemma served_inv_same:
  assumes "served_inv s" "same_open (v_handles s h) f"
  shows "served_inv (put_handle h f (v_globals s) s)"
proof -
  let ?s = "put_handle h f (v_globals s) s"
  have eq: "m_stub (v_handles ?s k) = m_stub (v_handles s k)"
    "m_path (v_handles ?s k) = m_path (v_handles s k)"
    "m_size_cached (v_handles ?s k) = m_size_cached (v_handles s k)"
    "m_isRandom (v_handles ?s k) = m_isRandom (v_handles s k)"
    "m_ino (v_handles ?s k) = m_ino (v_handles s k)"
    "m_stats (v_handles ?s k) = m_stats (v_handles s k)" for k
    using assms(2) by (auto simp: same_open_def)
  show ?thesis using assms(1) unfolding served_inv_def handle_fits_def eq put_handle_simps(1) by blast
qed

lemma abs_served_session:
  assumes "session_of f = map_option u (session_of (v_handles s h))"
  shows "abs_served (put_handle h f (v_globals s) s) = in_session h u (abs_served s)"
  using assms by (intro store_eqI) (auto simp: in_session_def fun_eq_iff)

lemma session_of_same:
  assumes "same_open f f'"
  shows "session_of f' = map_option (\<lambda>x. x\<lparr>s_out := out_bytes f', s_in := m_readBytes f'\<rparr>) (session_of f)"
  using assms by (auto simp: session_of_def same_open_def split: option.split)

definition simulates :: "oss \<Rightarrow> call \<Rightarrow> served \<Rightarrow> bool" where
  "simulates bhOss c s \<longleftrightarrow>
     (let (ans, s') = serve_call bhOss c s
      in store_exec c (abs_served s) = (ans, abs_served s') \<and> served_inv s')"

lemma simulates_write:
  assumes "served_inv s"
  shows "simulates bhOss (CWrite h offset blen) s" "simulates bhOss (CWriteAio h aiop) s"
proof -
  let ?f = "v_handles s h"
  let ?f1 = "fst (snd (Write offset blen ?f))" and ?f2 = "fst (snd (Write_aio aiop ?f))"
  have same: "same_open ?f ?f1" "same_open ?f ?f2"
    by (simp_all add: same_open_def Write_def Write_aio_def Let_def)
  have n: "out_bytes ?f1 = out_bytes ?f + blen" "m_readBytes ?f1 = m_readBytes ?f"
    "out_bytes ?f2 = out_bytes ?f + aio_nbytes aiop" "m_readBytes ?f2 = m_readBytes ?f"
    by (simp_all add: out_bytes_def Write_def Write_aio_def Let_def)
  have "session_of ?f1 = map_option (\<lambda>x. x\<lparr>s_out := s_out x + blen\<rparr>) (session_of ?f)"
    "session_of ?f2 = map_option (\<lambda>x. x\<lparr>s_out := s_out x + aio_nbytes aiop\<rparr>) (session_of ?f)"
    using session_of_same [OF same(1)] session_of_same [OF same(2)]
    by (auto simp: n session_of_def split: option.split)
  then show "simulates bhOss (CWrite h offset blen) s" "simulates bhOss (CWriteAio h aiop) s"
    using served_inv_same [OF assms same(1)] served_inv_same [OF assms same(2)]
    by (simp_all add: simulates_def abs_served_session case_prod_beta Let_def,
        simp_all add: Write_def Write_aio_def Let_def)
qed

text \<open>What an open handle has cached is what the store knows of its file.\<close>

lemma handle_file:
  assumes "served_inv s" "m_stub (v_handles s h) = Some r"
  shows "files_of (v_fs s) (m_path (v_handles s h)) = Some (file_of (cell (v_fs s) r))"
    and "a_count (a_size (file_of (cell (v_fs s) r))) = read_count (v_handles s h)"
    and "a_bytes (file_of (cell (v_fs s) r)) = content (v_handles s h)"
  using served_inv_fits [OF assms(1), of h] assms(2)
  by (auto simp: handle_fits_def files_of_at a_count_def read_count_def a_bytes_def content_def
      file_of_def fun_eq_iff)

text \<open>A call on a handle that changes its byte counts, or its error count, only.\<close>

lemma put_handle_session:
  assumes "served_inv s" "same_open (v_handles s h) f" "out_bytes f = out_bytes (v_handles s h)"
    and "m_stub (v_handles s h) \<noteq> None \<Longrightarrow> m_readBytes f = m_readBytes (v_handles s h) + tot"
  shows "served_inv (put_handle h f (v_globals s) s)"
    and "abs_served (put_handle h f (v_globals s) s) =
      in_session h (\<lambda>x. x\<lparr>s_in := s_in x + tot\<rparr>) (abs_served s)"
proof -
  show "served_inv (put_handle h f (v_globals s) s)" by (rule served_inv_same [OF assms(1,2)])
  have "session_of f = map_option (\<lambda>x. x\<lparr>s_in := s_in x + tot\<rparr>) (session_of (v_handles s h))"
    using assms(2-4) by (auto simp: session_of_def same_open_def split: option.split)
  then show "abs_served (put_handle h f (v_globals s) s) =
      in_session h (\<lambda>x. x\<lparr>s_in := s_in x + tot\<rparr>) (abs_served s)"
    by (rule abs_served_session)
qed

lemma in_session_None: "a_sessions a h = None \<Longrightarrow> in_session h u a = a"
  by (simp add: in_session_def fun_upd_idem)

lemma put_handle_error:
  assumes "served_inv s" "m_stub (v_handles s h) = None"
  shows "served_inv (put_handle h ((v_handles s h)\<lparr>m_errors := e\<rparr>) (v_globals s) s)"
    and "abs_served (put_handle h ((v_handles s h)\<lparr>m_errors := e\<rparr>) (v_globals s) s) = abs_served s"
  using put_handle_session [OF assms(1), of h "(v_handles s h)\<lparr>m_errors := e\<rparr>" 0] assms(2)
  by (simp_all add: same_open_def out_bytes_def in_session_None)

lemma store_read_served:
  assumes "served_inv s" "room_for blen buff"
  shows "let (n, f, buff1) = Read buff offset blen (v_handles s h);
             s' = put_handle h f (v_globals s) s
    in store_read h buff offset blen (abs_served s) = (Data n buff1, abs_served s') \<and> served_inv s'"
proof (cases "m_stub (v_handles s h)")
  case None
  then show ?thesis
    using put_handle_error [OF assms(1) None] by (simp add: Read_def store_read_def session_of_def)
next
  case (Some r)
  let ?f = "v_handles s h"
  let ?k = "read_count ?f offset blen"
  have rd: "Read buff offset blen ?f = (of_nat ?k, account_read ?k ?f, content ?f ?k offset @ drop ?k buff)"
    using Read_open [OF Some] ReadInner_eq [of blen buff ?f offset] assms(2) by simp
  have "out_bytes (account_read ?k ?f) = out_bytes ?f" by (simp add: out_bytes_def account_read_def)
  note put = put_handle_session [OF assms(1) same_open_account this account_read_bytes]
  show ?thesis
    using put Some by (simp add: rd store_read_def session_of_stub handle_file [OF assms(1) Some] Let_def)
qed

lemma simulates_read:
  assumes "served_inv s"
  shows "room_for blen buff \<Longrightarrow> simulates bhOss (CRead h buff offset blen) s"
    and "room_for blen buff \<Longrightarrow> simulates bhOss (CReadRaw h buff offset blen) s"
    and "room_for (aio_nbytes aiop) (aio_buf aiop) \<Longrightarrow> simulates bhOss (CReadAio h aiop) s"
  using store_read_served [OF assms, of blen buff offset h]
    store_read_served [OF assms, of "aio_nbytes aiop" "aio_buf aiop" "aio_offset aiop" h]
  by (simp_all add: simulates_def ReadRaw_def Read_aio_def case_prod_beta Let_def)

text \<open>The segments of a vectored read, each filled as a read of its own would.\<close>

lemma readv_loop_segments:
  assumes "a_count (a_size x) = read_count f" "a_bytes x = content f"
    and "\<forall>v \<in> set vs. nat (sint (iov_size v)) \<le> length (iov_data v)"
  shows "\<exists>ops1. readv_loop f vs tot ops =
    (Inr (tot + of_nat (sum_list (map (seg_count x) vs)), ops1), map (fill_seg x) vs)"
  using assms(3)
proof (induction vs arbitrary: tot ops)
  case (Cons v vs)
  show ?case
  proof (cases "sint (iov_size v) \<le> 0")
    case True
    then show ?thesis
      using Cons.IH [of tot ops] Cons.prems by (auto simp: seg_count_def fill_seg_def assms(2) content_def)
  next
    case False
    let ?b = "scast (iov_size v) :: u64"
    let ?k = "read_count f (iov_offset v) ?b"
    have small: "uint ?b < 2 ^ 63" using uint_scast_small [of "iov_size v"] False by simp
    have pos: "\<not> sint (of_nat ?k :: i64) < 0"
      using read_count_pos(2) [OF read_count_small [OF small], of f "iov_offset v"] by simp
    have "unat ?b = nat (sint (iov_size v))"
      using False sint_lt [of "iov_size v"] sint_uint_nonneg [of "iov_size v"]
      by (simp add: scast_eq unat_eq_nat_uint unsigned_ucast_eq take_bit_int_eq_self del: nat_uint_eq)
    then have "ReadInner f (iov_data v) (iov_offset v) ?b =
        (of_nat ?k, content f ?k (iov_offset v) @ drop ?k (iov_data v))"
      using Cons.prems by (intro ReadInner_eq) simp
    moreover have "seg_count x v = ?k" "fill_seg x v = v\<lparr>iov_data :=
        content f ?k (iov_offset v) @ drop ?k (iov_data v)\<rparr>"
      using False by (simp_all add: seg_count_def fill_seg_def assms(1,2))
    ultimately show ?thesis
      using False pos Cons.IH [of "tot + of_nat ?k" "ops + 1"] Cons.prems
      by (auto simp: add.assoc)
  qed
qed simp

lemma simulates_readv:
  assumes "served_inv s" "polite (CReadV h vs n) (abs_served s)"
  shows "simulates bhOss (CReadV h vs n) s"
proof (cases "vs = []")
  case True
  then show ?thesis using assms by (simp add: simulates_def ReadV_def)
next
  case False
  have n: "\<not> sint n \<le> 0" "nat (sint n) = length vs" using assms(2) False by auto
  show ?thesis
  proof (cases "m_stub (v_handles s h)")
    case None
    then show ?thesis
      using put_handle_error [OF assms(1) None] n False by (simp add: simulates_def ReadV_def store_readv_def session_of_def)
  next
    case (Some r)
    let ?f = "v_handles s h" and ?x = "file_of (cell (v_fs s) r)"
    let ?tot = "of_nat (sum_list (map (seg_count ?x) vs)) :: i64"
    obtain ops where loop: "readv_loop ?f vs 0 0 = (Inr (?tot, ops), map (fill_seg ?x) vs)"
      using readv_loop_segments [OF handle_file(2,3) [OF assms(1) Some], of vs 0 0] assms(2) by auto
    let ?f1 = "?f\<lparr>m_readBytes := m_readBytes ?f + ?tot, m_readOps := m_readOps ?f + ops\<rparr>"
    have rv: "ReadV vs n ?f = (?tot, ?f1, map (fill_seg ?x) vs)"
      using n Some loop by (simp add: ReadV_def)
    have "same_open ?f ?f1" "out_bytes ?f1 = out_bytes ?f" "m_readBytes ?f1 = m_readBytes ?f + ?tot"
      by (simp_all add: same_open_def out_bytes_def)
    note put = put_handle_session [OF assms(1) this]
    show ?thesis
      using put Some False
      by (simp add: simulates_def rv store_readv_def session_of_stub handle_file(1) [OF assms(1) Some] Let_def)
  qed
qed

lemma simulates_prep:
  assumes "served_inv s"
  shows "simulates bhOss (CReadPrep h offset blen) s"
proof (cases "m_stub (v_handles s h)")
  case None
  then show ?thesis using put_handle_error [OF assms None] by (simp add: simulates_def Read_prep_def)
next
  case (Some r)
  then show ?thesis using assms by (simp add: simulates_def Read_prep_def)
qed

lemma simulates_stat:
  assumes "served_inv s"
  shows "simulates bhOss (CFstat h) s" "simulates bhOss (CStat p) s"
proof -
  have size: "st_size (m_stat (cell (v_fs s) r)) = m_size (cell (v_fs s) r)"
    if "getStub (v_fs s) q = Some r" for q r
  proof -
    have "r < next_ref (v_fs s)" using fs_inv_ref [OF served_inv_fs [OF assms] that] .
    then have "stub_ok (m_fd_last (v_fs s)) (cell (v_fs s) r)"
      using served_inv_fs [OF assms] unfolding fs_inv_def by blast
    then show ?thesis by (simp add: stub_ok_def)
  qed
  have fit: "m_stub (v_handles s h) = Some r \<Longrightarrow> getStub (v_fs s) (m_path (v_handles s h)) = Some r" for r
    using served_inv_fits [OF assms, of h] by (simp add: handle_fits_def)
  show "simulates bhOss (CFstat h) s"
    using fit assms by (cases "m_stub (v_handles s h)")
      (auto simp: simulates_def Fstat_def session_of_def files_of_def file_of_def size)
  show "simulates bhOss (CStat p) s"
    using assms by (cases "getStub (v_fs s) p")
      (auto simp: simulates_def Stat_def files_of_def file_of_def size)
qed

section \<open>Directories, and calls that change nothing\<close>

lemma served_inv_put_dir: "served_inv (put_dir d dir s) \<longleftrightarrow> served_inv s"
  by (simp add: served_inv_def)

lemma abs_served_put_dir:
  "abs_served (put_dir d dir s) = (abs_served s)\<lparr>a_dirs := (a_dirs (abs_served s))(d := names_left dir)\<rparr>"
  by (intro store_eqI) (auto simp: abs_served_def fun_eq_iff)

text \<open>The scan of the container and the sorted set of the paths in the directory.\<close>

lemma readdir_listing:
  assumes "fs_inv fs"
  shows "readdir fs p [] = listing p (files_of fs)"
proof -
  let ?ks = "filter (\<lambda>q. parent_of q = normalise p) (map fst (m_files fs))"
  have "om_wf (m_files fs)" using fs_inv_wf [OF assms] by (simp add: files_wf_def)
  then have "sorted_wrt (<) ?ks" by (simp add: om_wf_def sorted_wrt_filter)
  then have "sorted_list_of_set (set ?ks) = ?ks"
    by (simp only: strict_sorted_iff sorted_list_of_set.idem_if_sorted_distinct)
  moreover have "set ?ks = {q. files_of fs q \<noteq> None \<and> parent_of q = normalise p}"
    by (auto simp: files_of_def getStub_def om_find_def map_of_eq_None_iff image_iff
        simp del: om_find_files) force?
  ultimately show ?thesis by (simp add: readdir_def readdir_loop_eq listing_def)
qed

lemma simulates_opendir:
  assumes "served_inv s"
  shows "simulates bhOss (COpendir d p) s"
  using assms
  by (simp add: simulates_def Opendir_def Let_def served_inv_put_dir abs_served_put_dir names_left_def
      readdir_listing served_inv_fs)

lemma simulates_closedir: "served_inv s \<Longrightarrow> simulates bhOss (CClosedir d) s"
  by (simp add: simulates_def Close_dir_def served_inv_put_dir abs_served_put_dir names_left_def)

lemma simulates_readdir:
  assumes "served_inv s" "polite (CReaddir d buff blen) (abs_served s)"
  shows "simulates bhOss (CReaddir d buff blen) s"
proof -
  let ?d = "v_dirs s d"
  let ?d1 = "?d\<lparr>m_pos := Suc (m_pos ?d)\<rparr>"
  show ?thesis
  proof (cases "names_left ?d")
    case Nil
    then have "Readdir buff blen ?d = (0, ?d, buff[0 := NUL])"
      by (intro Readdir_end) (simp add: names_left_def)
    moreover have "cstr (buff[0 := NUL]) = ''''" using assms(2) by (cases buff) (auto simp: cstr_def)
    ultimately show ?thesis using Nil assms(1) by (simp add: simulates_def store_readdir_def)
  next
    case (Cons n ns)
    then have "m_pos ?d < length (m_entries ?d)" by (auto simp: names_left_def intro: ccontr)
    then have pos: "m_pos ?d < length (m_entries ?d)" "m_entries ?d ! m_pos ?d = n" "names_left ?d1 = ns"
      using Cons Cons_nth_drop_Suc [of "m_pos ?d" "m_entries ?d"] by (auto simp: names_left_def)
    have n: "NUL \<notin> set n" "int (length n) < 2 ^ 31" using assms(2) Cons by auto
    have "Readdir buff blen ?d = (if int (length n) < sint blen
        then (0, ?d1, (n @ [NUL]) @ drop (length n + 1) buff) else (- ENAMETOOLONG, ?d1, buff))"
      using pos by (simp add: Readdir_def Let_def int_length_word [OF n(2)])
    then show ?thesis
      using Cons assms(1) n(1)
      by (simp add: simulates_def store_readdir_def served_inv_put_dir abs_served_put_dir pos cstr_name)
  qed
qed

lemma simulates_idle:
  assumes "served_inv s"
  shows "simulates bhOss (CFsync h) s" "simulates bhOss (CFtruncate h len) s"
    "simulates bhOss (CMkdir p mode mkpath) s" "simulates bhOss (CRemdir p opts) s"
    "simulates bhOss (CChmod p mode) s" "simulates bhOss (CCreate tident p mode opts) s"
    "simulates bhOss (CTruncate p len) s"
  using assms by (simp_all add: simulates_def Fsync_def Ftruncate_def Mkdir_def Remdir_def Chmod_def
      Create_def Truncate_def)

end
