(* ===== verification/Server_Refinement.thy ===== *)
theory Server_Refinement
  imports Server_Calls
begin

text \<open>
  The server refines the store of \<^verbatim>\<open>File_Store\<close>: each call returns what the store
  returns, and leads to a state that stands for the store's next state. The proof goes
  call by call; the run is an instance of the locale \<open>simulation\<close>.
\<close>

section \<open>Renaming, removing and closing\<close>

lemma served_inv_globals:
  assumes "served_inv s" "fs_inv (g_blackholeFS g)" "cell (g_blackholeFS g) = cell (v_fs s)"
    and "\<And>h r. m_stub (v_handles s h) = Some r \<Longrightarrow>
      getStub (g_blackholeFS g) (m_path (v_handles s h)) = getStub (v_fs s) (m_path (v_handles s h))"
    and "\<And>p r. getStub (g_blackholeFS g) p = Some r \<Longrightarrow> \<exists>q. getStub (v_fs s) q = Some r"
  shows "served_inv (s\<lparr>v_globals := g\<rparr>)"
  using assms(1,2,4,5) unfolding served_inv_def handle_fits_def by (simp add: assms(3)) metis

lemma unused_abs:
  "unused p (abs_served s) \<longleftrightarrow> (\<forall>h r. m_stub (v_handles s h) = Some r \<longrightarrow> m_path (v_handles s h) \<noteq> p)"
  by (auto simp: unused_def session_of_def split: option.splits)

lemma simulates_rename:
  assumes "served_inv s" "unused p (abs_served s)" "unused q (abs_served s)"
  shows "simulates bhOss (CRename p q) s"
proof (cases "getStub (v_fs s) p")
  case None
  then show ?thesis using assms(1)
    by (simp add: simulates_def Rename_def rename_fs_enoent files_of_def)
next
  case (Some r)
  note inv = served_inv_fs [OF assms(1)]
  note ok = rename_fs_ok [OF fs_inv_wf [OF inv] Some, of q]
  let ?fs = "snd (rename_fs p q (v_fs s))"
  have get: "getStub ?fs = ((getStub (v_fs s))(p := None))(q \<mapsto> r)"
    unfolding ok(2) using Some by (auto simp: fun_eq_iff)
  have "served_inv (s\<lparr>v_globals := (v_globals s)\<lparr>g_blackholeFS := ?fs\<rparr>\<rparr>)"
    using assms(2,3) Some by (intro served_inv_globals [OF assms(1)])
      (auto simp: fs_inv_rename [OF inv] ok(4) get unused_abs split: if_splits)
  moreover have "files_of ?fs = ((files_of (v_fs s))(p := None))(q \<mapsto> file_of (cell (v_fs s) r))"
    by (auto simp: files_of_def get ok(4) fun_eq_iff)
  ultimately show ?thesis
    using ok(1) by (auto simp: simulates_def Rename_def case_prod_beta Let_def files_of_at [OF Some]
        intro!: store_eqI)
qed

lemma simulates_unlink:
  assumes "served_inv s" "unused p (abs_served s)"
  shows "simulates bhOss (CUnlink p) s"
proof (cases "getStub (v_fs s) p")
  case None
  then show ?thesis using assms(1)
    by (simp add: simulates_def Unlink_def unlink_enoent files_of_def)
next
  case (Some r)
  note inv = served_inv_fs [OF assms(1)]
  have "getStub (v_fs s) p \<noteq> None" using Some by simp
  note ok = unlink_ok [OF fs_inv_wf [OF inv] this]
  let ?fs = "snd (BlackholeFS.unlink p (v_fs s))"
  have "served_inv (s\<lparr>v_globals := (v_globals s)\<lparr>g_blackholeFS := ?fs\<rparr>\<rparr>)"
    using assms(2) by (intro served_inv_globals [OF assms(1)])
      (auto simp: fs_inv_unlink [OF inv] ok(2,4) unused_abs split: if_splits)
  moreover have "files_of ?fs = (files_of (v_fs s))(p := None)"
    by (auto simp: files_of_def ok(2,4) fun_eq_iff)
  ultimately show ?thesis
    using ok(1) by (auto simp: simulates_def Unlink_def case_prod_beta Let_def files_of_at [OF Some]
        intro!: store_eqI)
qed

text \<open>A handle loses its stub, and at most that stub is changed.\<close>

lemma served_inv_dropped:
  assumes "served_inv s" "m_stub f = None" "fs_inv (g_blackholeFS g)"
    and "getStub (g_blackholeFS g) = getStub (v_fs s)"
    and others: "\<And>k r. k \<noteq> h \<Longrightarrow> m_stub (v_handles s k) = Some r \<Longrightarrow>
      file_of (cell (g_blackholeFS g) r) = file_of (cell (v_fs s) r) \<and>
      st_ino (m_stat (cell (g_blackholeFS g) r)) = st_ino (m_stat (cell (v_fs s) r)) \<and>
      (m_isOpenWrite (cell (g_blackholeFS g) r) \<longleftrightarrow> m_isOpenWrite (cell (v_fs s) r))"
    and marks: "\<And>p r. getStub (v_fs s) p = Some r \<Longrightarrow> m_isOpenWrite (cell (g_blackholeFS g) r) \<Longrightarrow>
      \<exists>k. k \<noteq> h \<and> m_stub (v_handles s k) = Some r"
  shows "served_inv (put_handle h f g s)"
proof -
  let ?s = "put_handle h f g s"
  have old: "k \<noteq> h \<and> m_stub (v_handles s k) = Some r \<and> v_handles ?s k = v_handles s k"
    if "m_stub (v_handles ?s k) = Some r" for k r
    using that assms(2) by (auto split: if_splits)
  have fits: "handle_fits (g_blackholeFS g) (v_handles ?s k)" for k
  proof (cases "k = h")
    case True
    then show ?thesis using assms(2) by (simp add: handle_fits_def)
  next
    case False
    then show ?thesis
      using served_inv_fits [OF assms(1), of k] others [OF False] assms(4)
      by (auto simp: handle_fits_def file_of_def split: if_splits)
  qed
  have mk: "\<exists>k. m_stub (v_handles ?s k) = Some r"
    if "getStub (g_blackholeFS g) p = Some r" "m_isOpenWrite (cell (g_blackholeFS g) r)" for p r
    using marks that assms(4) by (metis fun_upd_other put_handle_simps(2))
  have wr: "m_isOpenWrite (cell (g_blackholeFS g) r) \<longleftrightarrow> was_write (m_stats (v_handles ?s k))"
    if "m_stub (v_handles ?s k) = Some r" for k r
  proof -
    have "m_isOpenWrite (cell (v_fs s) r) \<longleftrightarrow> was_write (m_stats (v_handles s k))"
      using assms(1) old [OF that] unfolding served_inv_def by blast
    then show ?thesis using others [of k r] old [OF that] by simp
  qed
  have alone: "\<not> m_isOpenWrite (cell (g_blackholeFS g) r)"
    if "k \<noteq> l" "m_stub (v_handles ?s k) = Some r" "m_stub (v_handles ?s l) = Some r" for k l r
  proof -
    have "\<not> m_isOpenWrite (cell (v_fs s) r)"
      using assms(1) old [OF that(2)] old [OF that(3)] that(1) unfolding served_inv_def by blast
    then show ?thesis using others [of k r] old [OF that(2)] by simp
  qed
  show ?thesis
    unfolding served_inv_def put_handle_simps(1)
    by (intro conjI allI impI; (rule assms(3) fits mk wr alone; assumption)?)
qed

lemma simulates_close:
  assumes "served_inv s"
  shows "simulates bhOss (CClose h t) s"
proof (cases "m_stub (v_handles s h)")
  case None
  show ?thesis using None assms by (simp add: simulates_def Close_def store_close_def session_of_def)
next
  case (Some r)
  let ?f = "v_handles s h" and ?fs = "v_fs s"
  let ?w = "m_isOpenWrite (cell ?fs r)"
  let ?u = "\<lambda>x. (if ?w then set_size (out_bytes ?f) x else x)\<lparr>m_isOpenWrite := False\<rparr>"
  let ?f1 = "?f\<lparr>m_end := t, m_stats := close_stats t ?f, m_stub := None\<rparr>"
  let ?g1 = "(v_globals s)\<lparr>g_blackholeFS := upd_stub r ?u ?fs,
    g_statsManager := recordTransfer (close_stats t ?f) (g_statsManager (v_globals s))\<rparr>"
  have at: "getStub ?fs (m_path ?f) = Some r"
    using served_inv_fits [OF assms, of h] Some by (simp add: handle_fits_def)
  have wr: "?w \<longleftrightarrow> was_write (m_stats ?f)"
    and alone: "\<And>k. k \<noteq> h \<Longrightarrow> m_stub (v_handles s k) = Some r \<Longrightarrow> \<not> ?w"
    using assms Some unfolding served_inv_def by blast+
  have cl: "Close t ?f (v_globals s) = (0, ?f1, ?g1)"
    unfolding Close_eq [OF Some] using at by (auto simp: close_fs_found upd_stub_def)
  have inv: "fs_inv (upd_stub r ?u ?fs)"
    by (rule fs_inv_upd [OF served_inv_fs [OF assms]]) (auto simp: set_size_def)
  have only: "getStub ?fs q = Some r \<longleftrightarrow> q = m_path ?f" for q
    using served_inv_fs [OF assms] at unfolding fs_inv_def by blast
  have files: "files_of (upd_stub r ?u ?fs) = (if was_write (m_stats ?f)
      then (files_of ?fs)(m_path ?f := map_option (\<lambda>x. x\<lparr>a_size := out_bytes ?f\<rparr>) (files_of ?fs (m_path ?f)))
      else files_of ?fs)"
  proof
    fix q
    show "files_of (upd_stub r ?u ?fs) q = (if was_write (m_stats ?f)
      then (files_of ?fs)(m_path ?f := map_option (\<lambda>x. x\<lparr>a_size := out_bytes ?f\<rparr>) (files_of ?fs (m_path ?f)))
      else files_of ?fs) q"
      using only [of q] at wr by (cases "getStub ?fs q") (auto simp: files_of_def file_of_def set_size_def)
  qed
  have "served_inv (put_handle h ?f1 ?g1 s)"
  proof (rule served_inv_dropped [OF assms])
    fix k q
    assume "k \<noteq> h" "m_stub (v_handles s k) = Some q"
    then show "file_of (cell (g_blackholeFS ?g1) q) = file_of (cell ?fs q) \<and>
        st_ino (m_stat (cell (g_blackholeFS ?g1) q)) = st_ino (m_stat (cell ?fs q)) \<and>
        (m_isOpenWrite (cell (g_blackholeFS ?g1) q) \<longleftrightarrow> m_isOpenWrite (cell ?fs q))"
      using alone by (auto simp: file_of_def)
  next
    fix p q
    assume q: "getStub ?fs p = Some q" "m_isOpenWrite (cell (g_blackholeFS ?g1) q)"
    then have "q \<noteq> r" "m_isOpenWrite (cell ?fs q)" by (auto split: if_splits)
    then show "\<exists>k. k \<noteq> h \<and> m_stub (v_handles s k) = Some q"
      using assms q(1) Some unfolding served_inv_def by (metis option.inject)
  qed (simp_all add: inv)
  moreover have "a_sessions (abs_served (put_handle h ?f1 ?g1 s)) = (a_sessions (abs_served s))(h := None)"
    by (auto simp: fun_eq_iff session_of_def)
  moreover have "bytes_written (close_stats t ?f) = out_bytes ?f" "bytes_read (close_stats t ?f) = m_readBytes ?f"
    by (simp_all add: close_stats_def)
  ultimately show ?thesis
    by (simp add: simulates_def cl store_close_def session_of_stub [OF Some] recordTransfer_fields files)
qed


section \<open>Opening\<close>

text \<open>The state after an open: the path leads to \<open>r\<close>, whose stub is now \<open>c\<close>.\<close>

lemma served_inv_opened:
  assumes "served_inv s" "m_stub (v_handles s h) = None" "fs_inv fs1"
    and "getStub fs1 = (getStub (v_fs s))(p \<mapsto> r)" "cell fs1 = (cell (v_fs s))(r := c)"
    and "m_isOpenWrite c \<longleftrightarrow> was_write (m_stats f)"
    and "m_stub f = Some r" "m_path f = p" "m_size_cached f = m_size c" "m_ino f = st_ino (m_stat c)"
    and "m_isRandom f \<longleftrightarrow> m_readtype c = ''random''"
    and shared: "\<And>k. m_stub (v_handles s k) = Some r \<Longrightarrow> \<not> was_write (m_stats f) \<and>
      \<not> m_isOpenWrite (cell (v_fs s) r) \<and> file_of c = file_of (cell (v_fs s) r) \<and>
      st_ino (m_stat c) = st_ino (m_stat (cell (v_fs s) r))"
    and elsewhere: "\<And>k q. m_stub (v_handles s k) = Some q \<Longrightarrow> q \<noteq> r \<Longrightarrow> m_path (v_handles s k) \<noteq> p"
  shows "served_inv (put_handle h f ((v_globals s)\<lparr>g_blackholeFS := fs1\<rparr>) s)"
proof -
  let ?s = "put_handle h f ((v_globals s)\<lparr>g_blackholeFS := fs1\<rparr>) s"
  have fits: "handle_fits (v_fs ?s) (v_handles ?s k)" for k
  proof (cases "k = h")
    case True
    then show ?thesis using assms(4,5,7-11) by (simp add: handle_fits_def)
  next
    case False
    have k: "handle_fits (v_fs s) (v_handles s k)" by (rule served_inv_fits [OF assms(1)])
    show ?thesis
    proof (cases "m_stub (v_handles s k) = Some r")
      case True
      then show ?thesis using k shared [OF True] False assms(4,5)
        by (auto simp: handle_fits_def file_of_def split: if_splits)
    next
      case other: False
      then show ?thesis using k elsewhere [of k] False assms(4,5) by (auto simp: handle_fits_def)
    qed
  qed
  have own: "\<not> m_isOpenWrite c" if "m_stub (v_handles s k) = Some r" for k
    using shared [OF that] assms(6) by simp
  have marks: "\<exists>k. m_stub (v_handles ?s k) = Some q'"
    if "getStub fs1 q = Some q'" "m_isOpenWrite (cell fs1 q')" for q q'
  proof (cases "q' = r")
    case True
    then show ?thesis using assms(7) by (intro exI [of _ h]) simp
  next
    case False
    then have "getStub (v_fs s) q = Some q'" "m_isOpenWrite (cell (v_fs s) q')"
      using that assms(4,5) by (auto split: if_splits)
    then obtain k where "m_stub (v_handles s k) = Some q'"
      using assms(1) unfolding served_inv_def by blast
    then show ?thesis using assms(2) by (intro exI [of _ k]) auto
  qed
  have wr: "m_isOpenWrite (cell fs1 q) \<longleftrightarrow> was_write (m_stats (v_handles ?s k))"
    if "m_stub (v_handles ?s k) = Some q" for k q
  proof (cases "k = h")
    case True
    then show ?thesis using that assms(5-7) by simp
  next
    case False
    then have k: "m_stub (v_handles s k) = Some q" using that by simp
    then have "m_isOpenWrite (cell (v_fs s) q) \<longleftrightarrow> was_write (m_stats (v_handles s k))"
      using assms(1) unfolding served_inv_def by blast
    then show ?thesis using False own [of k] shared [of k] k assms(5) by auto
  qed
  have alone: "\<not> m_isOpenWrite (cell fs1 q)"
    if "k \<noteq> l" "m_stub (v_handles ?s k) = Some q" "m_stub (v_handles ?s l) = Some q" for k l q
  proof (cases "k = h \<or> l = h")
    case True
    then show ?thesis using that own assms(5,7) by (auto split: if_splits)
  next
    case False
    then have kl: "m_stub (v_handles s k) = Some q" "m_stub (v_handles s l) = Some q" using that by auto
    then have "\<not> m_isOpenWrite (cell (v_fs s) q)"
      using assms(1) that(1) unfolding served_inv_def by blast
    then show ?thesis using own kl assms(5) by auto
  qed
  have fs1: "v_fs ?s = fs1" by simp
  show ?thesis
    unfolding served_inv_def fs1
    by (intro conjI allI impI; (rule assms(3) fits [unfolded fs1] marks wr alone; assumption)?)
qed

lemma unused_stub:
  assumes "served_inv s" "unused p (abs_served s)" "getStub (v_fs s) p = Some r"
  shows "m_stub (v_handles s k) \<noteq> Some r"
proof
  assume k: "m_stub (v_handles s k) = Some r"
  then have "getStub (v_fs s) (m_path (v_handles s k)) = Some r"
    using served_inv_fits [OF assms(1), of k] by (simp add: handle_fits_def)
  then have "m_path (v_handles s k) = p"
    using served_inv_fs [OF assms(1)] assms(3) unfolding fs_inv_def by blast
  then show False using assms(2) k by (auto simp: unused_abs)
qed

lemma unwritten_stub:
  assumes "served_inv s" "unwritten p (abs_served s)" "getStub (v_fs s) p = Some r"
  shows "\<not> m_isOpenWrite (cell (v_fs s) r)"
proof
  assume m: "m_isOpenWrite (cell (v_fs s) r)"
  then obtain k where k: "m_stub (v_handles s k) = Some r"
    using assms(1,3) unfolding served_inv_def by blast
  then have "getStub (v_fs s) (m_path (v_handles s k)) = Some r"
    using served_inv_fits [OF assms(1), of k] by (simp add: handle_fits_def)
  then have "m_path (v_handles s k) = p"
    using served_inv_fs [OF assms(1)] assms(3) unfolding fs_inv_def by blast
  moreover have "was_write (m_stats (v_handles s k))"
    using assms(1) k m unfolding served_inv_def by blast
  ultimately show False
    using assms(2) session_of_stub [OF k] by (fastforce simp: unwritten_def)
qed

text \<open>What an accepted open does to the namespace, seen from the file it opens.\<close>

lemma open_fs_accepted:
  assumes "fs_inv fs" "0 \<le> fst (open_fs p flags mode fs)" "uint (m_fd_last fs) + 1 < 2 ^ 31"
  obtains r c fs1 where "open_fs p flags mode fs = (uint (m_fd_last fs) + 1, fs1)" "fs_inv fs1"
    "getStub fs1 = (getStub fs)(p \<mapsto> r)" "cell fs1 = (cell fs)(r := c)"
    "m_fd_last fs1 = m_fd_last fs + 1"
    "getStub fs p = None \<or> (\<not> read_only flags \<and> flags AND O_TRUNC \<noteq> 0) \<Longrightarrow>
      r = next_ref fs \<and> m_isOpenWrite c \<and> \<not> read_only flags \<and> file_of c = empty_afile"
    "\<not> (getStub fs p = None \<or> (\<not> read_only flags \<and> flags AND O_TRUNC \<noteq> 0)) \<Longrightarrow>
      getStub fs p = Some r \<and> file_of c = file_of (cell fs r) \<and>
      st_ino (m_stat c) = st_ino (m_stat (cell fs r)) \<and>
      (m_isOpenWrite c \<longleftrightarrow> \<not> read_only flags \<or> m_isOpenWrite (cell fs r))"
proof -
  have rc: "to_int (m_fd_last fs + 1) = uint (m_fd_last fs) + 1" by (rule next_fd(1) [OF assms(3)])
  have fd: "m_fd_last fs \<noteq> - 1"
    using assms(3) by (auto simp: unsigned_minus_1_eq_mask mask_eq_exp_minus_1)
  have wf: "om_wf (m_files fs)" using fs_inv_wf [OF assms(1)] by (simp add: files_wf_def)
  define fs1 where "fs1 = snd (open_fs p flags mode fs)"
  have inv: "fs_inv fs1" unfolding fs1_def by (rule fs_inv_open [OF assms(1) fd])
  show ?thesis
  proof (cases rule: open_fs_cases [of flags fs p])
    case (read r)
    show ?thesis
      by (rule that [of fs1 r "(cell fs r)\<lparr>m_flags := flags, m_mode := mode\<rparr>"])
        (use read inv in \<open>auto simp: fs1_def open_fs_read rc file_of_def\<close>)
  next
    case (reuse r)
    show ?thesis
      by (rule that [of fs1 r "(cell fs r)\<lparr>m_isOpenWrite := True, m_flags := flags, m_mode := mode\<rparr>"])
        (use reuse inv in \<open>auto simp: fs1_def open_fs_reuse rc file_of_def\<close>)
  next
    case (trunc r)
    have "open_fs p flags mode fs = open_create p flags mode (fs\<lparr>m_files := om_erase p (m_files fs)\<rparr>)"
      using trunc by (intro open_fs_trunc) auto
    note op = this [unfolded open_create_eq]
    show ?thesis
      by (rule that [of fs1 "next_ref fs" "cell fs1 (next_ref fs)"])
        (use trunc inv wf in \<open>auto simp: fs1_def op rc file_of_def empty_afile_def
          om.find_ins om.find_del om.wf_del fun_eq_iff\<close>)
  next
    case new
    note op = open_fs_new [OF new, unfolded open_create_eq]
    show ?thesis
      by (rule that [of fs1 "next_ref fs" "cell fs1 (next_ref fs)"])
        (use new inv wf in \<open>auto simp: fs1_def op rc file_of_def empty_afile_def om.find_ins fun_eq_iff\<close>)
  next
    case enoent
    then show ?thesis using assms(2) by (simp add: open_fs_enoent)
  next
    case eexist
    then show ?thesis using assms(2) by (simp add: open_fs_eexist)
  qed
qed


lemma served_inv_closed:
  assumes "served_inv s" "m_stub (v_handles s h) = None" "m_stub f = None"
  shows "served_inv (put_handle h f (v_globals s) s)"
    and "abs_served (put_handle h f (v_globals s) s) = abs_served s"
proof -
  show "served_inv (put_handle h f (v_globals s) s)"
  proof (rule served_inv_dropped [OF assms(1,3) served_inv_fs [OF assms(1)]])
    fix p r
    assume "getStub (v_fs s) p = Some r" "m_isOpenWrite (cell (v_fs s) r)"
    then show "\<exists>k. k \<noteq> h \<and> m_stub (v_handles s k) = Some r"
      using assms(1,2) unfolding served_inv_def by (metis option.distinct(1))
  qed simp_all
  show "abs_served (put_handle h f (v_globals s) s) = abs_served s"
    using assms(2,3) by (intro store_eqI) (auto simp: fun_eq_iff session_of_def)
qed

lemma files_of_opened:
  assumes "fs_inv fs" "getStub fs1 = (getStub fs)(p \<mapsto> r)" "cell fs1 = (cell fs)(r := c)"
    and "r = next_ref fs \<or> getStub fs p = Some r"
  shows "files_of fs1 = (files_of fs)(p \<mapsto> file_of c)"
proof
  fix q
  have "getStub fs q \<noteq> Some r" if "q \<noteq> p"
    using assms(1,4) that fs_inv_ref [OF assms(1), of q r] unfolding fs_inv_def by blast
  then show "files_of fs1 q = ((files_of fs)(p \<mapsto> file_of c)) q"
    by (cases "getStub fs q") (auto simp: files_of_def assms(2,3))
qed

lemma simulates_open:
  assumes inv: "served_inv s" and pol: "polite (COpen h p flags mode t0 now) (abs_served s)"
    and room: "uint (m_fd_last (v_fs s)) + 1 < 2 ^ 31"
  shows "simulates bhOss (COpen h p flags mode t0 now) s"
    and "uint (m_fd_last (v_fs (snd (serve_call bhOss (COpen h p flags mode t0 now) s))))
      \<le> uint (m_fd_last (v_fs s)) + 1"
proof -
  let ?fs = "v_fs s" and ?f = "v_handles s h"
  have h: "m_stub ?f = None" using pol by simp
  have excl: "read_only flags \<Longrightarrow> unwritten p (abs_served s)" "\<not> read_only flags \<Longrightarrow> unused p (abs_served s)"
    using pol by (simp_all split: if_splits)
  have "simulates bhOss (COpen h p flags mode t0 now) s \<and>
    uint (m_fd_last (v_fs (snd (serve_call bhOss (COpen h p flags mode t0 now) s)))) \<le> uint (m_fd_last ?fs) + 1"
  proof (cases "0 \<le> fst (open_fs p flags mode ?fs)")
    case False
    then obtain rc where rc: "open_fs p flags mode ?fs = (rc, ?fs)" "rc < 0"
      "getStub ?fs p = None \<and> read_only flags \<and> rc = - ENOENT \<or>
       getStub ?fs p \<noteq> None \<and> \<not> read_only flags \<and> flags AND O_EXCL \<noteq> 0 \<and> rc = - EEXIST"
      using room next_fd(1) [OF room] uint_nonnegative [of "m_fd_last ?fs"]
      by (cases rule: open_fs_cases [of flags ?fs p]) (auto simp: open_fs_simps open_create_eq)
    then have "Open bhOss p flags mode t0 now ?f (v_globals s) = (rc, ?f\<lparr>m_path := p\<rparr>, v_globals s)"
      by (simp add: Open_def Open_begin_def)
    then show ?thesis
      using served_inv_closed [OF inv h, of "?f\<lparr>m_path := p\<rparr>"] h rc(3)
      by (auto simp: simulates_def store_open_def files_of_def)
  next
    case True
    obtain r c fs1 where o: "open_fs p flags mode ?fs = (uint (m_fd_last ?fs) + 1, fs1)" "fs_inv fs1"
      "getStub fs1 = (getStub ?fs)(p \<mapsto> r)" "cell fs1 = (cell ?fs)(r := c)"
      "m_fd_last fs1 = m_fd_last ?fs + 1"
      and fresh: "getStub ?fs p = None \<or> (\<not> read_only flags \<and> flags AND O_TRUNC \<noteq> 0) \<Longrightarrow>
        r = next_ref ?fs \<and> m_isOpenWrite c \<and> \<not> read_only flags \<and> file_of c = empty_afile"
      and reuse: "\<not> (getStub ?fs p = None \<or> (\<not> read_only flags \<and> flags AND O_TRUNC \<noteq> 0)) \<Longrightarrow>
        getStub ?fs p = Some r \<and> file_of c = file_of (cell ?fs r) \<and>
        st_ino (m_stat c) = st_ino (m_stat (cell ?fs r)) \<and>
        (m_isOpenWrite c \<longleftrightarrow> \<not> read_only flags \<or> m_isOpenWrite (cell ?fs r))"
      using open_fs_accepted [OF served_inv_fs [OF inv] True room] by metis
    let ?fresh = "getStub ?fs p = None \<or> (\<not> read_only flags \<and> flags AND O_TRUNC \<noteq> 0)"
    let ?g1 = "(v_globals s)\<lparr>g_blackholeFS := fs1\<rparr>"
    define f1 where "f1 = Open_finish bhOss p flags t0 now (?f\<lparr>m_path := p\<rparr>) ?g1"
    have op: "Open bhOss p flags mode t0 now ?f (v_globals s) = (0, f1, ?g1)"
      unfolding f1_def using Open_ok [OF o(1)] o(3) uint_nonnegative [of "m_fd_last ?fs"] by simp
    have "getStub (g_blackholeFS ?g1) (m_path (?f\<lparr>m_path := p\<rparr>)) = Some r" using o(3) by simp
    note f1 = Open_finish_fields [OF this f1_def refl]
    have c: "cell (g_blackholeFS ?g1) r = c" using o(4) by simp
    have w: "was_write (m_stats f1) \<longleftrightarrow> \<not> read_only flags" using f1(14) by simp
    have listed: "m_stub (v_handles s k) = Some q \<Longrightarrow> getStub ?fs (m_path (v_handles s k)) = Some q" for k q
      using served_inv_fits [OF inv, of k] by (simp add: handle_fits_def)
    have mark: "m_isOpenWrite c \<longleftrightarrow> was_write (m_stats f1)"
      using fresh reuse w unwritten_stub [OF inv excl(1)] by (cases ?fresh) auto
    have sinv: "served_inv (put_handle h f1 ?g1 s)"
    proof (rule served_inv_opened [OF inv h o(2-4) mark])
      fix k
      assume k: "m_stub (v_handles s k) = Some r"
      have "r < next_ref ?fs" by (rule fs_inv_ref [OF served_inv_fs [OF inv] listed [OF k]])
      then have "\<not> ?fresh" using fresh less_irrefl by metis
      moreover from this have "read_only flags" using reuse unused_stub [OF inv excl(2)] k by blast
      ultimately show "\<not> was_write (m_stats f1) \<and> \<not> m_isOpenWrite (cell ?fs r) \<and>
          file_of c = file_of (cell ?fs r) \<and> st_ino (m_stat c) = st_ino (m_stat (cell ?fs r))"
        using reuse w unwritten_stub [OF inv excl(1)] by auto
    next
      fix k q
      assume k: "m_stub (v_handles s k) = Some q" "q \<noteq> r"
      show "m_path (v_handles s k) \<noteq> p"
      proof
        assume p: "m_path (v_handles s k) = p"
        then have "getStub ?fs p = Some q" using listed [OF k(1)] by simp
        then have "\<not> read_only flags" using reuse k(2) by auto
        then show False using excl(2) k(1) p by (auto simp: unused_abs)
      qed
    qed (use f1 c in simp_all)
    have files: "files_of fs1 = (if ?fresh then (files_of ?fs)(p \<mapsto> empty_afile) else files_of ?fs)"
      using files_of_opened [OF served_inv_fs [OF inv] o(3,4)] fresh reuse
      by (cases ?fresh) (auto simp: fun_eq_iff files_of_at)
    moreover have ok: "getStub ?fs p = None \<Longrightarrow> \<not> read_only flags"
      "getStub ?fs p \<noteq> None \<Longrightarrow> \<not> read_only flags \<Longrightarrow> flags AND O_EXCL = 0"
      using True open_fs_enoent [of flags ?fs p mode] open_fs_eexist [of flags ?fs p mode]
      by (auto, cases "flags AND O_EXCL = 0") simp_all
    ultimately have st: "store_open h p flags (abs_served s) = (Rc 0, (abs_served s)
        \<lparr>a_files := files_of fs1, a_sessions := (a_sessions (abs_served s))(h \<mapsto>
           \<lparr>s_path = p, s_write = (\<not> read_only flags), s_out = 0, s_in = 0\<rparr>)\<rparr>)"
      by (cases "getStub ?fs p") (auto simp: store_open_def Let_def files_of_at, auto simp: files_of_def)
    have "a_sessions (abs_served (put_handle h f1 ?g1 s)) = (a_sessions (abs_served s))(h \<mapsto>
        \<lparr>s_path = p, s_write = (\<not> read_only flags), s_out = 0, s_in = 0\<rparr>)"
      using f1(2,8,9) w by (auto simp: fun_eq_iff session_of_stub [OF f1(1)])
    then have "simulates bhOss (COpen h p flags mode t0 now) s"
      using sinv by (simp add: simulates_def op st)
    moreover have "uint (m_fd_last fs1) = uint (m_fd_last ?fs) + 1" using next_fd(2) [OF room] o(5) by simp
    ultimately show ?thesis by (simp add: op)
  qed
  then show "simulates bhOss (COpen h p flags mode t0 now) s"
    "uint (m_fd_last (v_fs (snd (serve_call bhOss (COpen h p flags mode t0 now) s))))
      \<le> uint (m_fd_last (v_fs s)) + 1" by blast+
qed


section \<open>Runs\<close>

definition serve_from :: "globals \<Rightarrow> served" where
  "serve_from g = \<lparr>v_globals = g, v_handles = (\<lambda>_. newFile ''client''),
     v_dirs = (\<lambda>_. newDir ''client'')\<rparr>"

lemma fd_served:
  assumes "\<And>h p flags mode t0 now. c \<noteq> COpen h p flags mode t0 now"
  shows "m_fd_last (v_fs (snd (serve_call bhOss c s))) = m_fd_last (v_fs s)"
proof -
  have close: "m_fd_last (g_blackholeFS (snd (snd (Close t f g)))) = m_fd_last (g_blackholeFS g)" for t f g
    by (cases "m_stub f") (simp_all add: Close_def [of t f] Close_begin_def Close_finish_def Let_def close_fs_def
        split: option.split)
  show ?thesis
  proof (cases c)
    case (COpen h p flags mode t0 now)
    then show ?thesis using assms by blast
  qed (simp_all add: close case_prod_beta Let_def Rename_def Unlink_def rename_fs_def unlink_def
      split: option.split)
qed

lemma simulates_call:
  assumes "served_inv s" "polite c (abs_served s)" "uint (m_fd_last (v_fs s)) + 1 < 2 ^ 31"
  shows "simulates bhOss c s"
    and "uint (m_fd_last (v_fs (snd (serve_call bhOss c s)))) \<le> uint (m_fd_last (v_fs s)) + 1"
proof -
  show "simulates bhOss c s"
  proof (cases c)
    case (COpen h p flags mode t0 now)
    then show ?thesis using assms simulates_open(1) by blast
  qed (use assms in \<open>simp_all add: simulates_write simulates_read simulates_readv simulates_prep
      simulates_stat simulates_close simulates_rename simulates_unlink simulates_opendir
      simulates_readdir simulates_closedir simulates_idle\<close>)
  show "uint (m_fd_last (v_fs (snd (serve_call bhOss c s)))) \<le> uint (m_fd_last (v_fs s)) + 1"
  proof (cases "\<exists>h p flags mode t0 now. c = COpen h p flags mode t0 now")
    case True
    then show ?thesis using simulates_open(2) assms by blast
  next
    case False
    then show ?thesis using fd_served [of c bhOss s] by simp
  qed
qed

interpretation server: simulation "serve_call bhOss" store_exec abs_served polite served_inv
    "\<lambda>s. uint (m_fd_last (v_fs s))" 1 "2 ^ 31 - 1" for bhOss
proof
  fix s c
  assume s: "served_inv s" "polite c (abs_served s)" "uint (m_fd_last (v_fs s)) + 1 \<le> 2 ^ 31 - 1"
  then have "uint (m_fd_last (v_fs s)) + 1 < 2 ^ 31" by simp
  note sim = simulates_call [OF s(1,2) this, of bhOss]
  show "store_exec c (abs_served s) =
      (fst (serve_call bhOss c s), abs_served (snd (serve_call bhOss c s)))"
    using sim(1) by (auto simp: simulates_def case_prod_beta Let_def)
  show "served_inv (snd (serve_call bhOss c s)) \<and>
      uint (m_fd_last (v_fs (snd (serve_call bhOss c s)))) \<le> uint (m_fd_last (v_fs s)) + 1"
    using sim by (auto simp: simulates_def case_prod_beta Let_def)
qed simp

lemma served_inv_start:
  assumes "fs_inv (g_blackholeFS g)" "\<And>p r. getStub (g_blackholeFS g) p = Some r \<Longrightarrow>
    \<not> m_isOpenWrite (cell (g_blackholeFS g) r)"
  shows "served_inv (serve_from g)"
  using assms by (auto simp: served_inv_def serve_from_def handle_fits_def newFile_def new_file_def)

text \<open>The server before its first call, with nothing configured.\<close>

lemma getStub_empty_fs: "getStub empty_fs = (\<lambda>_. None)"
  by (rule ext) (simp only: getStub_def empty_fs_def om_find_def bhfs.simps map_of.simps)

lemma abs_served_empty:
  "abs_served (serve_from \<lparr>g_blackholeFS = empty_fs, g_statsManager = empty_manager\<rparr>) =
     \<lparr>a_files = (\<lambda>_. None), a_sessions = (\<lambda>_. None), a_dirs = (\<lambda>_. []), a_out = 0, a_in = 0\<rparr>"
  by (simp add: abs_served_def files_of_def serve_from_def session_of_def newFile_def new_file_def
      empty_manager_def getStub_empty_fs fun_eq_iff newDir_def new_dir_def names_left_def)

text \<open>
  C1: Over any sequence of calls on any number of file and directory handles (opens, all
  reads and writes, stats, renames, removals, closes, directory reads and the calls that
  answer with a constant), in which a file is not written while it is open elsewhere and
  an open file is not renamed or removed, the plugin returns the results, the sizes, the
  bytes and the names of a store of files that have just a size and a pattern, and its
  namespace, handles and byte totals are those of the store, as long as no descriptor
  reaches 2^31.
\<close>

theorem server_refines_store:
  assumes "fs_inv (g_blackholeFS g)"
    and "\<forall>p r. getStub (g_blackholeFS g) p = Some r \<longrightarrow> \<not> m_isOpenWrite (cell (g_blackholeFS g) r)"
    and "uint (m_fd_last (g_blackholeFS g)) + int (length cs) < 2 ^ 31"
    and "run_allowed polite store_exec cs (abs_served (serve_from g))"
  shows "run_with store_exec cs (abs_served (serve_from g)) =
    (let (answers, s) = run_with (serve_call bhOss) cs (serve_from g) in (answers, abs_served s))"
  using server.run_refines [OF served_inv_start assms(4), of bhOss] assms(1-3)
  by (simp add: case_prod_beta serve_from_def)


theorem server_refines_store_witness:
  "fst (run_with (serve_call new_oss)
      [COpen 0 ''/a'' 65 420 0 0, CWrite 0 0 5, CClose 0 9, CStat ''/a'', COpen 1 ''/a'' 0 0 0 0,
       CRead 1 [7, 7, 7] 3 3, CReadV 1 [\<lparr>iov_offset = 4, iov_size = 2, iov_data = [8, 8]\<rparr>] 1,
       CMkdir ''/d'' 0 0, COpendir 0 ''/'', CReaddir 0 ''??'' 2, CReaddir 0 ''??'' 2]
      (serve_from \<lparr>g_blackholeFS = empty_fs, g_statsManager = empty_manager\<rparr>)) =
    [Rc 0, Moved 5, Rc 0, Size 5, Rc 0, Data 2 [0, 0, 7],
     Segments 1 [\<lparr>iov_offset = 4, iov_size = 2, iov_data = [0, 8]\<rparr>], Rc 0, Rc 0, Name 0 ''a'', Name 0 '''']"
proof -
  let ?g = "\<lparr>g_blackholeFS = empty_fs, g_statsManager = empty_manager\<rparr>"
  let ?cs = "[COpen 0 ''/a'' 65 420 0 0, CWrite 0 0 5, CClose 0 9, CStat ''/a'', COpen 1 ''/a'' 0 0 0 0,
    CRead 1 [7, 7, 7] 3 3, CReadV 1 [\<lparr>iov_offset = 4, iov_size = 2, iov_data = [8, 8]\<rparr>] 1,
    CMkdir ''/d'' 0 0, COpendir 0 ''/'', CReaddir 0 ''??'' 2, CReaddir 0 ''??'' 2]"
  note abs = abs_served_empty and none = getStub_empty_fs
  note run = store_open_def store_close_def in_session_def empty_afile_def a_count_def a_bytes_def
    unused_def unwritten_def replicate_2 store_read_def store_readv_def store_readdir_def
    seg_count_def fill_seg_def listing_def normalise_def parent_of_def leaf_of_def
  have pol: "run_allowed polite store_exec ?cs (abs_served (serve_from ?g))" unfolding abs by (simp add: run)
  have free: "\<forall>p r. getStub (g_blackholeFS ?g) p = Some r \<longrightarrow> \<not> m_isOpenWrite (cell (g_blackholeFS ?g) r)"
    by (simp add: none)
  have inv: "fs_inv (g_blackholeFS ?g)" by (simp add: fs_inv_empty)
  have "uint (m_fd_last (g_blackholeFS ?g)) + int (length ?cs) < 2 ^ 31" by (simp add: empty_fs_def)
  from server_refines_store [OF inv free this pol, of new_oss]
  have "fst (run_with (serve_call new_oss) ?cs (serve_from ?g)) =
      fst (run_with store_exec ?cs (abs_served (serve_from ?g)))" by (simp only: case_prod_beta Let_def fst_conv)
  also have "\<dots> = [Rc 0, Moved 5, Rc 0, Size 5, Rc 0, Data 2 [0, 0, 7],
     Segments 1 [\<lparr>iov_offset = 4, iov_size = 2, iov_data = [0, 8]\<rparr>], Rc 0, Rc 0, Name 0 ''a'', Name 0 '''']"
    unfolding abs by (simp add: run)
  finally show ?thesis .
qed

end
