(* ===== verification/Split_Calls.thy ===== *)
theory Split_Calls
  imports Server_Refinement
begin

text \<open>
  The server with its calls cut where they hold no lock: the two halves of an
  \<^verbatim>\<open>Open\<close> and of a \<^verbatim>\<open>Close\<close> are events of their own, between which any other client may
  make calls; the store of \<^verbatim>\<open>File_Store\<close> with the same events, which has each call take
  effect at its first half; and the abstraction between them.
\<close>

section \<open>The server, one half of a call at a time\<close>

text \<open>The readings of the clock that the second half of an open makes go with its first.\<close>

datatype event =
    Whole call
  | OpenFirst nat path i32 i32 int int
  | OpenSecond nat
  | CloseFirst nat int
  | CloseSecond nat

datatype progress = Resting | InOpen path i32 int int | InClose

record split =
  sp_served :: served
  sp_at :: "nat \<Rightarrow> progress"

definition put_progress :: "nat \<Rightarrow> progress \<Rightarrow> oss_file \<Rightarrow> globals \<Rightarrow> split \<Rightarrow> split" where
  "put_progress h ph f g s =
     s\<lparr>sp_served := put_handle h f g (sp_served s), sp_at := (sp_at s)(h := ph)\<rparr>"

text \<open>An event answers when its call returns, which the first half of a call may do.\<close>

fun split_exec :: "oss \<Rightarrow> event \<Rightarrow> split \<Rightarrow> answer option \<times> split" where
  "split_exec bhOss (Whole c) s =
     (let (ans, v) = serve_call bhOss c (sp_served s) in (Some ans, s\<lparr>sp_served := v\<rparr>))"
| "split_exec bhOss (OpenFirst h p flags mode t0 now) s =
     (let v = sp_served s; (rc, f, g) = Open_begin p flags mode (v_handles v h) (v_globals v)
      in if rc < 0 then (Some (Rc rc), put_progress h Resting f g s)
         else (None, put_progress h (InOpen p flags t0 now) f g s))"
| "split_exec bhOss (OpenSecond h) s =
     (case sp_at s h of
        InOpen p flags t0 now \<Rightarrow>
          let v = sp_served s; g = v_globals v
          in (Some (Rc XrdOssOK),
              put_progress h Resting (Open_finish bhOss p flags t0 now (v_handles v h) g) g s)
      | _ \<Rightarrow> (None, s))"
| "split_exec bhOss (CloseFirst h t) s =
     (let v = sp_served s
      in case m_stub (v_handles v h) of
           None \<Rightarrow> (Some (Rc (- ENOENT)), s)
         | Some r \<Rightarrow>
             let (f, g) = Close_begin t r (v_handles v h) (v_globals v)
             in (None, put_progress h InClose f g s))"
| "split_exec bhOss (CloseSecond h) s =
     (if sp_at s h = InClose then
        let v = sp_served s; (f, g) = Close_finish (v_handles v h) (v_globals v)
        in (Some (Rc XrdOssOK), put_progress h Resting f g s)
      else (None, s))"

text \<open>Nothing but the cut is new: the halves one after the other are the call.\<close>

lemma halves_of_open:
  assumes "sp_at s h = Resting"
    and "split_exec bhOss (OpenFirst h p flags mode t0 now) s = (None, s1)"
  shows "let (ans, s2) = split_exec bhOss (OpenSecond h) s1; (ans', v) = serve_call bhOss (COpen h p flags mode t0 now) (sp_served s)
    in ans = Some ans' \<and> s2 = s\<lparr>sp_served := v\<rparr>"
  using assms
  by (auto simp: Open_def put_progress_def put_handle_def case_prod_beta Let_def fun_upd_idem split: if_splits)

lemma halves_of_close:
  assumes "sp_at s h = Resting" and "split_exec bhOss (CloseFirst h t) s = (None, s1)"
  shows "let (ans, s2) = split_exec bhOss (CloseSecond h) s1; (ans', v) = serve_call bhOss (CClose h t) (sp_served s)
    in ans = Some ans' \<and> s2 = s\<lparr>sp_served := v\<rparr>"
  using assms
  by (auto simp: Close_def put_progress_def put_handle_def case_prod_beta Let_def fun_upd_idem
      split: option.splits)

definition rested :: "served \<Rightarrow> split" where
  "rested v = \<lparr>sp_served = v, sp_at = (\<lambda>_. Resting)\<rparr>"

section \<open>The store, with the calls that are under way\<close>

datatype stage = At_rest | In_open | In_close path bool

fun split_spec :: "event \<Rightarrow> store \<times> (nat \<Rightarrow> stage) \<Rightarrow> answer option \<times> store \<times> (nat \<Rightarrow> stage)" where
  "split_spec (Whole c) (a, st) = (let (ans, a1) = store_exec c a in (Some ans, a1, st))"
| "split_spec (OpenFirst h p flags mode t0 now) (a, st) =
     (let (ans, a1) = store_exec (COpen h p flags mode t0 now) a
      in if ans = Rc 0 then (None, a1, st(h := In_open)) else (Some ans, a1, st))"
| "split_spec (OpenSecond h) (a, st) = (Some (Rc 0), a, st(h := At_rest))"
| "split_spec (CloseFirst h t) (a, st) =
     (let (ans, a1) = store_exec (CClose h t) a
      in case a_sessions a h of
           None \<Rightarrow> (Some ans, a1, st)
         | Some s \<Rightarrow> (None, a1, st(h := In_close (s_path s) (s_write s))))"
| "split_spec (CloseSecond h) (a, st) = (Some (Rc 0), a, st(h := At_rest))"

text \<open>The handle a call is made on.\<close>

fun handle_of :: "call \<Rightarrow> nat option" where
  "handle_of (COpen h p flags mode t0 now) = Some h"
| "handle_of (CWrite h offset blen) = Some h"
| "handle_of (CWriteAio h aiop) = Some h"
| "handle_of (CRead h buff offset blen) = Some h"
| "handle_of (CReadRaw h buff offset blen) = Some h"
| "handle_of (CReadAio h aiop) = Some h"
| "handle_of (CReadV h vs n) = Some h"
| "handle_of (CReadPrep h offset blen) = Some h"
| "handle_of (CFstat h) = Some h"
| "handle_of (CFsync h) = Some h"
| "handle_of (CFtruncate h len) = Some h"
| "handle_of (CClose h t) = Some h"
| "handle_of _ = None"

text \<open>
  What the clients keep to: the rules of \<open>polite\<close>, and a file counts as open until its
  close has returned. A handle is used by one call at a time, and its opens and closes
  come as halves.
\<close>

definition closing :: "path \<Rightarrow> (nat \<Rightarrow> stage) \<Rightarrow> bool" where
  "closing p st \<longleftrightarrow> (\<exists>h w. st h = In_close p w)"

definition closing_writer :: "path \<Rightarrow> (nat \<Rightarrow> stage) \<Rightarrow> bool" where
  "closing_writer p st \<longleftrightarrow> (\<exists>h. st h = In_close p True)"

fun undisturbed :: "call \<Rightarrow> (nat \<Rightarrow> stage) \<Rightarrow> bool" where
  "undisturbed (COpen h p flags mode t0 now) st \<longleftrightarrow>
     (if flags AND O_ACCMODE = O_RDONLY then \<not> closing_writer p st else \<not> closing p st)"
| "undisturbed (CRename p q) st \<longleftrightarrow> \<not> closing p st \<and> \<not> closing q st"
| "undisturbed (CUnlink p) st \<longleftrightarrow> \<not> closing p st"
| "undisturbed _ st \<longleftrightarrow> True"

definition ready :: "call \<Rightarrow> store \<times> (nat \<Rightarrow> stage) \<Rightarrow> bool" where
  "ready c x \<longleftrightarrow> polite c (fst x) \<and> undisturbed c (snd x) \<and>
     (\<forall>h. handle_of c = Some h \<longrightarrow> snd x h = At_rest)"

fun courteous :: "event \<Rightarrow> store \<times> (nat \<Rightarrow> stage) \<Rightarrow> bool" where
  "courteous (Whole c) x \<longleftrightarrow> ready c x \<and>
     (case c of COpen h p flags mode t0 now \<Rightarrow> False | CClose h t \<Rightarrow> False | _ \<Rightarrow> True)"
| "courteous (OpenFirst h p flags mode t0 now) x \<longleftrightarrow> ready (COpen h p flags mode t0 now) x"
| "courteous (OpenSecond h) x \<longleftrightarrow> snd x h = In_open"
| "courteous (CloseFirst h t) x \<longleftrightarrow> ready (CClose h t) x"
| "courteous (CloseSecond h) x \<longleftrightarrow> (\<exists>p w. snd x h = In_close p w)"

section \<open>The abstraction\<close>

text \<open>The state once every call under way has done its second half.\<close>

definition marks_off :: "nat set \<Rightarrow> bhfs \<Rightarrow> bhfs" where
  "marks_off R fs = fs\<lparr>cell := (\<lambda>r. (cell fs r)
     \<lparr>m_isOpenWrite := r \<notin> R \<and> m_isOpenWrite (cell fs r)\<rparr>)\<rparr>"

definition closing_stubs :: "split \<Rightarrow> nat set" where
  "closing_stubs s = {r. \<exists>h. sp_at s h = InClose \<and> m_stub (v_handles (sp_served s) h) = Some r}"

definition finished :: "oss \<Rightarrow> split \<Rightarrow> nat \<Rightarrow> oss_file" where
  "finished bhOss s h =
     (let v = sp_served s; f = v_handles v h
      in case sp_at s h of
           Resting \<Rightarrow> f
         | InOpen p flags t0 now \<Rightarrow> Open_finish bhOss p flags t0 now f (v_globals v)
         | InClose \<Rightarrow> f\<lparr>m_stub := None\<rparr>)"

definition settled_globals :: "split \<Rightarrow> globals" where
  "settled_globals s = (v_globals (sp_served s))
     \<lparr>g_blackholeFS := marks_off (closing_stubs s) (v_fs (sp_served s))\<rparr>"

definition settled :: "oss \<Rightarrow> split \<Rightarrow> served" where
  "settled bhOss s =
     (sp_served s)\<lparr>v_globals := settled_globals s, v_handles := finished bhOss s\<rparr>"

definition stage_of :: "split \<Rightarrow> nat \<Rightarrow> stage" where
  "stage_of s h =
     (let f = v_handles (sp_served s) h
      in case sp_at s h of
           Resting \<Rightarrow> At_rest
         | InOpen p flags t0 now \<Rightarrow> In_open
         | InClose \<Rightarrow> In_close (m_path f) (was_write (m_stats f)))"

definition abs_split :: "oss \<Rightarrow> split \<Rightarrow> store \<times> (nat \<Rightarrow> stage)" where
  "abs_split bhOss s = (abs_served (settled bhOss s), stage_of s)"

text \<open>The stub a handle holds, is about to take, or is about to give up.\<close>

definition stub_at :: "split \<Rightarrow> nat \<Rightarrow> nat option" where
  "stub_at s h =
     (case sp_at s h of
        InOpen p flags t0 now \<Rightarrow> getStub (v_fs (sp_served s)) p
      | _ \<Rightarrow> m_stub (v_handles (sp_served s) h))"

definition handle_under_way :: "split \<Rightarrow> nat \<Rightarrow> bool" where
  "handle_under_way s h \<longleftrightarrow>
     (let v = sp_served s; f = v_handles v h
      in case sp_at s h of
           Resting \<Rightarrow> True
         | InOpen p flags t0 now \<Rightarrow> m_path f = p \<and> getStub (v_fs v) p \<noteq> None
         | InClose \<Rightarrow>
             (\<exists>r. m_stub f = Some r \<and> getStub (v_fs v) (m_path f) = Some r \<and>
                (m_isOpenWrite (cell (v_fs v) r) \<longleftrightarrow> was_write (m_stats f)) \<and>
                (\<forall>k. k \<noteq> h \<longrightarrow> stub_at s k = Some r \<longrightarrow> \<not> was_write (m_stats f))))"

definition under_way :: "split \<Rightarrow> bool" where
  "under_way s \<longleftrightarrow> (\<forall>h. handle_under_way s h)"

definition split_inv :: "oss \<Rightarrow> split \<Rightarrow> bool" where
  "split_inv bhOss s \<longleftrightarrow> served_inv (settled bhOss s) \<and> under_way s"

section \<open>Marks\<close>

lemma marks_off_simps [simp]:
  "m_files (marks_off R fs) = m_files fs" "m_fd_last (marks_off R fs) = m_fd_last fs"
  "next_ref (marks_off R fs) = next_ref fs" "getStub (marks_off R fs) = getStub fs"
  "m_size (cell (marks_off R fs) r) = m_size (cell fs r)"
  "m_stat (cell (marks_off R fs) r) = m_stat (cell fs r)"
  "m_readtype (cell (marks_off R fs) r) = m_readtype (cell fs r)"
  "m_isOpenWrite (cell (marks_off R fs) r) \<longleftrightarrow> r \<notin> R \<and> m_isOpenWrite (cell fs r)"
  by (simp_all add: marks_off_def fun_eq_iff getStub_def del: om_find_files)

lemma fs_inv_marks_off [simp]: "fs_inv (marks_off R fs) \<longleftrightarrow> fs_inv fs"
proof -
  have "stub_ok n (cell (marks_off R fs) r) = stub_ok n (cell fs r)" for n r by (simp add: stub_ok_def)
  moreover have "ino_of (marks_off R fs) = ino_of fs" by (simp add: ino_of_def fun_eq_iff)
  ultimately show ?thesis by (simp add: fs_inv_def files_wf_def)
qed

lemma marks_off_empty [simp]: "marks_off {} fs = fs"
  by (simp add: marks_off_def)

lemma marks_off_upd [simp]:
  "(marks_off R fs)\<lparr>m_fd_last := n\<rparr> = marks_off R (fs\<lparr>m_fd_last := n\<rparr>)"
  "(marks_off R fs)\<lparr>m_files := fm\<rparr> = marks_off R (fs\<lparr>m_files := fm\<rparr>)"
  by (simp_all add: marks_off_def)

lemma rename_marks_off:
  "rename_fs p q (marks_off R fs) = apsnd (marks_off R) (rename_fs p q fs)"
  by (simp add: rename_fs_def Let_def split: option.split)

lemma unlink_marks_off:
  "BlackholeFS.unlink p (marks_off R fs) = apsnd (marks_off R) (BlackholeFS.unlink p fs)"
  by (simp add: unlink_def split: option.split)

lemma open_marks_off:
  assumes "next_ref fs \<notin> R" "\<And>r. \<not> read_only flags \<Longrightarrow> getStub fs p = Some r \<Longrightarrow> r \<notin> R"
  shows "open_fs p flags mode (marks_off R fs) = apsnd (marks_off R) (open_fs p flags mode fs)"
proof -
  have create: "open_create p flags mode (marks_off R fs1) = apsnd (marks_off R) (open_create p flags mode fs1)"
    if "next_ref fs1 = next_ref fs" for fs1
    using assms(1) that by (cases fs1) (auto simp: open_create_eq marks_off_def fun_eq_iff)
  have upd: "upd_stub r u (marks_off R fs1) = marks_off R (upd_stub r u fs1)"
    if "\<And>x. u (x\<lparr>m_isOpenWrite := r \<notin> R \<and> m_isOpenWrite x\<rparr>) =
        (u x)\<lparr>m_isOpenWrite := r \<notin> R \<and> m_isOpenWrite (u x)\<rparr>" for r u fs1
    using that by (cases fs1) (auto simp: upd_stub_def marks_off_def fun_eq_iff)
  show ?thesis
    by (cases rule: open_fs_cases [of flags fs p])
      (use assms(2) in \<open>auto simp: open_fs_simps upd create\<close>)
qed

section \<open>What calls see of the state to come\<close>

lemma settled_simps [simp]:
  "v_globals (settled bhOss s) = settled_globals s" "v_handles (settled bhOss s) = finished bhOss s"
  "v_dirs (settled bhOss s) = v_dirs (sp_served s)"
  "g_blackholeFS (settled_globals s) = marks_off (closing_stubs s) (v_fs (sp_served s))"
  "g_statsManager (settled_globals s) = g_statsManager (v_globals (sp_served s))"
  by (simp_all add: settled_def settled_globals_def)

lemma finished_resting: "sp_at s h = Resting \<Longrightarrow> finished bhOss s h = v_handles (sp_served s) h"
  by (simp add: finished_def)

lemma served_eqI:
  "v_globals v = v_globals w \<Longrightarrow> v_handles v = v_handles w \<Longrightarrow> v_dirs v = v_dirs w \<Longrightarrow> (v :: served) = w"
  by simp

text \<open>A call on one handle, other than open and close.\<close>

abbreviation plain :: "call \<Rightarrow> bool" where
  "plain c \<equiv> (case c of COpen h p flags mode t0 now \<Rightarrow> False | CClose h t \<Rightarrow> False | _ \<Rightarrow> True)"

lemma same_open_calls:
  "same_open f (fst (snd (Write offset blen f)))" "same_open f (fst (snd (Write_aio aiop f)))"
  "same_open f (fst (snd (Read buff offset blen f)))" "same_open f (fst (snd (Read_aio aiop f)))"
  "same_open f (fst (snd (ReadV vs n f)))" "same_open f (snd (Read_prep offset blen f))"
  by (auto simp: same_open_def Write_def Write_aio_def Read_def Read_aio_def ReadV_def Read_prep_def
      Let_def case_prod_beta split: option.split sum.split)

lemma Fstat_marks_off:
  "Fstat st f (g\<lparr>g_blackholeFS := marks_off R (g_blackholeFS g)\<rparr>) = Fstat st f g"
  by (simp add: Fstat_def split: option.split)

lemma handle_call:
  assumes "plain c" "handle_of c = Some h" "v_handles w h = v_handles v h"
    and "v_globals w = (v_globals v)\<lparr>g_blackholeFS := marks_off R (v_fs v)\<rparr>"
  obtains f where "same_open (v_handles v h) f"
    and "snd (serve_call bhOss c v) = put_handle h f (v_globals v) v"
    and "serve_call bhOss c w = (fst (serve_call bhOss c v), put_handle h f (v_globals w) w)"
proof -
  let ?f = "v_handles (snd (serve_call bhOss c v)) h"
  have w: "put_handle h (v_handles v h) (v_globals w) w = w" unfolding assms(3) [symmetric] by simp
  have st: "Fstat st (v_handles v h) (v_globals w) = Fstat st (v_handles v h) (v_globals v)" for st
    unfolding assms(4) by (rule Fstat_marks_off)
  have "same_open (v_handles v h) ?f \<and> snd (serve_call bhOss c v) = put_handle h ?f (v_globals v) v \<and>
    serve_call bhOss c w = (fst (serve_call bhOss c v), put_handle h ?f (v_globals w) w)"
    using assms(1-3) w
    by (cases c) (simp_all add: case_prod_beta Let_def same_open_calls same_open_refl ReadRaw_def st Fsync_def Ftruncate_def)
  then show ?thesis using that by blast
qed

text \<open>What is to be shown of every event: the store answers the same and stays in step.\<close>

definition agrees :: "oss \<Rightarrow> event \<Rightarrow> split \<Rightarrow> bool" where
  "agrees bhOss e s \<longleftrightarrow>
     (let (out, s') = split_exec bhOss e s
      in split_spec e (abs_split bhOss s) = (out, abs_split bhOss s') \<and> split_inv bhOss s' \<and>
        uint (m_fd_last (v_fs (sp_served s'))) \<le> uint (m_fd_last (v_fs (sp_served s))) + 1)"

end
