(* ===== verification/Split_Refinement.thy ===== *)
theory Split_Refinement
  imports Split_Calls
begin

text \<open>
  Every event of \<^verbatim>\<open>Split_Calls\<close> agrees with the store: the calls that are not cut, the
  two halves of an open, the two halves of a close. The proofs compare what an event does
  now with what the whole call would do in the state in which all calls under way have
  come to their end.
\<close>

section \<open>Calls that are not cut\<close>

lemma Open_finish_cong:
  assumes "getStub (g_blackholeFS g') (m_path f) = getStub (g_blackholeFS g) (m_path f)"
    and "\<And>r. getStub (g_blackholeFS g) (m_path f) = Some r \<Longrightarrow>
      file_of (cell (g_blackholeFS g') r) = file_of (cell (g_blackholeFS g) r) \<and>
      st_ino (m_stat (cell (g_blackholeFS g') r)) = st_ino (m_stat (cell (g_blackholeFS g) r))"
  shows "Open_finish bhOss p flags t0 now f g' = Open_finish bhOss p flags t0 now f g"
  using assms
  by (cases "getStub (g_blackholeFS g) (m_path f)")
    (auto simp: Open_finish_def Let_def file_of_def split: if_splits)

lemma closing_stubs_put:
  assumes "sp_at s h = Resting"
  shows "closing_stubs (s\<lparr>sp_served := put_handle h f g (sp_served s)\<rparr>) = closing_stubs s"
  using assms by (auto simp: closing_stubs_def split: if_splits) (metis progress.distinct(3))

lemma settled_put:
  assumes "sp_at s h = Resting"
  shows "settled bhOss (s\<lparr>sp_served := put_handle h f (v_globals (sp_served s)) (sp_served s)\<rparr>) =
    put_handle h f (settled_globals s) (settled bhOss s)"
proof (rule served_eqI)
  let ?s = "s\<lparr>sp_served := put_handle h f (v_globals (sp_served s)) (sp_served s)\<rparr>"
  show "v_globals (settled bhOss ?s) = v_globals (put_handle h f (settled_globals s) (settled bhOss s))"
    by (simp add: settled_globals_def closing_stubs_put [OF assms])
  show "v_handles (settled bhOss ?s) = v_handles (put_handle h f (settled_globals s) (settled bhOss s))"
    using assms by (auto simp: fun_eq_iff finished_def Let_def split: progress.split)
qed simp

lemma stage_of_put:
  "sp_at s h = Resting \<Longrightarrow> stage_of (s\<lparr>sp_served := put_handle h f g (sp_served s)\<rparr>) = stage_of s"
  by (auto simp: stage_of_def fun_eq_iff Let_def split: progress.split)

lemma under_way_open:
  "under_way s \<Longrightarrow> sp_at s h = InOpen p flags t0 now \<Longrightarrow>
   m_path (v_handles (sp_served s) h) = p \<and> getStub (v_fs (sp_served s)) p \<noteq> None"
  by (auto simp: under_way_def handle_under_way_def Let_def dest: spec [of _ h])

lemma under_way_close:
  assumes "under_way s" "sp_at s h = InClose"
  obtains r where "m_stub (v_handles (sp_served s) h) = Some r"
    "getStub (v_fs (sp_served s)) (m_path (v_handles (sp_served s) h)) = Some r"
    "m_isOpenWrite (cell (v_fs (sp_served s)) r) \<longleftrightarrow> was_write (m_stats (v_handles (sp_served s) h))"
    "\<And>k. k \<noteq> h \<Longrightarrow> stub_at s k = Some r \<Longrightarrow> \<not> was_write (m_stats (v_handles (sp_served s) h))"
proof -
  have "handle_under_way s h" using assms(1) by (simp add: under_way_def)
  then show ?thesis using assms(2) that unfolding handle_under_way_def Let_def by auto
qed

lemma handle_at_rest: "sp_at s h = Resting \<Longrightarrow> handle_under_way s h"
  by (simp add: handle_under_way_def)

text \<open>
  A call under way stays as it is when its file keeps its stub and the stub its mark, and
  no handle comes to the stub of a writer that is closing.
\<close>

lemma handle_under_way_keep:
  assumes "under_way s" "sp_at s' k = sp_at s k"
    and handle: "sp_at s k \<noteq> Resting \<Longrightarrow> v_handles (sp_served s') k = v_handles (sp_served s) k"
    and path: "\<And>u. sp_at s k \<noteq> Resting \<Longrightarrow>
      getStub (v_fs (sp_served s)) (m_path (v_handles (sp_served s) k)) = Some u \<Longrightarrow>
      getStub (v_fs (sp_served s')) (m_path (v_handles (sp_served s) k)) = Some u \<and>
      (m_isOpenWrite (cell (v_fs (sp_served s')) u) \<longleftrightarrow> m_isOpenWrite (cell (v_fs (sp_served s)) u))"
    and others: "\<And>j u. j \<noteq> k \<Longrightarrow> sp_at s k = InClose \<Longrightarrow> was_write (m_stats (v_handles (sp_served s) k)) \<Longrightarrow>
      getStub (v_fs (sp_served s)) (m_path (v_handles (sp_served s) k)) = Some u \<Longrightarrow>
      stub_at s' j = Some u \<Longrightarrow> stub_at s j = Some u"
  shows "handle_under_way s' k"
proof (cases "sp_at s k")
  case Resting
  then show ?thesis using assms(2) by (simp add: handle_at_rest)
next
  case (InOpen p flags t0 now)
  then show ?thesis
    using under_way_open [OF assms(1) InOpen] handle path assms(2) by (auto simp: handle_under_way_def Let_def)
next
  case InClose
  let ?f = "v_handles (sp_served s) k"
  obtain u where u: "m_stub ?f = Some u" "getStub (v_fs (sp_served s)) (m_path ?f) = Some u"
    "m_isOpenWrite (cell (v_fs (sp_served s)) u) \<longleftrightarrow> was_write (m_stats ?f)"
    "\<And>j. j \<noteq> k \<Longrightarrow> stub_at s j = Some u \<Longrightarrow> \<not> was_write (m_stats ?f)"
    using under_way_close [OF assms(1) InClose] by blast
  have "\<not> was_write (m_stats ?f)" if "j \<noteq> k" "stub_at s' j = Some u" for j
    using others [OF that(1) InClose _ u(2) that(2)] u(4) [OF that(1)] by blast
  then show ?thesis
    using u handle path [OF _ u(2)] InClose assms(2) by (auto simp: handle_under_way_def Let_def)
qed

lemma under_way_same:
  assumes "under_way s" "sp_at s' = sp_at s"
    and handle: "\<And>k. sp_at s k \<noteq> Resting \<Longrightarrow> v_handles (sp_served s') k = v_handles (sp_served s) k"
    and stub: "\<And>k. m_stub (v_handles (sp_served s') k) = m_stub (v_handles (sp_served s) k)"
    and path: "\<And>k. sp_at s k \<noteq> Resting \<Longrightarrow>
      getStub (v_fs (sp_served s')) (m_path (v_handles (sp_served s) k)) =
      getStub (v_fs (sp_served s)) (m_path (v_handles (sp_served s) k))"
    and "cell (v_fs (sp_served s')) = cell (v_fs (sp_served s))"
  shows "under_way s'"
  unfolding under_way_def
proof
  fix k
  have "stub_at s' j = stub_at s j" for j
    using path [of j] under_way_open [OF assms(1), of j] assms(2)
    by (cases "sp_at s j") (simp_all add: stub_at_def stub)
  then show "handle_under_way s' k"
    using handle path assms(2,6) by (intro handle_under_way_keep [OF assms(1)]) simp_all
qed

lemma under_way_put:
  assumes "under_way s" "sp_at s h = Resting" "m_stub f = m_stub (v_handles (sp_served s) h)"
  shows "under_way (s\<lparr>sp_served := put_handle h f (v_globals (sp_served s)) (sp_served s)\<rparr>)"
  by (rule under_way_same [OF assms(1)]) (use assms(2,3) in auto)

text \<open>It is enough that a call made now leads to the state it would lead to later.\<close>

lemma split_whole:
  fixes bhOss c s
  defines "s' \<equiv> s\<lparr>sp_served := snd (serve_call bhOss c (sp_served s))\<rparr>"
  assumes "split_inv bhOss s" "courteous (Whole c) (abs_split bhOss s)"
    and "uint (m_fd_last (v_fs (sp_served s))) + 1 < 2 ^ 31"
    and "serve_call bhOss c (settled bhOss s) = (fst (serve_call bhOss c (sp_served s)), settled bhOss s')"
    and "stage_of s' = stage_of s" "under_way s'"
  shows "agrees bhOss (Whole c) s"
proof -
  have "served_inv (settled bhOss s)" "polite c (abs_served (settled bhOss s))" "plain c"
    using assms(2,3) by (auto simp: split_inv_def ready_def abs_split_def)
  then have "simulates bhOss c (settled bhOss s)"
    "m_fd_last (v_fs (snd (serve_call bhOss c (sp_served s)))) = m_fd_last (v_fs (sp_served s))"
    using simulates_call(1) assms(4) by (simp, intro fd_served, auto)
  then show ?thesis
    using assms(5-7)
    by (simp add: agrees_def simulates_def abs_split_def split_inv_def case_prod_beta Let_def s'_def)
qed

lemma settled_handle_call:
  assumes "under_way s" "plain c" "handle_of c = Some h" "sp_at s h = Resting"
    and s': "s' = s\<lparr>sp_served := snd (serve_call bhOss c (sp_served s))\<rparr>"
  shows "serve_call bhOss c (settled bhOss s) = (fst (serve_call bhOss c (sp_served s)), settled bhOss s')"
    and "stage_of s' = stage_of s" and "under_way s'"
proof -
  have "v_handles (settled bhOss s) h = v_handles (sp_served s) h"
    "v_globals (settled bhOss s) = (v_globals (sp_served s))
       \<lparr>g_blackholeFS := marks_off (closing_stubs s) (v_fs (sp_served s))\<rparr>"
    using assms(4) by (simp_all add: finished_resting settled_globals_def)
  then obtain f where f: "same_open (v_handles (sp_served s) h) f"
    "snd (serve_call bhOss c (sp_served s)) = put_handle h f (v_globals (sp_served s)) (sp_served s)"
    "serve_call bhOss c (settled bhOss s) = (fst (serve_call bhOss c (sp_served s)),
       put_handle h f (v_globals (settled bhOss s)) (settled bhOss s))"
    by (rule handle_call [OF assms(2,3)])
  show "serve_call bhOss c (settled bhOss s) = (fst (serve_call bhOss c (sp_served s)), settled bhOss s')"
    unfolding f(3) s' f(2) settled_put [OF assms(4)] by simp
  show "stage_of s' = stage_of s" unfolding s' f(2) by (rule stage_of_put [OF assms(4)])
  show "under_way s'" unfolding s' f(2)
    by (rule under_way_put [OF assms(1,4)]) (use f(1) in \<open>simp add: same_open_def\<close>)
qed

text \<open>Calls on a path or a directory handle that leave the namespace alone.\<close>

lemma settled_put_dir:
  "settled bhOss (s\<lparr>sp_served := put_dir d dir (sp_served s)\<rparr>) = put_dir d dir (settled bhOss s)"
  by (rule served_eqI) (simp_all add: settled_globals_def closing_stubs_def finished_def fun_eq_iff Let_def
      cong: progress.case_cong)

lemma under_way_put_dir:
  "under_way (s\<lparr>sp_served := put_dir d dir (sp_served s)\<rparr>) = under_way s"
  "stage_of (s\<lparr>sp_served := put_dir d dir (sp_served s)\<rparr>) = stage_of s"
  by (simp_all add: under_way_def handle_under_way_def stage_of_def stub_at_def fun_eq_iff Let_def cong: progress.case_cong)

lemma settled_other_call:
  assumes "under_way s" "handle_of c = None" "case c of CRename p q \<Rightarrow> False | CUnlink p \<Rightarrow> False | _ \<Rightarrow> True"
    and s': "s' = s\<lparr>sp_served := snd (serve_call bhOss c (sp_served s))\<rparr>"
  shows "serve_call bhOss c (settled bhOss s) = (fst (serve_call bhOss c (sp_served s)), settled bhOss s')
    \<and> stage_of s' = stage_of s \<and> under_way s'"
proof -
  have same: "s\<lparr>sp_served := sp_served s\<rparr> = s" by simp
  have stat: "Stat p st (settled_globals s) = Stat p st (v_globals (sp_served s))" for p st
    by (simp add: Stat_def split: option.split)
  have dir: "Opendir p (marks_off R fs) d = Opendir p fs d" for p R fs d
    by (simp add: Opendir_def readdir_def)
  show ?thesis
    using assms(1-3) unfolding s'
    by (cases c) (simp_all add: same case_prod_beta Let_def stat dir settled_put_dir under_way_put_dir)
qed

text \<open>A file that counts as unused is the file of no call under way.\<close>

lemma finished_open:
  assumes "under_way s" "sp_at s k = InOpen p flags t0 now"
  obtains r where "getStub (v_fs (sp_served s)) p = Some r" "m_stub (finished bhOss s k) = Some r"
    "m_path (finished bhOss s k) = p" "m_path (v_handles (sp_served s) k) = p"
    "was_write (m_stats (finished bhOss s k)) \<longleftrightarrow> \<not> read_only flags"
proof -
  obtain r where r: "m_path (v_handles (sp_served s) k) = p" "getStub (v_fs (sp_served s)) p = Some r"
    using under_way_open [OF assms] by auto
  then have "getStub (g_blackholeFS (v_globals (sp_served s))) (m_path (v_handles (sp_served s) k)) = Some r"
    by simp
  note f = Open_finish_fields [OF this refl refl, of bhOss p flags t0 now]
  have "finished bhOss s k = Open_finish bhOss p flags t0 now (v_handles (sp_served s) k) (v_globals (sp_served s))"
    using assms(2) by (simp add: finished_def Let_def)
  then show ?thesis using that [of r] f(1,2,14) r by simp
qed

lemma unused_under_way:
  assumes "under_way s" "unused p (abs_served (settled bhOss s))" "\<not> closing p (stage_of s)"
    and "sp_at s k \<noteq> Resting"
  shows "m_path (v_handles (sp_served s) k) \<noteq> p"
proof (cases "sp_at s k")
  case Resting
  then show ?thesis using assms(4) by simp
next
  case (InOpen q flags t0 now)
  show ?thesis
    by (rule finished_open [OF assms(1) InOpen, of bhOss]) (use assms(2) in \<open>auto simp: unused_abs\<close>)
next
  case InClose
  then have "stage_of s k = In_close (m_path (v_handles (sp_served s) k)) (was_write (m_stats (v_handles (sp_served s) k)))"
    by (simp add: stage_of_def Let_def)
  then show ?thesis using assms(3) unfolding closing_def by metis
qed

lemma settled_fs:
  fixes s fs1
  defines "s' \<equiv> s\<lparr>sp_served := (sp_served s)
    \<lparr>v_globals := (v_globals (sp_served s))\<lparr>g_blackholeFS := fs1\<rparr>\<rparr>\<rparr>"
  assumes "under_way s" "cell fs1 = cell (v_fs (sp_served s))"
    and paths: "\<And>k. sp_at s k \<noteq> Resting \<Longrightarrow>
      getStub fs1 (m_path (v_handles (sp_served s) k)) =
      getStub (v_fs (sp_served s)) (m_path (v_handles (sp_served s) k))"
  shows "settled bhOss s' = (settled bhOss s)
      \<lparr>v_globals := (settled_globals s)\<lparr>g_blackholeFS := marks_off (closing_stubs s) fs1\<rparr>\<rparr>"
    and "stage_of s' = stage_of s" and "under_way s'"
proof -
  have "finished bhOss s' k = finished bhOss s k" for k
    using paths [of k]
    by (cases "sp_at s k") (auto simp: finished_def s'_def assms(3) Let_def intro!: Open_finish_cong)
  then show "settled bhOss s' = (settled bhOss s)
      \<lparr>v_globals := (settled_globals s)\<lparr>g_blackholeFS := marks_off (closing_stubs s) fs1\<rparr>\<rparr>"
    by (intro served_eqI) (auto simp: settled_globals_def s'_def closing_stubs_def)
  show "stage_of s' = stage_of s" by (simp add: stage_of_def s'_def fun_eq_iff Let_def)
  show "under_way s'"
    by (rule under_way_same [OF assms(2)]) (use paths assms(3) in \<open>simp_all add: s'_def\<close>)
qed

lemma settled_rename:
  assumes "split_inv bhOss s" "courteous (Whole (CRename p q)) (abs_split bhOss s)"
    and s': "s' = s\<lparr>sp_served := snd (serve_call bhOss (CRename p q) (sp_served s))\<rparr>"
  shows "serve_call bhOss (CRename p q) (settled bhOss s) =
      (fst (serve_call bhOss (CRename p q) (sp_served s)), settled bhOss s')
    \<and> stage_of s' = stage_of s \<and> under_way s'"
proof -
  let ?fs = "v_fs (sp_served s)"
  let ?fs1 = "snd (rename_fs p q ?fs)"
  have inv: "fs_inv ?fs" "under_way s"
    using assms(1) served_inv_fs [of "settled bhOss s"] by (simp_all add: split_inv_def)
  have "cell ?fs1 = cell ?fs \<and> (\<forall>x. x \<noteq> p \<longrightarrow> x \<noteq> q \<longrightarrow> getStub ?fs1 x = getStub ?fs x)"
  proof (cases "getStub ?fs p")
    case None
    then show ?thesis by (simp add: rename_fs_enoent)
  next
    case (Some r)
    note ok = rename_fs_ok [OF fs_inv_wf [OF inv(1)] Some, of q]
    show ?thesis unfolding ok(2) using ok(4) by auto
  qed
  moreover have "m_path (v_handles (sp_served s) k) \<noteq> p \<and> m_path (v_handles (sp_served s) k) \<noteq> q"
    if "sp_at s k \<noteq> Resting" for k
    using assms(2) unused_under_way [OF inv(2) _ _ that, where p = p and bhOss = bhOss] unused_under_way [OF inv(2) _ _ that, where p = q and bhOss = bhOss]
    by (simp add: ready_def abs_split_def)
  ultimately have "settled bhOss s' = (settled bhOss s)
      \<lparr>v_globals := (settled_globals s)\<lparr>g_blackholeFS := marks_off (closing_stubs s) ?fs1\<rparr>\<rparr>
    \<and> stage_of s' = stage_of s \<and> under_way s'"
    unfolding s' using settled_fs [OF inv(2), where ?fs1.0 = ?fs1] by (simp add: Rename_def case_prod_beta Let_def)
  then show ?thesis
    by (simp add: Rename_def rename_marks_off case_prod_beta Let_def)
qed

lemma settled_unlink:
  assumes "split_inv bhOss s" "courteous (Whole (CUnlink p)) (abs_split bhOss s)"
    and s': "s' = s\<lparr>sp_served := snd (serve_call bhOss (CUnlink p) (sp_served s))\<rparr>"
  shows "serve_call bhOss (CUnlink p) (settled bhOss s) =
      (fst (serve_call bhOss (CUnlink p) (sp_served s)), settled bhOss s')
    \<and> stage_of s' = stage_of s \<and> under_way s'"
proof -
  let ?fs = "v_fs (sp_served s)"
  let ?fs1 = "snd (BlackholeFS.unlink p ?fs)"
  have inv: "fs_inv ?fs" "under_way s"
    using assms(1) served_inv_fs [of "settled bhOss s"] by (simp_all add: split_inv_def)
  have "cell ?fs1 = cell ?fs \<and> (\<forall>x. x \<noteq> p \<longrightarrow> getStub ?fs1 x = getStub ?fs x)"
    using unlink_ok(2,4) [OF fs_inv_wf [OF inv(1)], of p] unlink_enoent [of ?fs p]
    by (cases "getStub ?fs p") auto
  moreover have "m_path (v_handles (sp_served s) k) \<noteq> p" if "sp_at s k \<noteq> Resting" for k
    using assms(2) unused_under_way [OF inv(2) _ _ that, where p = p and bhOss = bhOss] by (simp add: ready_def abs_split_def)
  ultimately have "settled bhOss s' = (settled bhOss s)
      \<lparr>v_globals := (settled_globals s)\<lparr>g_blackholeFS := marks_off (closing_stubs s) ?fs1\<rparr>\<rparr>
    \<and> stage_of s' = stage_of s \<and> under_way s'"
    unfolding s' using settled_fs [OF inv(2), where ?fs1.0 = ?fs1] by (simp add: Unlink_def case_prod_beta Let_def)
  then show ?thesis
    by (simp add: Unlink_def unlink_marks_off case_prod_beta Let_def)
qed

text \<open>Every call that is not cut.\<close>

lemma whole_agrees:
  assumes "split_inv bhOss s" "courteous (Whole c) (abs_split bhOss s)"
    and "uint (m_fd_last (v_fs (sp_served s))) + 1 < 2 ^ 31"
  shows "agrees bhOss (Whole c) s"
proof -
  let ?s = "s\<lparr>sp_served := snd (serve_call bhOss c (sp_served s))\<rparr>"
  have uw: "under_way s" using assms(1) by (simp add: split_inv_def)
  have "serve_call bhOss c (settled bhOss s) = (fst (serve_call bhOss c (sp_served s)), settled bhOss ?s)
    \<and> stage_of ?s = stage_of s \<and> under_way ?s"
  proof (cases "handle_of c")
    case (Some h)
    have "sp_at s h = Resting" "plain c"
      using assms(2) Some by (auto simp: ready_def abs_split_def stage_of_def Let_def split: progress.splits)
    then show ?thesis using settled_handle_call [OF uw _ Some _ refl, of bhOss] by blast
  next
    case None
    show ?thesis
    proof (cases "case c of CRename p q \<Rightarrow> False | CUnlink p \<Rightarrow> False | _ \<Rightarrow> True")
      case True
      then show ?thesis by (rule settled_other_call [OF uw None _ refl])
    next
      case False
      then show ?thesis
        using settled_rename [OF assms(1) _ refl] settled_unlink [OF assms(1) _ refl] assms(2)
        by (cases c) simp_all
    qed
  qed
  then show ?thesis using split_whole [OF assms] by blast
qed

section \<open>Opens, half by half\<close>

lemma closing_stubE:
  assumes "under_way s" "r \<in> closing_stubs s"
  obtains h where "sp_at s h = InClose" "m_stub (v_handles (sp_served s) h) = Some r"
    "getStub (v_fs (sp_served s)) (m_path (v_handles (sp_served s) h)) = Some r"
    "stage_of s h = In_close (m_path (v_handles (sp_served s) h)) (was_write (m_stats (v_handles (sp_served s) h)))"
proof -
  obtain h where h: "sp_at s h = InClose" "m_stub (v_handles (sp_served s) h) = Some r"
    using assms(2) by (auto simp: closing_stubs_def)
  moreover have "getStub (v_fs (sp_served s)) (m_path (v_handles (sp_served s) h)) = Some r"
    by (rule under_way_close [OF assms(1) h(1)]) (use h(2) in simp)
  ultimately show ?thesis using that by (simp add: stage_of_def Let_def)
qed

lemma open_fs_refused:
  assumes "uint (m_fd_last fs) + 1 < 2 ^ 31" "\<not> 0 \<le> fst (open_fs p flags mode fs)"
  shows "snd (open_fs p flags mode fs) = fs"
  using assms next_fd(1) [OF assms(1)] uint_nonnegative [of "m_fd_last fs"]
  by (cases rule: open_fs_cases [of flags fs p]) (auto simp: open_fs_simps open_create_eq)

text \<open>The stubs that are being closed do not stand in the way of an open.\<close>

lemma open_disjoint:
  assumes "under_way s" "fs_inv (v_fs (sp_served s))"
    and "undisturbed (COpen h p flags mode t0 now) (stage_of s)"
  shows "next_ref (v_fs (sp_served s)) \<notin> closing_stubs s"
    and "\<And>r. \<not> read_only flags \<Longrightarrow> getStub (v_fs (sp_served s)) p = Some r \<Longrightarrow> r \<notin> closing_stubs s"
proof -
  show "next_ref (v_fs (sp_served s)) \<notin> closing_stubs s"
    using fs_inv_ref [OF assms(2)] closing_stubE [OF assms(1)] by (metis less_irrefl)
  fix r
  assume r: "\<not> read_only flags" "getStub (v_fs (sp_served s)) p = Some r"
  show "r \<notin> closing_stubs s"
  proof
    assume "r \<in> closing_stubs s"
    then obtain k where k: "getStub (v_fs (sp_served s)) (m_path (v_handles (sp_served s) k)) = Some r"
      "stage_of s k = In_close (m_path (v_handles (sp_served s) k)) (was_write (m_stats (v_handles (sp_served s) k)))"
      using closing_stubE [OF assms(1)] by metis
    have "m_path (v_handles (sp_served s) k) = p" using k(1) r(2) assms(2) unfolding fs_inv_def by blast
    then show False using k(2) assms(3) r(1) by (auto simp: closing_def)
  qed
qed

text \<open>
  What an open changes for the calls under way: nothing at another path, and at this one,
  where only readers can be under way, no more than the flags of the stub.
\<close>

definition kept :: "split \<Rightarrow> bhfs \<Rightarrow> bool" where
  "kept s fs \<longleftrightarrow> (\<forall>k u. sp_at s k \<noteq> Resting \<longrightarrow>
     getStub (v_fs (sp_served s)) (m_path (v_handles (sp_served s) k)) = Some u \<longrightarrow>
     getStub fs (m_path (v_handles (sp_served s) k)) = Some u \<and>
     file_of (cell fs u) = file_of (cell (v_fs (sp_served s)) u) \<and>
     st_ino (m_stat (cell fs u)) = st_ino (m_stat (cell (v_fs (sp_served s)) u)) \<and>
     (m_isOpenWrite (cell fs u) \<longleftrightarrow> m_isOpenWrite (cell (v_fs (sp_served s)) u)))"

lemma keptD:
  assumes "kept s fs" "sp_at s k \<noteq> Resting"
    and "getStub (v_fs (sp_served s)) (m_path (v_handles (sp_served s) k)) = Some u"
  shows "getStub fs (m_path (v_handles (sp_served s) k)) = Some u"
    "file_of (cell fs u) = file_of (cell (v_fs (sp_served s)) u)"
    "st_ino (m_stat (cell fs u)) = st_ino (m_stat (cell (v_fs (sp_served s)) u))"
    "m_isOpenWrite (cell fs u) \<longleftrightarrow> m_isOpenWrite (cell (v_fs (sp_served s)) u)"
  using assms unfolding kept_def by blast+

lemma open_kept:
  assumes uw: "under_way s" and fsi: "fs_inv (v_fs (sp_served s))"
    and room: "uint (m_fd_last (v_fs (sp_served s))) + 1 < 2 ^ 31"
    and pol: "polite (COpen h p flags mode t0 now) (abs_served (settled bhOss s))"
    and und: "undisturbed (COpen h p flags mode t0 now) (stage_of s)"
    and acc: "0 \<le> fst (open_fs p flags mode (v_fs (sp_served s)))"
  obtains fs1 where "open_fs p flags mode (v_fs (sp_served s)) = (uint (m_fd_last (v_fs (sp_served s))) + 1, fs1)"
    "uint (m_fd_last fs1) = uint (m_fd_last (v_fs (sp_served s))) + 1"
    "kept s fs1" "getStub fs1 p \<noteq> None"
    "\<And>k. sp_at s k = InClose \<Longrightarrow> was_write (m_stats (v_handles (sp_served s) k)) \<Longrightarrow>
      getStub fs1 (m_path (v_handles (sp_served s) k)) \<noteq> getStub fs1 p"
    "\<And>q u. getStub fs1 q = Some u \<Longrightarrow> q \<noteq> p \<Longrightarrow> getStub (v_fs (sp_served s)) q = Some u"
proof -
  let ?fs = "v_fs (sp_served s)"
  let ?fresh = "getStub ?fs p = None \<or> (\<not> read_only flags \<and> flags AND O_TRUNC \<noteq> 0)"
  obtain r c fs1 where o: "open_fs p flags mode ?fs = (uint (m_fd_last ?fs) + 1, fs1)" "fs_inv fs1"
    "getStub fs1 = (getStub ?fs)(p \<mapsto> r)" "cell fs1 = (cell ?fs)(r := c)" "m_fd_last fs1 = m_fd_last ?fs + 1"
    and fresh: "?fresh \<Longrightarrow> r = next_ref ?fs \<and> m_isOpenWrite c \<and> \<not> read_only flags \<and> file_of c = empty_afile"
    and reuse: "\<not> ?fresh \<Longrightarrow> getStub ?fs p = Some r \<and> file_of c = file_of (cell ?fs r) \<and>
      st_ino (m_stat c) = st_ino (m_stat (cell ?fs r)) \<and>
      (m_isOpenWrite c \<longleftrightarrow> \<not> read_only flags \<or> m_isOpenWrite (cell ?fs r))"
    using open_fs_accepted [OF fsi acc room] by metis
  have here: "read_only flags" if "sp_at s k \<noteq> Resting" "m_path (v_handles (sp_served s) k) = p" for k
    using pol und unused_under_way [OF uw, of p bhOss k] that by (auto split: if_splits)
  have other: "u \<noteq> r" if "getStub ?fs q = Some u" "q \<noteq> p" for q u
    using that o(2,3) unfolding fs_inv_def by (metis fun_upd_apply)
  have kept: "kept s fs1"
    unfolding kept_def
  proof (intro allI impI)
    fix k u
    assume k: "sp_at s k \<noteq> Resting" "getStub ?fs (m_path (v_handles (sp_served s) k)) = Some u"
    let ?q = "m_path (v_handles (sp_served s) k)"
    show "getStub fs1 ?q = Some u \<and> file_of (cell fs1 u) = file_of (cell ?fs u) \<and>
      st_ino (m_stat (cell fs1 u)) = st_ino (m_stat (cell ?fs u)) \<and>
      (m_isOpenWrite (cell fs1 u) \<longleftrightarrow> m_isOpenWrite (cell ?fs u))"
    proof (cases "?q = p")
      case True
      then have old: "\<not> ?fresh" "read_only flags" using k here by simp_all
      have "u = r" using reuse [OF old(1)] k(2) True by simp
      then show ?thesis using reuse [OF old(1)] old(2) True o(3,4) by simp
    next
      case False
      then show ?thesis using other [OF k(2) False] k(2) o(3,4) by simp
    qed
  qed
  show ?thesis
  proof (rule that [OF o(1) _ kept])
    show "uint (m_fd_last fs1) = uint (m_fd_last ?fs) + 1" using next_fd(2) [OF room] o(5) by simp
    show "getStub fs1 p \<noteq> None" using o(3) by simp
    show "getStub ?fs q = Some u" if "getStub fs1 q = Some u" "q \<noteq> p" for q u using that o(3) by simp
    fix k
    assume k: "sp_at s k = InClose" "was_write (m_stats (v_handles (sp_served s) k))"
    let ?q = "m_path (v_handles (sp_served s) k)"
    have "stage_of s k = In_close ?q True" using k by (simp add: stage_of_def Let_def)
    then have "?q \<noteq> p" using und here [of k] k(1) by (auto simp: closing_writer_def closing_def)
    moreover obtain u where "getStub ?fs ?q = Some u" by (rule under_way_close [OF uw k(1)])
    ultimately show "getStub fs1 ?q \<noteq> getStub fs1 p" using other [of ?q u] o(3) by simp
  qed
qed

text \<open>The state after the first half of an open that goes on.\<close>

lemma finished_opened:
  assumes "under_way s" "kept s fs1" "sp_at s h = Resting"
    and s1: "s1 = put_progress h (InOpen p flags t0 now) f ((v_globals (sp_served s))\<lparr>g_blackholeFS := fs1\<rparr>) s"
  shows "finished bhOss s1 = (finished bhOss s)
    (h := Open_finish bhOss p flags t0 now f ((v_globals (sp_served s))\<lparr>g_blackholeFS := marks_off R fs1\<rparr>))"
proof
  fix k
  have at1: "sp_at s1 = (sp_at s)(h := InOpen p flags t0 now)" "v_handles (sp_served s1) = (v_handles (sp_served s))(h := f)"
    "v_globals (sp_served s1) = (v_globals (sp_served s))\<lparr>g_blackholeFS := fs1\<rparr>"
    by (simp_all add: s1 put_progress_def)
  show "finished bhOss s1 k = ((finished bhOss s)
    (h := Open_finish bhOss p flags t0 now f ((v_globals (sp_served s))\<lparr>g_blackholeFS := marks_off R fs1\<rparr>))) k"
  proof (cases "k = h")
    case True
    then show ?thesis by (auto simp: finished_def at1 file_of_def intro!: Open_finish_cong)
  next
    case False
    show ?thesis
    proof (cases "sp_at s k")
      case (InOpen q fl t n)
      then obtain u where "getStub (v_fs (sp_served s)) (m_path (v_handles (sp_served s) k)) = Some u"
        using under_way_open [OF assms(1)] by blast
      note u = this keptD [OF assms(2) _ this]
      have "Open_finish bhOss q fl t n (v_handles (sp_served s) k) (v_globals (sp_served s1)) =
          Open_finish bhOss q fl t n (v_handles (sp_served s) k) (v_globals (sp_served s))"
        by (rule Open_finish_cong) (use u InOpen in \<open>simp_all add: at1\<close>)
      then show ?thesis using False InOpen by (simp add: finished_def at1 Let_def)
    qed (use False in \<open>simp_all add: finished_def at1 Let_def\<close>)
  qed
qed

lemma under_way_opened:
  assumes "under_way s" "kept s fs1" "sp_at s h = Resting" "getStub fs1 p \<noteq> None" "m_path f = p"
    and writer: "\<And>k. sp_at s k = InClose \<Longrightarrow> was_write (m_stats (v_handles (sp_served s) k)) \<Longrightarrow>
      getStub fs1 (m_path (v_handles (sp_served s) k)) \<noteq> getStub fs1 p"
    and others: "\<And>q u. getStub fs1 q = Some u \<Longrightarrow> q \<noteq> p \<Longrightarrow> getStub (v_fs (sp_served s)) q = Some u"
    and s1: "s1 = put_progress h (InOpen p flags t0 now) f ((v_globals (sp_served s))\<lparr>g_blackholeFS := fs1\<rparr>) s"
  shows "under_way s1"
  unfolding under_way_def
proof
  fix k
  have at1: "sp_at s1 = (sp_at s)(h := InOpen p flags t0 now)" "v_handles (sp_served s1) = (v_handles (sp_served s))(h := f)"
    "v_fs (sp_served s1) = fs1"
    by (simp_all add: s1 put_progress_def)
  show "handle_under_way s1 k"
  proof (cases "k = h")
    case True
    then show ?thesis using assms(4,5) by (simp add: handle_under_way_def at1)
  next
    case False
    show ?thesis
    proof (rule handle_under_way_keep [OF assms(1)])
      fix u
      assume "sp_at s k \<noteq> Resting" "getStub (v_fs (sp_served s)) (m_path (v_handles (sp_served s) k)) = Some u"
      then show "getStub (v_fs (sp_served s1)) (m_path (v_handles (sp_served s) k)) = Some u \<and>
        (m_isOpenWrite (cell (v_fs (sp_served s1)) u) \<longleftrightarrow> m_isOpenWrite (cell (v_fs (sp_served s)) u))"
        using keptD [OF assms(2)] by (simp add: at1)
    next
      fix j u
      assume k: "sp_at s k = InClose" "was_write (m_stats (v_handles (sp_served s) k))"
        "getStub (v_fs (sp_served s)) (m_path (v_handles (sp_served s) k)) = Some u" and j: "stub_at s1 j = Some u"
      have "getStub fs1 (m_path (v_handles (sp_served s) k)) = Some u" using keptD(1) [OF assms(2) _ k(3)] k(1) by simp
      then have "getStub fs1 p \<noteq> Some u" using writer [OF k(1,2)] by simp
      then show "stub_at s j = Some u"
        using j others [of _ u] by (cases "j = h"; cases "sp_at s j") (auto simp: stub_at_def at1 split: if_splits)
    qed (use False in \<open>simp_all add: at1\<close>)
  qed
qed

lemma settled_opened:
  assumes "under_way s" "kept s fs1" "sp_at s h = Resting"
    and s1: "s1 = put_progress h (InOpen p flags t0 now) f ((v_globals (sp_served s))\<lparr>g_blackholeFS := fs1\<rparr>) s"
    and g2: "g2 = (settled_globals s)\<lparr>g_blackholeFS := marks_off (closing_stubs s) fs1\<rparr>"
  shows "settled bhOss s1 = put_handle h (Open_finish bhOss p flags t0 now f g2) g2 (settled bhOss s)"
    and "stage_of s1 = (stage_of s)(h := In_open)"
proof -
  have at1: "sp_at s1 = (sp_at s)(h := InOpen p flags t0 now)" "v_dirs (sp_served s1) = v_dirs (sp_served s)"
    "v_globals (sp_served s1) = (v_globals (sp_served s))\<lparr>g_blackholeFS := fs1\<rparr>"
    "v_handles (sp_served s1) = (v_handles (sp_served s))(h := f)"
    by (simp_all add: s1 put_progress_def)
  have "closing_stubs s1 = closing_stubs s"
    using assms(3) by (auto simp: closing_stubs_def at1 split: if_splits) (metis progress.distinct(3))
  then show "settled bhOss s1 = put_handle h (Open_finish bhOss p flags t0 now f g2) g2 (settled bhOss s)"
    by (intro served_eqI) (simp_all add: finished_opened [OF assms(1-3) s1] g2 settled_globals_def at1)
  show "stage_of s1 = (stage_of s)(h := In_open)"
    by (auto simp: stage_of_def at1 fun_eq_iff Let_def split: progress.split)
qed

lemma open_first_ready:
  assumes "split_inv bhOss s" "courteous (OpenFirst h p flags mode t0 now) (abs_split bhOss s)"
  shows "polite (COpen h p flags mode t0 now) (abs_served (settled bhOss s))"
    and "undisturbed (COpen h p flags mode t0 now) (stage_of s)" and "sp_at s h = Resting"
    and "open_fs p flags mode (marks_off (closing_stubs s) (v_fs (sp_served s))) =
      apsnd (marks_off (closing_stubs s)) (open_fs p flags mode (v_fs (sp_served s)))"
proof -
  show "polite (COpen h p flags mode t0 now) (abs_served (settled bhOss s))" "sp_at s h = Resting"
    and und: "undisturbed (COpen h p flags mode t0 now) (stage_of s)"
    using assms(2) by (auto simp: ready_def abs_split_def stage_of_def Let_def split: progress.splits)
  have "under_way s" "fs_inv (v_fs (sp_served s))"
    using assms(1) served_inv_fs [of "settled bhOss s"] by (simp_all add: split_inv_def)
  then show "open_fs p flags mode (marks_off (closing_stubs s) (v_fs (sp_served s))) =
      apsnd (marks_off (closing_stubs s)) (open_fs p flags mode (v_fs (sp_served s)))"
    using und by (intro open_marks_off open_disjoint)
qed

lemma open_refused_agrees:
  assumes inv: "split_inv bhOss s" and ok: "courteous (OpenFirst h p flags mode t0 now) (abs_split bhOss s)"
    and room: "uint (m_fd_last (v_fs (sp_served s))) + 1 < 2 ^ 31"
    and refused: "\<not> 0 \<le> fst (open_fs p flags mode (v_fs (sp_served s)))"
  shows "agrees bhOss (OpenFirst h p flags mode t0 now) s"
proof -
  let ?v = "sp_served s" and ?w = "settled bhOss s" and ?c = "COpen h p flags mode t0 now"
  let ?f1 = "(v_handles ?v h)\<lparr>m_path := p\<rparr>"
  let ?s1 = "s\<lparr>sp_served := put_handle h ?f1 (v_globals ?v) ?v\<rparr>"
  have uw: "under_way s" and winv: "served_inv ?w" using inv by (simp_all add: split_inv_def)
  note rdy = open_first_ready [OF inv ok]
  define rc where "rc = fst (open_fs p flags mode (v_fs ?v))"
  have o: "open_fs p flags mode (v_fs ?v) = (rc, v_fs ?v)" "rc < 0"
    using open_fs_refused [OF room refused] refused by (simp_all add: rc_def prod_eq_iff)
  have ex: "split_exec bhOss (OpenFirst h p flags mode t0 now) s = (Some (Rc rc), ?s1)"
    using o rdy(3) by (simp add: Open_begin_def put_progress_def fun_upd_idem Let_def)
  have "serve_call bhOss ?c ?w = (Rc rc, put_handle h ?f1 (settled_globals s) ?w)"
    using o rdy(4) by (simp add: Open_def Open_begin_def finished_resting [OF rdy(3)])
  then have "serve_call bhOss ?c ?w = (Rc rc, settled bhOss ?s1)" unfolding settled_put [OF rdy(3)] .
  moreover have "simulates bhOss ?c ?w" using simulates_open(1) [OF winv rdy(1)] room by simp
  moreover have "under_way ?s1" "stage_of ?s1 = stage_of s"
    using under_way_put [OF uw rdy(3)] stage_of_put [OF rdy(3)] by simp_all
  ultimately show ?thesis
    using o(2) unfolding agrees_def ex by (simp add: simulates_def abs_split_def split_inv_def)
qed

lemma open_first_agrees:
  assumes inv: "split_inv bhOss s" and ok: "courteous (OpenFirst h p flags mode t0 now) (abs_split bhOss s)"
    and room: "uint (m_fd_last (v_fs (sp_served s))) + 1 < 2 ^ 31"
  shows "agrees bhOss (OpenFirst h p flags mode t0 now) s"
proof (cases "0 \<le> fst (open_fs p flags mode (v_fs (sp_served s)))")
  case False
  then show ?thesis by (rule open_refused_agrees [OF inv ok room])
next
  case True
  let ?v = "sp_served s" and ?w = "settled bhOss s" and ?c = "COpen h p flags mode t0 now"
  let ?fs = "v_fs ?v" and ?f1 = "(v_handles ?v h)\<lparr>m_path := p\<rparr>"
  have uw: "under_way s" and winv: "served_inv ?w" and fsi: "fs_inv ?fs"
    using inv served_inv_fs [of ?w] by (simp_all add: split_inv_def)
  note rdy = open_first_ready [OF inv ok]
  obtain fs1 where o: "open_fs p flags mode ?fs = (uint (m_fd_last ?fs) + 1, fs1)"
    "uint (m_fd_last fs1) = uint (m_fd_last ?fs) + 1" and kept: "kept s fs1" and p: "getStub fs1 p \<noteq> None"
    and writer: "\<And>k. sp_at s k = InClose \<Longrightarrow> was_write (m_stats (v_handles ?v k)) \<Longrightarrow>
      getStub fs1 (m_path (v_handles ?v k)) \<noteq> getStub fs1 p"
    and others: "\<And>q u. getStub fs1 q = Some u \<Longrightarrow> q \<noteq> p \<Longrightarrow> getStub ?fs q = Some u"
    using open_kept [OF uw fsi room rdy(1,2) True] by blast
  let ?g1 = "(v_globals ?v)\<lparr>g_blackholeFS := fs1\<rparr>"
  let ?g2 = "(settled_globals s)\<lparr>g_blackholeFS := marks_off (closing_stubs s) fs1\<rparr>"
  let ?s1 = "put_progress h (InOpen p flags t0 now) ?f1 ?g1 s"
  have pos: "\<not> uint (m_fd_last ?fs) + 1 < 0" using uint_nonnegative [of "m_fd_last ?fs"] by linarith
  have ex: "split_exec bhOss (OpenFirst h p flags mode t0 now) s = (None, ?s1)"
    using o(1) pos by (simp add: Open_begin_def Let_def)
  have fd: "m_fd_last (v_fs (sp_served ?s1)) = m_fd_last fs1" by (simp add: put_progress_def)
  have "serve_call bhOss ?c ?w = (Rc 0, put_handle h (Open_finish bhOss p flags t0 now ?f1 ?g2) ?g2 ?w)"
    using o(1) pos rdy(4) by (simp add: Open_def Open_begin_def finished_resting [OF rdy(3)])
  then have "serve_call bhOss ?c ?w = (Rc 0, settled bhOss ?s1)"
    unfolding settled_opened(1) [OF uw kept rdy(3) refl refl] .
  moreover have "simulates bhOss ?c ?w" using simulates_open(1) [OF winv rdy(1)] room by simp
  moreover have "under_way ?s1"
    by (rule under_way_opened [OF uw kept rdy(3) p _ writer others refl]) simp
  ultimately show ?thesis
    using o(2) unfolding agrees_def ex by (simp add: fd simulates_def abs_split_def split_inv_def
      settled_opened(2) [OF uw kept rdy(3) refl refl])
qed

text \<open>The second half of an open only makes what was to come.\<close>

lemma settled_rest:
  assumes "finished bhOss s h = f" "g_statsManager g = g_statsManager (v_globals (sp_served s))"
    and "marks_off (closing_stubs (put_progress h Resting f g s)) (g_blackholeFS g) =
      marks_off (closing_stubs s) (v_fs (sp_served s))"
    and "\<And>r. file_of (cell (g_blackholeFS g) r) = file_of (cell (v_fs (sp_served s)) r)"
    and "\<And>r. m_stat (cell (g_blackholeFS g) r) = m_stat (cell (v_fs (sp_served s)) r)"
    and "getStub (g_blackholeFS g) = getStub (v_fs (sp_served s))"
  shows "settled bhOss (put_progress h Resting f g s) = settled bhOss s"
    and "stage_of (put_progress h Resting f g s) = (stage_of s)(h := At_rest)"
proof -
  let ?s = "put_progress h Resting f g s"
  have at: "sp_at ?s = (sp_at s)(h := Resting)" "v_handles (sp_served ?s) = (v_handles (sp_served s))(h := f)"
    "v_globals (sp_served ?s) = g" "v_dirs (sp_served ?s) = v_dirs (sp_served s)"
    by (simp_all add: put_progress_def)
  have "finished bhOss ?s k = finished bhOss s k" for k
  proof (cases "k = h")
    case True
    then show ?thesis using assms(1) by (simp add: finished_def at)
  next
    case False
    have "Open_finish bhOss p flags t0 now (v_handles (sp_served s) k) g =
        Open_finish bhOss p flags t0 now (v_handles (sp_served s) k) (v_globals (sp_served s))" for p flags t0 now
      by (rule Open_finish_cong) (simp_all add: assms(4-6))
    then show ?thesis using False by (simp add: finished_def at Let_def cong: progress.case_cong)
  qed
  then show "settled bhOss ?s = settled bhOss s"
    using assms(2,3) by (intro served_eqI) (auto simp: settled_globals_def at)
  show "stage_of ?s = (stage_of s)(h := At_rest)"
    by (auto simp: stage_of_def at fun_eq_iff Let_def split: progress.split)
qed

lemma open_second_agrees:
  assumes "split_inv bhOss s" "courteous (OpenSecond h) (abs_split bhOss s)"
  shows "agrees bhOss (OpenSecond h) s"
proof -
  let ?v = "sp_served s"
  have uw: "under_way s" using assms(1) by (simp add: split_inv_def)
  obtain p flags t0 now where h: "sp_at s h = InOpen p flags t0 now"
    using assms(2) by (cases "sp_at s h") (auto simp: abs_split_def stage_of_def Let_def)
  let ?f = "Open_finish bhOss p flags t0 now (v_handles ?v h) (v_globals ?v)"
  let ?s = "put_progress h Resting ?f (v_globals ?v) s"
  have fin: "finished bhOss s h = ?f" using h by (simp add: finished_def Let_def)
  have ex: "split_exec bhOss (OpenSecond h) s = (Some (Rc 0), ?s)" using h by (simp add: Let_def)
  have at: "sp_at ?s = (sp_at s)(h := Resting)" "v_handles (sp_served ?s) = (v_handles ?v)(h := ?f)"
    "v_globals (sp_served ?s) = v_globals ?v"
    by (simp_all add: put_progress_def)
  have "closing_stubs ?s = closing_stubs s"
    using h by (auto simp: closing_stubs_def at split: if_splits) (metis progress.distinct(5))
  then have set: "settled bhOss ?s = settled bhOss s" "stage_of ?s = (stage_of s)(h := At_rest)"
    by (intro settled_rest [OF fin]; simp)+
  have stub: "stub_at ?s j = stub_at s j" for j
  proof (cases "j = h")
    case True
    have "m_stub ?f = getStub (v_fs ?v) p" using under_way_open [OF uw h] by (simp add: Open_finish_def Let_def)
    then show ?thesis using True h by (simp add: stub_at_def at)
  qed (simp add: stub_at_def at cong: progress.case_cong)
  have "handle_under_way ?s k" for k
    by (cases "k = h") (simp_all add: handle_at_rest at, intro handle_under_way_keep [OF uw], simp_all add: at stub)
  then have "under_way ?s" by (simp add: under_way_def)
  then show ?thesis
    using assms(1) unfolding agrees_def ex by (simp add: abs_split_def split_inv_def set at)
qed

section \<open>Closes, half by half\<close>

lemma stub_at_finished:
  assumes "under_way s" "sp_at s k \<noteq> InClose"
  shows "stub_at s k = m_stub (finished bhOss s k)"
proof (cases "sp_at s k")
  case (InOpen p flags t0 now)
  obtain r where "getStub (v_fs (sp_served s)) p = Some r" "m_stub (finished bhOss s k) = Some r"
    by (rule finished_open [OF assms(1) InOpen])
  then show ?thesis using InOpen by (simp add: stub_at_def)
qed (use assms(2) in \<open>simp_all add: stub_at_def finished_def\<close>)

text \<open>A handle at rest and the file it is about to close.\<close>

lemma about_to_close:
  assumes "split_inv bhOss s" "sp_at s h = Resting" "m_stub (v_handles (sp_served s) h) = Some r"
  shows "getStub (v_fs (sp_served s)) (m_path (v_handles (sp_served s) h)) = Some r"
    and "m_isOpenWrite (cell (v_fs (sp_served s)) r) \<longleftrightarrow> was_write (m_stats (v_handles (sp_served s) h))"
    and "m_isOpenWrite (cell (v_fs (settled bhOss s)) r) \<longleftrightarrow> was_write (m_stats (v_handles (sp_served s) h))"
    and "\<And>k. k \<noteq> h \<Longrightarrow> stub_at s k = Some r \<Longrightarrow> \<not> was_write (m_stats (v_handles (sp_served s) h))"
proof -
  let ?f = "v_handles (sp_served s) h" and ?w = "settled bhOss s"
  have uw: "under_way s" and w: "served_inv ?w" using assms(1) by (simp_all add: split_inv_def)
  have fin: "v_handles ?w h = ?f" using finished_resting [OF assms(2)] by simp
  show "getStub (v_fs (sp_served s)) (m_path ?f) = Some r"
    using served_inv_fits [OF w, of h] assms(3) unfolding fin handle_fits_def by simp
  have own: "m_stub (v_handles ?w h) = Some r" unfolding fin by (rule assms(3))
  then have "m_isOpenWrite (cell (v_fs ?w) r) \<longleftrightarrow> was_write (m_stats (v_handles ?w h))"
    using w unfolding served_inv_def by blast
  then show mark: "m_isOpenWrite (cell (v_fs ?w) r) \<longleftrightarrow> was_write (m_stats ?f)" unfolding fin .
  have closing: "\<not> m_isOpenWrite (cell (v_fs (sp_served s)) r)" if r: "r \<in> closing_stubs s"
  proof -
    obtain j where j: "sp_at s j = InClose" "m_stub (v_handles (sp_served s) j) = Some r"
      using r by (auto simp: closing_stubs_def)
    have "stub_at s h = Some r" "h \<noteq> j" using assms(2,3) j(1) by (auto simp: stub_at_def)
    obtain u where u: "m_stub (v_handles (sp_served s) j) = Some u"
      "m_isOpenWrite (cell (v_fs (sp_served s)) u) \<longleftrightarrow> was_write (m_stats (v_handles (sp_served s) j))"
      "\<And>k. k \<noteq> j \<Longrightarrow> stub_at s k = Some u \<Longrightarrow> \<not> was_write (m_stats (v_handles (sp_served s) j))"
      using under_way_close [OF uw j(1)] by blast
    then have "u = r" using j(2) by simp
    then show ?thesis using u(2) u(3) [OF \<open>h \<noteq> j\<close>] \<open>stub_at s h = Some r\<close> by simp
  qed
  then show "m_isOpenWrite (cell (v_fs (sp_served s)) r) \<longleftrightarrow> was_write (m_stats ?f)"
    using mark by auto
  fix k
  assume k: "k \<noteq> h" "stub_at s k = Some r"
  show "\<not> was_write (m_stats ?f)"
  proof (cases "sp_at s k = InClose")
    case True
    then have "r \<in> closing_stubs s" using k(2) by (auto simp: closing_stubs_def stub_at_def)
    then show ?thesis using mark by simp
  next
    case False
    then have "m_stub (v_handles ?w k) = Some r" using stub_at_finished [OF uw False, of bhOss] k(2) by simp
    then show ?thesis
      using mark w k(1) own unfolding served_inv_def by blast
  qed
qed

lemma Close_begin_eq:
  "Close_begin t r f g = (f\<lparr>m_end := t, m_stats := close_stats t f\<rparr>,
     g\<lparr>g_blackholeFS := upd_stub r (if m_isOpenWrite (cell (g_blackholeFS g) r) then set_size (out_bytes f) else id)
          (g_blackholeFS g),
       g_statsManager := recordTransfer (close_stats t f) (g_statsManager g)\<rparr>)"
  by (simp add: Close_begin_def Let_def close_stats_def out_bytes_def set_size_def [abs_def] upd_stub_def fun_upd_idem)

lemma marks_off_close:
  assumes "\<And>x b. u (x\<lparr>m_isOpenWrite := b\<rparr>) = (u x)\<lparr>m_isOpenWrite := b\<rparr>" "\<And>x. m_isOpenWrite (u x) = m_isOpenWrite x"
  shows "marks_off (insert r R) (upd_stub r u fs) =
    upd_stub r (\<lambda>x. x\<lparr>m_isOpenWrite := False\<rparr>) (upd_stub r u (marks_off R fs))"
  using assms by (cases fs) (auto simp: marks_off_def upd_stub_def fun_eq_iff)

text \<open>When the size changes, the writer has the file to itself.\<close>

lemma finished_closing:
  assumes "split_inv bhOss s" "sp_at s h = Resting" "m_stub (v_handles (sp_served s) h) = Some r"
    and "was_write (m_stats (v_handles (sp_served s) h)) \<or> u = id"
    and s1: "s1 = put_progress h InClose f
      ((v_globals (sp_served s))\<lparr>g_blackholeFS := upd_stub r u (v_fs (sp_served s)), g_statsManager := stats\<rparr>) s"
  shows "finished bhOss s1 = (finished bhOss s)(h := f\<lparr>m_stub := None\<rparr>)"
proof
  fix k
  let ?v = "sp_served s"
  have uw: "under_way s" using assms(1) by (simp add: split_inv_def)
  have at1: "sp_at s1 = (sp_at s)(h := InClose)" "v_handles (sp_served s1) = (v_handles ?v)(h := f)"
    "v_globals (sp_served s1) = (v_globals ?v)\<lparr>g_blackholeFS := upd_stub r u (v_fs ?v), g_statsManager := stats\<rparr>"
    by (simp_all add: s1 put_progress_def)
  show "finished bhOss s1 k = ((finished bhOss s)(h := f\<lparr>m_stub := None\<rparr>)) k"
  proof (cases "k = h")
    case False
    have "cell (upd_stub r u (v_fs ?v)) i = cell (v_fs ?v) i"
      if "sp_at s k = InOpen q fl t0 n" "getStub (v_fs ?v) (m_path (v_handles ?v k)) = Some i" for i q fl t0 n
    proof -
      have "m_path (v_handles ?v k) = q" using under_way_open [OF uw that(1)] by blast
      then have "stub_at s k = Some i" using that by (simp add: stub_at_def)
      then show ?thesis using about_to_close(4) [OF assms(1-3) False] assms(4) by (cases "i = r") auto
    qed
    then have "Open_finish bhOss q fl t0 n (v_handles ?v k) (v_globals (sp_served s1)) =
        Open_finish bhOss q fl t0 n (v_handles ?v k) (v_globals ?v)"
      if "sp_at s k = InOpen q fl t0 n" for q fl t0 n
      using that by (intro Open_finish_cong) (simp_all add: at1)
    then show ?thesis using False by (cases "sp_at s k") (simp_all add: finished_def at1 Let_def)
  qed (simp add: finished_def at1)
qed

lemma under_way_closing:
  assumes "split_inv bhOss s" "sp_at s h = Resting" "m_stub (v_handles (sp_served s) h) = Some r"
    and "\<And>x. m_isOpenWrite (u x) = m_isOpenWrite x" "m_stub f = Some r"
    and f: "m_path f = m_path (v_handles (sp_served s) h)"
      "was_write (m_stats f) = was_write (m_stats (v_handles (sp_served s) h))"
    and s1: "s1 = put_progress h InClose f
      ((v_globals (sp_served s))\<lparr>g_blackholeFS := upd_stub r u (v_fs (sp_served s)), g_statsManager := stats\<rparr>) s"
  shows "under_way s1" and "stage_of s1 = (stage_of s)(h := In_close (m_path f) (was_write (m_stats f)))"
proof -
  have uw: "under_way s" using assms(1) by (simp add: split_inv_def)
  have at1: "sp_at s1 = (sp_at s)(h := InClose)" "v_handles (sp_served s1) = (v_handles (sp_served s))(h := f)"
    "v_fs (sp_served s1) = upd_stub r u (v_fs (sp_served s))"
    by (simp_all add: s1 put_progress_def)
  show "stage_of s1 = (stage_of s)(h := In_close (m_path f) (was_write (m_stats f)))"
    by (auto simp: stage_of_def at1 fun_eq_iff Let_def split: progress.split)
  have stub: "stub_at s1 j = stub_at s j" for j
    using assms(2,3,5) by (simp add: stub_at_def at1 cong: progress.case_cong)
  have "handle_under_way s1 k" for k
  proof (cases "k = h")
    case True
    then show ?thesis
      using assms(5) about_to_close(1,2,4) [OF assms(1-3)]
      by (simp add: handle_under_way_def at1 stub f assms(4))
  next
    case False
    then show ?thesis by (intro handle_under_way_keep [OF uw]) (simp_all add: at1 stub assms(4))
  qed
  then show "under_way s1" by (simp add: under_way_def)
qed

lemma close_first_agrees:
  assumes inv: "split_inv bhOss s" and ok: "courteous (CloseFirst h t) (abs_split bhOss s)"
  shows "agrees bhOss (CloseFirst h t) s"
proof (cases "m_stub (v_handles (sp_served s) h)")
  case None
  have "sp_at s h = Resting"
    using ok by (auto simp: ready_def abs_split_def stage_of_def Let_def split: progress.splits)
  then have "m_stub (finished bhOss s h) = None" using None by (simp add: finished_resting)
  then show ?thesis
    using None inv by (simp add: agrees_def abs_split_def store_close_def session_of_def Let_def)
next
  case (Some r)
  let ?v = "sp_served s" and ?w = "settled bhOss s" and ?R = "closing_stubs s"
  let ?fs = "v_fs ?v" and ?f = "v_handles ?v h"
  have rest: "sp_at s h = Resting"
    using ok by (auto simp: ready_def abs_split_def stage_of_def Let_def split: progress.splits)
  have winv: "served_inv ?w" using inv by (simp add: split_inv_def)
  note here = about_to_close [OF inv rest Some]
  have fh: "finished bhOss s h = ?f" by (rule finished_resting [OF rest])
  define u where "u = (if was_write (m_stats ?f) then set_size (out_bytes ?f) else id)"
  have u: "was_write (m_stats ?f) \<or> u = id" "\<And>x. m_isOpenWrite (u x) = m_isOpenWrite x" by (simp_all add: u_def)
  let ?f1 = "?f\<lparr>m_end := t, m_stats := close_stats t ?f\<rparr>"
  let ?stats = "recordTransfer (close_stats t ?f) (g_statsManager (v_globals ?v))"
  let ?g1 = "(v_globals ?v)\<lparr>g_blackholeFS := upd_stub r u ?fs, g_statsManager := ?stats\<rparr>"
  let ?g2 = "(settled_globals s)\<lparr>g_blackholeFS := marks_off (insert r ?R) (upd_stub r u ?fs), g_statsManager := ?stats\<rparr>"
  let ?s1 = "put_progress h InClose ?f1 ?g1 s"
  have ex: "split_exec bhOss (CloseFirst h t) s = (None, ?s1)"
    using Some here(2) by (simp add: Close_begin_eq Let_def u_def)
  have "marks_off (insert r ?R) (upd_stub r u ?fs) =
      upd_stub r (\<lambda>x. x\<lparr>m_isOpenWrite := False\<rparr>) (upd_stub r u (marks_off ?R ?fs))"
    by (rule marks_off_close) (simp_all add: set_size_def u_def)
  then have sc: "serve_call bhOss (CClose h t) ?w = (Rc 0, put_handle h (?f1\<lparr>m_stub := None\<rparr>) ?g2 ?w)"
    using here(1,3) by (simp add: fh Close_eq [OF Some] close_fs_found u_def)
  have at1: "sp_at ?s1 = (sp_at s)(h := InClose)" "v_handles (sp_served ?s1) = (v_handles ?v)(h := ?f1)"
    "v_globals (sp_served ?s1) = ?g1" "v_dirs (sp_served ?s1) = v_dirs ?v"
    by (simp_all add: put_progress_def)
  have R1: "closing_stubs ?s1 = insert r ?R"
    using rest Some by (auto simp: closing_stubs_def at1 split: if_splits) (metis progress.distinct(3))
  have set: "settled bhOss ?s1 = snd (serve_call bhOss (CClose h t) ?w)"
    unfolding sc
    by (rule served_eqI) (simp_all add: finished_closing [OF inv rest Some u(1) refl] settled_globals_def R1 at1)
  have ww: "was_write (close_stats t ?f) \<longleftrightarrow> was_write (m_stats ?f)" by (simp add: close_stats_def)
  have next_state: "under_way ?s1" "stage_of ?s1 = (stage_of s)(h := In_close (m_path ?f) (was_write (m_stats ?f)))"
    using under_way_closing [OF inv rest Some u(2) _ _ _ refl, of ?f1] Some ww by simp_all
  have "store_exec (CClose h t) (abs_served ?w) = (Rc 0, abs_served (settled bhOss ?s1))"
    "served_inv (settled bhOss ?s1)"
    using simulates_close [OF winv, of bhOss h t] unfolding simulates_def set sc by simp_all
  then show ?thesis
    using Some fh unfolding agrees_def ex by (simp add: abs_split_def split_inv_def next_state session_of_stub at1)
qed

lemma close_second_agrees:
  assumes inv: "split_inv bhOss s" and ok: "courteous (CloseSecond h) (abs_split bhOss s)"
  shows "agrees bhOss (CloseSecond h) s"
proof -
  let ?v = "sp_served s"
  let ?fs = "v_fs ?v" and ?f = "v_handles ?v h"
  have uw: "under_way s" using inv by (simp add: split_inv_def)
  have h: "sp_at s h = InClose"
    using ok by (cases "sp_at s h") (auto simp: abs_split_def stage_of_def Let_def)
  obtain r where r: "m_stub ?f = Some r" "getStub ?fs (m_path ?f) = Some r"
    "m_isOpenWrite (cell ?fs r) \<longleftrightarrow> was_write (m_stats ?f)"
    "\<And>k. k \<noteq> h \<Longrightarrow> stub_at s k = Some r \<Longrightarrow> \<not> was_write (m_stats ?f)"
    using under_way_close [OF uw h] by blast
  let ?fs1 = "upd_stub r (\<lambda>x. x\<lparr>m_isOpenWrite := False\<rparr>) ?fs"
  let ?g1 = "(v_globals ?v)\<lparr>g_blackholeFS := ?fs1\<rparr>" and ?f1 = "?f\<lparr>m_stub := None\<rparr>"
  let ?s1 = "put_progress h Resting ?f1 ?g1 s"
  have fin: "finished bhOss s h = ?f1" using h by (simp add: finished_def)
  have ex: "split_exec bhOss (CloseSecond h) s = (Some (Rc 0), ?s1)"
    using h r(2) by (simp add: Close_finish_def close_fs_found Let_def)
  have at1: "sp_at ?s1 = (sp_at s)(h := Resting)" "v_handles (sp_served ?s1) = (v_handles ?v)(h := ?f1)"
    "v_globals (sp_served ?s1) = ?g1"
    by (simp_all add: put_progress_def)
  have R: "q \<in> closing_stubs ?s1 \<longleftrightarrow> q \<in> closing_stubs s" if "q \<noteq> r" for q
    using that r(1) by (auto simp: closing_stubs_def at1 split: if_splits) (metis option.inject)
  have "r \<in> closing_stubs s" using h r(1) by (auto simp: closing_stubs_def)
  then have "marks_off (closing_stubs ?s1) ?fs1 = marks_off (closing_stubs s) ?fs"
    using R by (auto simp: marks_off_def upd_stub_def fun_eq_iff)
  then have set: "settled bhOss ?s1 = settled bhOss s" "stage_of ?s1 = (stage_of s)(h := At_rest)"
    by (intro settled_rest [OF fin]; simp add: file_of_def)+
  have stub: "stub_at s j = Some u" if "stub_at ?s1 j = Some u" for j u
    using that by (cases "j = h"; cases "sp_at s j") (simp_all add: stub_at_def at1)
  have "handle_under_way ?s1 k" for k
  proof (cases "k = h")
    case False
    have "m_isOpenWrite (cell ?fs1 u) \<longleftrightarrow> m_isOpenWrite (cell ?fs u)"
      if "sp_at s k \<noteq> Resting" "getStub ?fs (m_path (v_handles ?v k)) = Some u" for u
    proof (cases "u = r")
      case True
      have "stub_at s k = Some u"
        using under_way_open [OF uw, of k] under_way_close [OF uw, of k] that
        by (cases "sp_at s k") (auto simp: stub_at_def)
      then show ?thesis using r(3) r(4) [OF False] True by simp
    qed simp
    then show ?thesis
      using False stub by (intro handle_under_way_keep [OF uw]) (simp_all add: at1)
  qed (simp add: handle_at_rest at1)
  then have "under_way ?s1" by (simp add: under_way_def)
  then show ?thesis
    using inv unfolding agrees_def ex by (simp add: abs_split_def split_inv_def set at1)
qed

end
