(* ===== verification/Split_Steps.thy ===== *)
theory Split_Steps
  imports Split_Calls Plugin
begin

text \<open>
  The two models of the running server meet here: an event of \<^verbatim>\<open>Split_Calls\<close> is at most one
  step of the transition system of \<^verbatim>\<open>Plugin\<close>, so all that holds in its reachable states
  holds in every interleaved run.
\<close>

fun phase_of :: "progress \<Rightarrow> phase" where
  "phase_of Resting = Idle"
| "phase_of (InOpen p flags t0 now) = Opening p flags"
| "phase_of InClose = Closing"

text \<open>The clients of an interleaved run use the file handles below \<open>n\<close>.\<close>

definition plugin_of :: "oss \<Rightarrow> nat \<Rightarrow> split \<Rightarrow> plugin" where
  "plugin_of bhOss n s = \<lparr>p_oss = bhOss, p_globals = v_globals (sp_served s),
     handles = (\<lambda>h. if h < n then Some (phase_of (sp_at s h), v_handles (sp_served s) h) else None)\<rparr>"

fun op_of :: "call \<Rightarrow> (nat \<times> file_op) option" where
  "op_of (CWrite h offset blen) = Some (h, DoWrite offset blen)"
| "op_of (CWriteAio h aiop) = Some (h, DoWriteAio aiop)"
| "op_of (CRead h buff offset blen) = Some (h, DoRead buff offset blen)"
| "op_of (CReadRaw h buff offset blen) = Some (h, DoReadRaw buff offset blen)"
| "op_of (CReadAio h aiop) = Some (h, DoReadAio aiop)"
| "op_of (CReadV h vs n) = Some (h, DoReadV vs n)"
| "op_of (CReadPrep h offset blen) = Some (h, DoReadPrep offset blen)"
| "op_of _ = None"

text \<open>The handle an event is about, and the state it needs.\<close>

fun event_ok :: "nat \<Rightarrow> event \<Rightarrow> split \<Rightarrow> bool" where
  "event_ok n (Whole c) s \<longleftrightarrow> plain c \<and> (\<forall>h. handle_of c = Some h \<longrightarrow> h < n \<and> sp_at s h = Resting)"
| "event_ok n (OpenFirst h p flags mode t0 now) s \<longleftrightarrow> h < n \<and> sp_at s h = Resting"
| "event_ok n (OpenSecond h) s \<longleftrightarrow> h < n"
| "event_ok n (CloseFirst h t) s \<longleftrightarrow> h < n \<and> sp_at s h = Resting"
| "event_ok n (CloseSecond h) s \<longleftrightarrow> h < n"

lemma plugin_of_put:
  "h < n \<Longrightarrow> plugin_of bhOss n (put_progress h ph f g s) = set_handle h (phase_of ph) f g (plugin_of bhOss n s)"
  by (auto simp: plugin_of_def put_progress_def set_handle_def fun_eq_iff)

lemma plugin_of_at:
  "p_fs (plugin_of bhOss n s) = v_fs (sp_served s)" "p_globals (plugin_of bhOss n s) = v_globals (sp_served s)"
  "p_oss (plugin_of bhOss n s) = bhOss"
  "h < n \<Longrightarrow> handles (plugin_of bhOss n s) h = Some (phase_of (sp_at s h), v_handles (sp_served s) h)"
  by (simp_all add: plugin_of_def)

lemma put_progress_resting:
  "sp_at s h = Resting \<Longrightarrow> s\<lparr>sp_served := put_handle h f g (sp_served s)\<rparr> = put_progress h Resting f g s"
  by (simp add: put_progress_def fun_upd_idem)

lemma op_call:
  assumes "op_of c = Some (h, oper)"
  shows "handle_of c = Some h"
    and "snd (serve_call bhOss c v) = put_handle h (snd (do_op oper (v_handles v h))) (v_globals v) v"
  using assms by (cases c; auto simp: case_prod_beta Let_def)+

lemma whole_steps:
  assumes "event_ok n (Whole c) s"
  shows "step\<^sup>*\<^sup>* (plugin_of bhOss n s) (plugin_of bhOss n (s\<lparr>sp_served := snd (serve_call bhOss c (sp_served s))\<rparr>))"
proof (cases "op_of c")
  case (Some ho)
  then obtain h oper where op: "op_of c = Some (h, oper)" by (cases ho) auto
  have h: "h < n" "sp_at s h = Resting" using assms op_call(1) [OF op] by auto
  show ?thesis
    using step.io [of "plugin_of bhOss n s" h _ oper] h
    by (simp only: op_call(2) [OF op] put_progress_resting [OF h(2)] plugin_of_put [OF h(1)])
      (auto simp only: plugin_of_at phase_of.simps intro: r_into_rtranclp)
next
  case None
  have same: "plugin_of bhOss n (s\<lparr>sp_served := v\<rparr>) = plugin_of bhOss n s"
    if "v_globals v = v_globals (sp_served s)" "v_handles v = v_handles (sp_served s)" for v
    using that by (simp add: plugin_of_def cong: if_cong)
  have ns: "plugin_of bhOss n (s\<lparr>sp_served := (sp_served s)\<lparr>v_globals := g\<rparr>\<rparr>) = (plugin_of bhOss n s)\<lparr>p_globals := g\<rparr>" for g
    by (simp add: plugin_of_def cong: if_cong)
  show ?thesis
  proof (cases c)
    case (CRename p q)
    obtain rc g where "Rename p q (v_globals (sp_served s)) = (rc, g)" by (metis surj_pair)
    then show ?thesis using step.rename [of p q "plugin_of bhOss n s" rc g] CRename
      by (simp add: ns plugin_of_at r_into_rtranclp)
  next
    case (CUnlink p)
    obtain rc g where "Unlink p 0 (v_globals (sp_served s)) = (rc, g)" by (metis surj_pair)
    then show ?thesis using step.unlink [of p 0 "plugin_of bhOss n s" rc g] CUnlink
      by (simp add: ns plugin_of_at r_into_rtranclp)
  qed (use None assms in \<open>simp_all add: same case_prod_beta Let_def\<close>)
qed

lemma event_steps:
  assumes "event_ok n e s" "m_fd_last (v_fs (sp_served s)) \<noteq> - 1"
  shows "step\<^sup>*\<^sup>* (plugin_of bhOss n s) (plugin_of bhOss n (snd (split_exec bhOss e s)))"
proof (cases e)
  case (Whole c)
  then show ?thesis using whole_steps [of n c s bhOss] assms(1) by (simp add: case_prod_beta Let_def)
next
  case (OpenFirst h p flags mode t0 now)
  let ?f = "v_handles (sp_served s) h"
  obtain rc f1 g1 where o: "Open_begin p flags mode ?f (v_globals (sp_served s)) = (rc, f1, g1)"
    by (metis prod_cases3)
  have h: "h < n" "sp_at s h = Resting" using assms(1) OpenFirst by simp_all
  then have at: "handles (plugin_of bhOss n s) h = Some (Idle, ?f)" by (simp add: plugin_of_at)
  have fd: "m_fd_last (p_fs (plugin_of bhOss n s)) \<noteq> - 1" using assms(2) by (simp add: plugin_of_at)
  have o': "Open_begin p flags mode ?f (p_globals (plugin_of bhOss n s)) = (rc, f1, g1)" using o by (simp add: plugin_of_at)
  have "step (plugin_of bhOss n s) (plugin_of bhOss n (snd (split_exec bhOss e s)))"
  proof (cases "rc < 0")
    case True
    then show ?thesis using step.open_fail [OF at fd o' True] o OpenFirst h(1)
      by (simp add: plugin_of_put Let_def del: set_handle_simps)
  next
    case False
    then show ?thesis using step.open_begin [OF at fd o'] o OpenFirst h(1)
      by (simp add: plugin_of_put Let_def del: set_handle_simps)
  qed
  then show ?thesis by (rule r_into_rtranclp)
next
  case (OpenSecond h)
  show ?thesis
  proof (cases "sp_at s h")
    case (InOpen p flags t0 now)
    have h: "h < n" using assms(1) OpenSecond by simp
    then have "handles (plugin_of bhOss n s) h = Some (Opening p flags, v_handles (sp_served s) h)"
      using InOpen by (simp add: plugin_of_at)
    from step.open_finish [OF this, of t0 now] show ?thesis
      using OpenSecond InOpen h
      by (simp add: plugin_of_put plugin_of_at Let_def r_into_rtranclp del: set_handle_simps)
  qed (simp_all add: OpenSecond)
next
  case (CloseFirst h t)
  have h: "h < n" "sp_at s h = Resting" using assms(1) CloseFirst by simp_all
  then have at: "handles (plugin_of bhOss n s) h = Some (Idle, v_handles (sp_served s) h)" by (simp add: plugin_of_at)
  show ?thesis
  proof (cases "m_stub (v_handles (sp_served s) h)")
    case None
    then show ?thesis using CloseFirst by (simp add: Let_def)
  next
    case (Some r)
    obtain f1 g1 where c: "Close_begin t r (v_handles (sp_served s) h) (v_globals (sp_served s)) = (f1, g1)"
      by (metis surj_pair)
    then have "step (plugin_of bhOss n s) (set_handle h Closing f1 g1 (plugin_of bhOss n s))"
      by (intro step.close_begin [OF at Some, of t]) (simp add: plugin_of_at)
    then show ?thesis using CloseFirst Some c h(1)
      by (simp add: plugin_of_put Let_def r_into_rtranclp del: set_handle_simps)
  qed
next
  case (CloseSecond h)
  show ?thesis
  proof (cases "sp_at s h = InClose")
    case True
    have h: "h < n" using assms(1) CloseSecond by simp
    obtain f1 g1 where c: "Close_finish (v_handles (sp_served s) h) (v_globals (sp_served s)) = (f1, g1)"
      by (metis surj_pair)
    have "handles (plugin_of bhOss n s) h = Some (Closing, v_handles (sp_served s) h)"
      using True h by (simp add: plugin_of_at)
    then have "step (plugin_of bhOss n s) (set_handle h Idle f1 g1 (plugin_of bhOss n s))"
      by (rule step.close_finish) (use c in \<open>simp add: plugin_of_at\<close>)
    then show ?thesis using CloseSecond True c h
      by (simp add: plugin_of_put Let_def r_into_rtranclp del: set_handle_simps)
  qed (simp add: CloseSecond)
qed

fun on_handle :: "event \<Rightarrow> nat option" where
  "on_handle (Whole c) = handle_of c"
| "on_handle (OpenFirst h p flags mode t0 now) = Some h"
| "on_handle (OpenSecond h) = Some h"
| "on_handle (CloseFirst h t) = Some h"
| "on_handle (CloseSecond h) = Some h"

lemma stage_at_rest: "stage_of s h = At_rest \<longleftrightarrow> sp_at s h = Resting"
  by (simp add: stage_of_def Let_def split: progress.split)

lemma courteous_event_ok:
  assumes "courteous e (abs_split bhOss s)" "\<And>h. on_handle e = Some h \<Longrightarrow> h < n"
  shows "event_ok n e s"
  using assms by (cases e) (auto simp: ready_def abs_split_def stage_at_rest)

lemma start_reachable:
  "reachable bhOss (plugin_of bhOss n (rested (serve_from (p_globals (start bhOss)))))"
proof (induction n)
  case 0
  have "plugin_of bhOss 0 (rested (serve_from (p_globals (start bhOss)))) = start bhOss"
    by (simp add: plugin_of_def start_def rested_def serve_from_def)
  then show ?case using reachable.start [of bhOss] by simp
next
  case (Suc n)
  let ?s = "\<lambda>n. plugin_of bhOss n (rested (serve_from (p_globals (start bhOss))))"
  have "handles (?s n) n = None" by (simp add: plugin_of_def)
  from step.new_file [OF this, of "''client''"]
  have "step (?s n) (set_handle n Idle (newFile ''client'') (p_globals (?s n)) (?s n))" .
  moreover have "set_handle n Idle (newFile ''client'') (p_globals (?s n)) (?s n) = ?s (Suc n)"
    by (rule plugin.equality) (auto simp: plugin_of_def rested_def serve_from_def fun_eq_iff)
  ultimately have "step (?s n) (?s (Suc n))" by metis
  with Suc show ?case by (rule reachable.step)
qed

section \<open>A file that is removed while it is opened\<close>

text \<open>
  C33: When another client removes the file between the two halves of an open, the open
  still answers 0 but the handle has no stub: a read then answers EINVAL and leaves the
  buffer alone, and the close answers ENOENT and records nothing.
\<close>

theorem open_races_with_unlink:
  assumes "split_exec bhOss (OpenFirst h path flags mode t0 now) s = (None, s1)"
    and "files_wf (v_fs (sp_served s1))"
    and "split_exec bhOss (Whole (CUnlink path)) s1 = (Some (Rc 0), s2)"
  shows "let (ans, s3) = split_exec bhOss (OpenSecond h) s2;
      (rd, s4) = split_exec bhOss (Whole (CRead h buff offset blen)) s3;
      (cl, s5) = split_exec bhOss (Whole (CClose h t1)) s4
    in ans = Some (Rc 0) \<and> m_stub (v_handles (sp_served s3) h) = None \<and>
      rd = Some (Data (- 22) buff) \<and> cl = Some (Rc (- 2)) \<and>
      v_globals (sp_served s5) = v_globals (sp_served s2)"
proof -
  have s1: "sp_at s1 h = InOpen path flags t0 now" "m_path (v_handles (sp_served s1) h) = path"
    using assms(1) by (auto simp: Open_begin_def case_prod_beta Let_def put_progress_def put_handle_def split: if_splits)
  obtain g where u: "Unlink path 0 (v_globals (sp_served s1)) = (0, g)"
    "s2 = s1\<lparr>sp_served := (sp_served s1)\<lparr>v_globals := g\<rparr>\<rparr>"
    using assms(3) by (auto simp: case_prod_beta prod_eq_iff)
  have gone: "getStub (g_blackholeFS g) path = None" by (rule Unlink_gone [OF assms(2) u(1)])
  let ?f = "Open_finish bhOss path flags t0 now (v_handles (sp_served s1) h) g"
  have "m_stub ?f = None" using gone s1(2) by (simp add: Open_finish_def Let_def)
  then show ?thesis
    using s1(1) by (simp add: u(2) put_progress_def put_handle_def Read_def Close_def Let_def)
qed

theorem open_races_with_unlink_witness:
  "let s = rested (serve_from demo_g);
      (_, s1) = split_exec new_oss (OpenFirst 3 ''/r'' 0 0 0 0) s;
      (_, s2) = split_exec new_oss (Whole (CUnlink ''/r'')) s1;
      (ans, s3) = split_exec new_oss (OpenSecond 3) s2
    in ans = Some (Rc 0) \<and>
      fst (split_exec new_oss (Whole (CRead 3 [9] 0 1)) s3) = Some (Data (- 22) [9])"
proof -
  let ?s = "rested (serve_from demo_g)"
  obtain f1 g1 where o: "Open_begin ''/r'' 0 0 (v_handles (sp_served ?s) 3) demo_g = (3, f1, g1)"
    and at: "getStub (g_blackholeFS g1) ''/r'' = Some 0"
    using demo_file_facts(5) demo_g_facts(2) by (auto simp: Open_begin_def open_fs_read to_int_def)
  have inv: "fs_inv (g_blackholeFS demo_g)"
    using reachable_inv [OF demo_reachable [of 7]] by (simp add: plugin_inv_def demo_at)
  let ?s1 = "put_progress 3 (InOpen ''/r'' 0 0 0) f1 g1 ?s"
  have s1: "split_exec new_oss (OpenFirst 3 ''/r'' 0 0 0 0) ?s = (None, ?s1)"
    using o by (simp add: rested_def serve_from_def)
  have wf: "files_wf (v_fs (sp_served ?s1))"
    using Open_begin_ok(1) [OF o inv] by (simp add: demo_g_facts fs_inv_wf put_progress_def)
  obtain g2 where u: "Unlink ''/r'' 0 g1 = (0, g2)"
    using unlink_ok(1) [of "g_blackholeFS g1" "''/r''"] wf at
    by (auto simp: Unlink_def case_prod_beta put_progress_def)
  obtain s2 where s2: "split_exec new_oss (Whole (CUnlink ''/r'')) ?s1 = (Some (Rc 0), s2)"
    using u by (simp add: put_progress_def)
  from open_races_with_unlink [OF s1 wf s2, of "[9]" 0 1 0] show ?thesis
    by (simp add: s1 s2 Let_def case_prod_beta del: split_exec.simps)
qed

end
