(* ===== verification/Server_Interleaving.thy ===== *)
theory Server_Interleaving
  imports Split_Refinement Split_Steps
begin

text \<open>
  Whole runs of the interleaved server: the calls of all clients, with their halves in any
  order that the clients' rules allow, act one after the other in the order in which they
  started.
\<close>

section \<open>Runs\<close>

lemma event_agrees:
  assumes "split_inv bhOss s" "courteous e (abs_split bhOss s)" "uint (m_fd_last (v_fs (sp_served s))) + 1 < 2 ^ 31"
  shows "agrees bhOss e s"
proof (cases e)
  case (Whole c)
  show ?thesis unfolding Whole by (rule whole_agrees [OF assms [unfolded Whole]])
next
  case (OpenFirst h p flags mode t0 now)
  show ?thesis unfolding OpenFirst by (rule open_first_agrees [OF assms [unfolded OpenFirst]])
next
  case (OpenSecond h)
  show ?thesis unfolding OpenSecond by (rule open_second_agrees [OF assms(1,2) [unfolded OpenSecond]])
next
  case (CloseFirst h t)
  show ?thesis unfolding CloseFirst by (rule close_first_agrees [OF assms(1,2) [unfolded CloseFirst]])
next
  case (CloseSecond h)
  show ?thesis unfolding CloseSecond by (rule close_second_agrees [OF assms(1,2) [unfolded CloseSecond]])
qed

interpretation split: simulation "split_exec bhOss" split_spec "abs_split bhOss" courteous "split_inv bhOss"
    "\<lambda>s. uint (m_fd_last (v_fs (sp_served s)))" 1 "2 ^ 31 - 1" for bhOss
proof
  fix s e
  assume s: "split_inv bhOss s" "courteous e (abs_split bhOss s)"
    "uint (m_fd_last (v_fs (sp_served s))) + 1 \<le> 2 ^ 31 - 1"
  then have "uint (m_fd_last (v_fs (sp_served s))) + 1 < 2 ^ 31" by simp
  note agr = event_agrees [OF s(1,2) this, unfolded agrees_def case_prod_beta Let_def]
  show "split_spec e (abs_split bhOss s) =
      (fst (split_exec bhOss e s), abs_split bhOss (snd (split_exec bhOss e s)))"
    using agr by blast
  show "split_inv bhOss (snd (split_exec bhOss e s)) \<and>
      uint (m_fd_last (v_fs (sp_served (snd (split_exec bhOss e s))))) \<le> uint (m_fd_last (v_fs (sp_served s))) + 1"
    using agr by blast
qed simp

text \<open>The calls that a run starts, in this order, and what each of them answers.\<close>

fun call_of :: "event \<Rightarrow> call option" where
  "call_of (Whole c) = Some c"
| "call_of (OpenFirst h p flags mode t0 now) = Some (COpen h p flags mode t0 now)"
| "call_of (CloseFirst h t) = Some (CClose h t)"
| "call_of _ = None"

fun started :: "event list \<Rightarrow> call list" where
  "started [] = []"
| "started (e # es) = (case call_of e of None \<Rightarrow> started es | Some c \<Rightarrow> c # started es)"

text \<open>A call that goes on after its first half answers 0 in the end.\<close>

fun answers_of :: "event list \<Rightarrow> answer option list \<Rightarrow> answer list" where
  "answers_of (e # es) (out # outs) =
     (case call_of e of
        None \<Rightarrow> answers_of es outs
      | Some c \<Rightarrow> (case out of None \<Rightarrow> Rc 0 | Some ans \<Rightarrow> ans) # answers_of es outs)"
| "answers_of _ _ = []"

fun late_answers :: "event list \<Rightarrow> answer option list \<Rightarrow> answer option list" where
  "late_answers (e # es) (out # outs) =
     (case call_of e of None \<Rightarrow> out # late_answers es outs | Some c \<Rightarrow> late_answers es outs)"
| "late_answers _ _ = []"

lemma spec_linearizes:
  "run_with store_exec (started es) a =
     (answers_of es (fst (run_with split_spec es (a, st))), fst (snd (run_with split_spec es (a, st)))) \<and>
   set (late_answers es (fst (run_with split_spec es (a, st)))) \<subseteq> {Some (Rc 0)}"
proof (induction es arbitrary: a st)
  case (Cons e es)
  note ih = Cons.IH [of "fst (snd (split_spec e (a, st)))" "snd (snd (split_spec e (a, st)))"]
  show ?case
  proof (cases e)
    case (OpenFirst h p flags mode t0 now)
    then show ?thesis using ih
      by (cases "fst (store_open h p flags a) = Rc 0") (simp_all add: case_prod_beta Let_def fun_upd_def)
  next
    case (CloseFirst h t)
    have "a_sessions a h \<noteq> None \<Longrightarrow> fst (store_close h a) = Rc 0" by (auto simp: store_close_def)
    then show ?thesis using ih CloseFirst
      by (cases "a_sessions a h") (simp_all add: case_prod_beta Let_def fun_upd_def)
  qed (use ih in \<open>simp_all add: case_prod_beta Let_def fun_upd_def\<close>)
qed simp

lemma all_at_rest:
  assumes "\<forall>h. sp_at s h = Resting"
  shows "settled bhOss s = sp_served s" "stage_of s = (\<lambda>_. At_rest)"
proof -
  have "closing_stubs s = {}" using assms by (auto simp: closing_stubs_def)
  then show "settled bhOss s = sp_served s"
    using assms by (intro served_eqI) (auto simp: settled_globals_def finished_def fun_eq_iff)
  show "stage_of s = (\<lambda>_. At_rest)" using assms by (simp add: stage_of_def fun_eq_iff)
qed

lemma split_inv_rested: "split_inv bhOss (rested v) \<longleftrightarrow> served_inv v"
  using all_at_rest(1) [of "rested v" bhOss]
  by (simp add: split_inv_def under_way_def handle_at_rest rested_def)

lemma abs_split_rested: "abs_split bhOss (rested v) = (abs_served v, \<lambda>_. At_rest)"
  using all_at_rest [of "rested v"] by (simp add: abs_split_def rested_def)

text \<open>
  C2: Opens and closes, cut in the halves between which they hold no lock and
  interleaved with each other and with all other calls of any number of clients, act one
  after the other in the order in which they started: each call answers what the store
  of files answers when the calls are made whole in that order, an open or close that
  goes on after its first half answers 0 in the end, and when no call is under way the
  namespace, the handles and the byte totals are those of the store; the clients keep to
  the same rules, where a file counts as open until its close has returned.
\<close>

theorem interleaved_calls_linearize:
  assumes "fs_inv (g_blackholeFS g)"
    and "\<forall>p r. getStub (g_blackholeFS g) p = Some r \<longrightarrow> \<not> m_isOpenWrite (cell (g_blackholeFS g) r)"
    and "uint (m_fd_last (g_blackholeFS g)) + int (length es) < 2 ^ 31"
    and "run_allowed courteous split_spec es (abs_served (serve_from g), \<lambda>_. At_rest)"
  shows "let (outs, s) = run_with (split_exec bhOss) es (rested (serve_from g));
             (answers, a) = run_with store_exec (started es) (abs_served (serve_from g))
    in answers_of es outs = answers \<and> set (late_answers es outs) \<subseteq> {Some (Rc 0)} \<and>
      ((\<forall>h. sp_at s h = Resting) \<longrightarrow> abs_served (sp_served s) = a)"
proof -
  let ?s = "rested (serve_from g)" and ?a = "abs_served (serve_from g)"
  have "split_inv bhOss ?s"
    using served_inv_start [OF assms(1)] assms(2) by (simp add: split_inv_rested)
  moreover have abs: "abs_split bhOss ?s = (?a, \<lambda>_. At_rest)" by (rule abs_split_rested)
  ultimately have "run_with split_spec es (?a, \<lambda>_. At_rest) =
      (fst (run_with (split_exec bhOss) es ?s), abs_split bhOss (snd (run_with (split_exec bhOss) es ?s)))"
    using split.run_refines [of bhOss ?s es] assms(3,4) by (simp add: rested_def serve_from_def)
  then show ?thesis
    using spec_linearizes [of es ?a "\<lambda>_. At_rest"] all_at_rest(1) [of "snd (run_with (split_exec bhOss) es ?s)" bhOss]
    by (auto simp: case_prod_beta Let_def abs_split_def)
qed

text \<open>A reader opens a file while another is in the middle of its open, and of its close.\<close>

theorem interleaved_calls_linearize_witness:
  "let es = [OpenFirst 0 ''/a'' 65 420 0 0, Whole (CStat ''/a''), OpenSecond 0, Whole (CWrite 0 0 5),
      CloseFirst 0 9, Whole (CStat ''/a''), CloseSecond 0, OpenFirst 1 ''/a'' 0 0 0 0, OpenFirst 2 ''/a'' 0 0 0 0,
      OpenSecond 2, CloseFirst 2 3, OpenSecond 1, CloseSecond 2, Whole (CRead 1 [7, 7, 7] 3 3)]
   in answers_of es (fst (run_with (split_exec new_oss) es
        (rested (serve_from \<lparr>g_blackholeFS = empty_fs, g_statsManager = empty_manager\<rparr>)))) =
      [Rc 0, Size 0, Moved 5, Rc 0, Size 5, Rc 0, Rc 0, Rc 0, Data 2 [0, 0, 7]]"
proof -
  let ?g = "\<lparr>g_blackholeFS = empty_fs, g_statsManager = empty_manager\<rparr>"
  let ?es = "[OpenFirst 0 ''/a'' 65 420 0 0, Whole (CStat ''/a''), OpenSecond 0, Whole (CWrite 0 0 5),
      CloseFirst 0 9, Whole (CStat ''/a''), CloseSecond 0, OpenFirst 1 ''/a'' 0 0 0 0, OpenFirst 2 ''/a'' 0 0 0 0,
      OpenSecond 2, CloseFirst 2 3, OpenSecond 1, CloseSecond 2, Whole (CRead 1 [7, 7, 7] 3 3)]"
  note abs = abs_served_empty and none = getStub_empty_fs
  note run = store_open_def store_close_def in_session_def empty_afile_def a_count_def a_bytes_def
    unused_def unwritten_def replicate_2 store_read_def ready_def closing_def closing_writer_def
  have pol: "run_allowed courteous split_spec ?es (abs_served (serve_from ?g), \<lambda>_. At_rest)"
    unfolding abs by (simp add: run ex_bool_eq)
  have free: "\<forall>p r. getStub (g_blackholeFS ?g) p = Some r \<longrightarrow> \<not> m_isOpenWrite (cell (g_blackholeFS ?g) r)"
    by (simp add: none)
  have inv: "fs_inv (g_blackholeFS ?g)" by (simp add: fs_inv_empty)
  have "uint (m_fd_last (g_blackholeFS ?g)) + int (length ?es) < 2 ^ 31" by (simp add: empty_fs_def)
  from interleaved_calls_linearize [OF inv free this pol, of new_oss]
  have "answers_of ?es (fst (run_with (split_exec new_oss) ?es (rested (serve_from ?g)))) =
      fst (run_with store_exec (started ?es) (abs_served (serve_from ?g)))"
    by (simp only: case_prod_beta Let_def)
  also have "\<dots> = [Rc 0, Size 0, Moved 5, Rc 0, Size 5, Rc 0, Rc 0, Rc 0, Data 2 [0, 0, 7]]"
    unfolding abs by (simp add: run)
  finally show ?thesis unfolding Let_def .
qed

text \<open>
  Every state of an interleaved run on finitely many file handles is a reachable state of
  the transition system of \<^verbatim>\<open>Plugin\<close>.
\<close>

lemma run_reachable:
  assumes "split_inv bhOss s" "run_allowed courteous split_spec es (abs_split bhOss s)"
    and "uint (m_fd_last (v_fs (sp_served s))) + int (length es) < 2 ^ 31"
    and "\<And>e h. e \<in> set es \<Longrightarrow> on_handle e = Some h \<Longrightarrow> h < n"
    and "reachable bhOss' (plugin_of bhOss n s)"
  shows "reachable bhOss' (plugin_of bhOss n (snd (run_with (split_exec bhOss) es s)))"
  using assms
proof (induction es arbitrary: s)
  case (Cons e es)
  let ?s1 = "snd (split_exec bhOss e s)"
  have room: "uint (m_fd_last (v_fs (sp_served s))) + 1 < 2 ^ 31" using Cons.prems(3) by simp
  have ok: "courteous e (abs_split bhOss s)" using Cons.prems(2) by simp
  note agr = event_agrees [OF Cons.prems(1) ok room, unfolded agrees_def case_prod_beta Let_def]
  have "m_fd_last (v_fs (sp_served s)) \<noteq> - 1"
    using room by (auto simp: unsigned_minus_1_eq_mask mask_eq_exp_minus_1)
  with courteous_event_ok [OF ok] Cons.prems(4)
  have "step\<^sup>*\<^sup>* (plugin_of bhOss n s) (plugin_of bhOss n ?s1)" by (intro event_steps) auto
  then have "reachable bhOss' (plugin_of bhOss n ?s1)"
    using Cons.prems(5) by (induction rule: rtranclp_induct) (auto intro: reachable.step)
  moreover have "run_allowed courteous split_spec es (abs_split bhOss ?s1)" using Cons.prems(2) agr by simp
  ultimately have "reachable bhOss' (plugin_of bhOss n (snd (run_with (split_exec bhOss) es ?s1)))"
    using Cons.prems(3,4) agr by (intro Cons.IH) auto
  then show ?case by (simp add: case_prod_beta Let_def)
qed simp

lemma interleaved_run_reachable:
  assumes "run_allowed courteous split_spec es (abs_served (serve_from (p_globals (start bhOss))), \<lambda>_. At_rest)"
    and "int (length es) < 2 ^ 31" and "\<forall>e \<in> set es. \<forall>h. on_handle e = Some h \<longrightarrow> h < n"
  shows "reachable bhOss (plugin_of bhOss n
    (snd (run_with (split_exec bhOss) es (rested (serve_from (p_globals (start bhOss)))))))"
proof (rule run_reachable [OF _ _ _ _ start_reachable])
  let ?s = "rested (serve_from (p_globals (start bhOss)))"
  have fs: "g_blackholeFS (p_globals (start bhOss)) = empty_fs" by (simp add: start_def)
  show "split_inv bhOss ?s"
    using served_inv_start [of "p_globals (start bhOss)"] by (simp add: split_inv_rested fs getStub_empty_fs fs_inv_empty)
  show "run_allowed courteous split_spec es (abs_split bhOss ?s)"
    using assms(1) by (simp add: abs_split_rested)
  show "uint (m_fd_last (v_fs (sp_served ?s))) + int (length es) < 2 ^ 31"
    using assms(2) by (simp add: rested_def serve_from_def fs)
qed (use assms(3) in blast)

end
