(* ===== verification/Metrics_Accuracy.thy ===== *)
theory Metrics_Accuracy
  imports Metrics
begin

text \<open>
  How far the two average gauges of the metrics page are from the averages in exact
  arithmetic: the error of one throughput, of adding them up one by one, of the division
  and of the two decimals that are printed.
\<close>

section \<open>Reading a gauge back\<close>

text \<open>Reading a number with two decimals.\<close>

definition read_fixed2 :: "string \<Rightarrow> rat" where
  "read_fixed2 s =
     (let whole = takeWhile (\<lambda>c. c \<noteq> CHR ''.'') s; cents = tl (dropWhile (\<lambda>c. c \<noteq> CHR ''.'') s)
      in of_nat (dec_val 0 (whole @ cents)) / 100)"

lemma read_show_fixed2:
  assumes "0 \<le> x"
  shows "\<bar>read_fixed2 (show_fixed2 x) - x\<bar> \<le> 1 / 200"
proof -
  define n where "n = nat (round_half_even (x * 100))"
  have dot: "\<forall>c \<in> set (show_nat m). c \<noteq> CHR ''.''" for m
    using show_nat_digits [of m] by (auto simp: is_digit_def)
  have s: "show_fixed2 x = show_nat (n div 100) @ CHR ''.'' # [digit (n div 10 mod 10), digit (n mod 10)]"
    using assms by (simp add: show_fixed2_def n_def Let_def)
  have "takeWhile (\<lambda>c. c \<noteq> CHR ''.'') (show_fixed2 x) = show_nat (n div 100)"
    "dropWhile (\<lambda>c. c \<noteq> CHR ''.'') (show_fixed2 x) =
       CHR ''.'' # [digit (n div 10 mod 10), digit (n mod 10)]"
    unfolding s by (rule split_at_first [OF dot])+
  moreover have "(n div 100 * 10 + n div 10 mod 10) * 10 + n mod 10 = n"
  proof -
    have "n div 100 = n div 10 div 10" by (simp add: div_mult2_eq [symmetric])
    then show ?thesis by (metis div_mult_mod_eq)
  qed
  ultimately have r: "read_fixed2 (show_fixed2 x) = of_nat n / 100"
    by (simp add: read_fixed2_def dec_val_append)
  have "round_half_even 0 \<le> round_half_even (x * 100)"
    by (rule round_half_even_mono) (use assms in simp)
  then have "0 \<le> round_half_even (x * 100)" using round_half_even_of_int [of 0] by simp
  then have "(of_nat n :: rat) = of_int (round_half_even (x * 100))"
    unfolding n_def by (metis int_nat_eq of_int_of_nat_eq)
  then have "\<bar>of_nat n - x * 100\<bar> \<le> 1 / 2" using round_half_even_error [of "x * 100"] by simp
  then show ?thesis unfolding r by (simp add: abs_le_iff field_simps)
qed

section \<open>Sums and averages of doubles\<close>

text \<open>Adding up \<open>n\<close> doubles one by one is off by at most \<open>n\<close> roundings.\<close>

lemma near_add: "near e x y \<Longrightarrow> 0 \<le> c \<Longrightarrow> 0 \<le> e \<Longrightarrow> near e (x + c) (y + c)"
  unfolding near_abs by (simp add: distrib_left add_increasing2)

lemma near_step:
  assumes "near (of_nat n / 2 ^ 52) x y" "0 \<le> y" "n \<le> 2 ^ 51"
  shows "near (of_nat (Suc n) / 2 ^ 52) (fl x) y"
proof -
  have n: "(of_nat n :: rat) \<le> 2 ^ 51" using assms(3) by (metis of_nat_le_iff of_nat_numeral of_nat_power)
  show ?thesis
    by (rule near_weaken [OF near_fl [OF assms(1)]]) (use n assms(2) in \<open>simp_all add: field_simps\<close>)
qed

lemma near_sum:
  assumes "\<forall>x \<in> set xs. 0 \<le> x" "length xs \<le> 2 ^ 51"
  shows "near (of_nat (length xs) / 2 ^ 52) (foldl d_add 0 xs) (sum_list xs) \<and> 0 \<le> sum_list xs"
  using assms
proof (induction xs rule: rev_induct)
  case (snoc x xs)
  let ?n = "length xs"
  have ih: "near (of_nat ?n / 2 ^ 52) (foldl d_add 0 xs) (sum_list xs)" "0 \<le> sum_list xs"
    using snoc by simp_all
  have x: "0 \<le> x" using snoc.prems by simp
  have "near (of_nat ?n / 2 ^ 52) (foldl d_add 0 xs + x) (sum_list xs + x)"
    by (rule near_add [OF ih(1) x]) simp
  then have "near (of_nat (Suc ?n) / 2 ^ 52) (fl (foldl d_add 0 xs + x)) (sum_list xs + x)"
    by (rule near_step) (use ih x snoc.prems in simp_all)
  then show ?case using ih x by (simp add: d_add_def [of _ x])
qed (simp add: near_def)

lemma average_near:
  assumes "\<forall>x \<in> set xs. 0 \<le> x" "length xs < 2 ^ 50" "n = of_nat (length xs)"
  shows "near (of_nat (Suc (length xs)) / 2 ^ 52) (average (foldl d_add 0 xs) n)
    (sum_list xs / of_nat (length xs))" and "0 \<le> sum_list xs / of_nat (length xs)"
proof -
  let ?n = "length xs"
  have s: "near (of_nat ?n / 2 ^ 52) (foldl d_add 0 xs) (sum_list xs)" "0 \<le> sum_list xs"
    using near_sum [of xs] assms(1,2) by simp_all
  then show pos: "0 \<le> sum_list xs / of_nat ?n" by simp
  have u: "unat n = ?n" using assms(2,3) by (simp add: unat_of_nat take_bit_nat_eq_self)
  then have conv: "d_of_u64 n = of_nat ?n"
    using d_of_u64_exact [of n] assms(2) by (simp add: uint_nat)
  show "near (of_nat (Suc ?n) / 2 ^ 52) (average (foldl d_add 0 xs) n) (sum_list xs / of_nat ?n)"
  proof (cases "?n = 0")
    case False
    then have "0 < n" using u by (simp add: word_less_nat_alt)
    then have "average (foldl d_add 0 xs) n = fl (foldl d_add 0 xs / of_nat ?n)"
      by (simp add: average_def conv d_div_def)
    moreover have "near (of_nat (Suc ?n) / 2 ^ 52) (fl (foldl d_add 0 xs / of_nat ?n))
        (sum_list xs / of_nat ?n)"
      by (rule near_step [OF near_divide [OF s(1)]]) (use pos assms(2) in simp_all)
    ultimately show ?thesis by simp
  qed (use assms(3) in \<open>simp add: average_def near_def\<close>)
qed

section \<open>The gauges\<close>

text \<open>The sums the manager keeps are those of the throughputs, one after the other.\<close>

definition read_rates :: "TransferStats list \<Rightarrow> rat list" where
  "read_rates ts = map (\<lambda>s. throughputMiBs (bytes_read s) (duration_us s))
     (filter (\<lambda>s. 0 < sint (bytes_read s)) ts)"

definition write_rates :: "TransferStats list \<Rightarrow> rat list" where
  "write_rates ts = map (\<lambda>s. throughputMiBs (bytes_written s) (duration_us s))
     (filter (\<lambda>s. 0 < sint (bytes_written s)) ts)"

lemma fold_record_sums:
  "m_sum_read_MiBs (fold recordTransfer ts m) = foldl d_add (m_sum_read_MiBs m) (read_rates ts)"
  "m_sum_write_MiBs (fold recordTransfer ts m) = foldl d_add (m_sum_write_MiBs m) (write_rates ts)"
  by (induction ts arbitrary: m) (simp_all add: recordTransfer_fields read_rates_def write_rates_def)

lemma map_of_gauges:
  "map_of (scrape (buildMetrics m)) ''blackhole_write_throughput_MiBs_avg'' =
     Some (show_fixed2 (average (m_sum_write_MiBs m) (m_write_transfers m)))"
  "map_of (scrape (buildMetrics m)) ''blackhole_read_throughput_MiBs_avg'' =
     Some (show_fixed2 (average (m_sum_read_MiBs m) (m_read_transfers m)))"
  unfolding scrape_buildMetrics by simp_all

text \<open>The rate of one transfer in exact arithmetic, and how near the computed one is.\<close>

definition exact_rate :: "i64 \<Rightarrow> i64 \<Rightarrow> rat" where
  "exact_rate b d = of_int (sint b * 1000000) / of_int (sint d * 1048576)"

lemma throughput_near:
  assumes "0 < sint b" "sint b < 2 ^ 53" "0 < sint d" "sint d < 2 ^ 53"
  shows "near (2 / 2 ^ 52) (throughputMiBs b d) (exact_rate b d)"
proof -
  have "(2 / 2 ^ 52 :: rat) * x = x / 2 ^ 51" for x by simp
  then show ?thesis
    using throughput_accuracy [OF assms] unfolding near_abs exact_rate_def by (simp only:)
qed

lemma near_sum_list:
  assumes "\<And>x. x \<in> set xs \<Longrightarrow> near e (f x) (g x)"
  shows "near e (sum_list (map f xs)) (sum_list (map g xs))"
  using assms
proof (induction xs)
  case (Cons x xs)
  then have "near e (f x) (g x)" "near e (sum_list (map f xs)) (sum_list (map g xs))" by simp_all
  then show ?case by (simp add: near_def distrib_left add_mono)
qed (simp add: near_def)

lemma near_trans:
  assumes "near e x y" "near e' y z" "0 \<le> e" "e \<le> 1" "0 \<le> e'" "0 \<le> z"
  shows "near (e + e' + e * e') x z"
proof -
  have "(1 - e) * ((1 - e') * z) \<le> (1 - e) * y" "(1 + e) * y \<le> (1 + e) * ((1 + e') * z)"
    using assms by (auto simp: near_def intro!: mult_left_mono)
  moreover have "0 \<le> e * e' * z" using assms by simp
  then have "(1 - (e + e' + e * e')) * z \<le> (1 - e) * ((1 - e') * z)" by (simp add: algebra_simps)
  moreover have "(1 + e) * ((1 + e') * z) = (1 + (e + e' + e * e')) * z" by (simp add: algebra_simps)
  ultimately show ?thesis using assms(1) by (auto simp: near_def)
qed

text \<open>One gauge, for the transfers of one direction.\<close>

lemma gauge_accurate:
  fixes b d :: "'a \<Rightarrow> i64"
  assumes "\<forall>t \<in> set ts. 0 < sint (b t) \<and> sint (b t) < 2 ^ 53 \<and> 0 < sint (d t) \<and> sint (d t) < 2 ^ 53"
    and "length ts < 2 ^ 50" "n = of_nat (length ts)"
  shows "let avg = (\<Sum>t\<leftarrow>ts. exact_rate (b t) (d t)) / of_nat (length ts)
    in \<bar>read_fixed2 (show_fixed2 (average (foldl d_add 0 (map (\<lambda>t. throughputMiBs (b t) (d t)) ts)) n))
         - avg\<bar> \<le> 1 / 200 + of_nat (length ts + 4) / 2 ^ 52 * avg"
proof -
  let ?xs = "map (\<lambda>t. throughputMiBs (b t) (d t)) ts" and ?n = "length ts"
  let ?e = "of_nat (Suc ?n) / 2 ^ 52 :: rat"
  define a where "a = average (foldl d_add 0 ?xs) n"
  define avg where "avg = (\<Sum>t\<leftarrow>ts. exact_rate (b t) (d t)) / of_nat ?n"
  have n: "(of_nat ?n :: rat) < 2 ^ 50" using assms(2) by (metis of_nat_less_iff of_nat_numeral of_nat_power)
  have pos: "0 \<le> exact_rate (b t) (d t)" if "t \<in> set ts" for t
    using assms(1) that unfolding exact_rate_def
    by (intro divide_nonneg_nonneg) (simp_all only: of_int_0_le_iff, auto intro: less_imp_le)
  have avg: "0 \<le> avg" unfolding avg_def by (intro divide_nonneg_nonneg sum_list_nonneg) (auto simp: pos)
  have xs: "\<forall>x \<in> set ?xs. 0 \<le> x" by (auto simp: throughputMiBs_nonneg)
  have "near ?e a (sum_list ?xs / of_nat ?n)"
    using average_near(1) [OF xs, of n] assms(2,3) by (simp add: a_def)
  moreover have "near (2 / 2 ^ 52) (sum_list ?xs / of_nat ?n) avg"
    unfolding avg_def by (intro near_divide near_sum_list throughput_near) (use assms(1) in auto)
  ultimately have "near (?e + 2 / 2 ^ 52 + ?e * (2 / 2 ^ 52)) a avg"
    by (rule near_trans) (use n avg in simp_all)
  then have near: "near (of_nat (?n + 4) / 2 ^ 52) a avg"
    by (rule near_weaken) (use n avg in \<open>simp_all add: field_simps\<close>)
  have "0 \<le> (1 - of_nat (?n + 4) / 2 ^ 52) * avg" using n avg by (intro mult_nonneg_nonneg) simp_all
  then have "0 \<le> a" using near unfolding near_def by linarith
  from read_show_fixed2 [OF this] near show ?thesis
    unfolding near_abs Let_def a_def [symmetric] avg_def [symmetric] by linarith
qed

text \<open>
  C19: A scraper that reads the two throughput gauges after n transfers gets the average
  of bytes * 10^6 / (microseconds * 2^20) over the transfers that moved bytes, up to
  half a hundredth for the two decimals and (n + 4) / 2^52 of it for the floating-point
  arithmetic of the rates, the running sum and the division.
\<close>

theorem average_gauges_accurate:
  assumes "length ts < 2 ^ 50"
    and "\<forall>t \<in> set ts. 0 < sint (duration_us t) \<and> sint (duration_us t) < 2 ^ 53 \<and>
      sint (bytes_read t) < 2 ^ 53 \<and> sint (bytes_written t) < 2 ^ 53"
  shows "let gauge = map_of (scrape (buildMetrics (fold recordTransfer ts empty_manager)));
      accurate = (\<lambda>text bytes.
        let xs = filter (\<lambda>t. 0 < sint (bytes t)) ts;
            avg = (\<Sum>t\<leftarrow>xs. of_int (sint (bytes t) * 1000000) / of_int (sint (duration_us t) * 1048576))
              / of_nat (length xs)
        in \<bar>read_fixed2 text - avg\<bar> \<le> 1 / 200 + of_nat (length xs + 4) / 2 ^ 52 * avg)
    in \<exists>w r. gauge ''blackhole_write_throughput_MiBs_avg'' = Some w \<and> accurate w bytes_written \<and>
       gauge ''blackhole_read_throughput_MiBs_avg'' = Some r \<and> accurate r bytes_read"
proof -
  have len: "length (filter P ts) < 2 ^ 50" for P
    using le_less_trans [OF length_filter_le assms(1)] .
  have ok: "\<forall>t \<in> set (filter (\<lambda>t. 0 < sint (bytes t)) ts). 0 < sint (bytes t) \<and>
      sint (bytes t) < 2 ^ 53 \<and> 0 < sint (duration_us t) \<and> sint (duration_us t) < 2 ^ 53"
    if "bytes = bytes_written \<or> bytes = bytes_read" for bytes
    using assms(2) that by auto
  show ?thesis
    using gauge_accurate [OF ok len refl, of bytes_written] gauge_accurate [OF ok len refl, of bytes_read]
    unfolding Let_def map_of_gauges fold_record_sums fold_record read_rates_def write_rates_def exact_rate_def
    by (simp add: empty_manager_def)
qed

theorem average_gauges_accurate_witness:
  "\<exists>w. map_of (scrape (buildMetrics (recordTransfer
        (empty_stats\<lparr>bytes_written := 3145728, duration_us := 1000000\<rparr>) empty_manager)))
      ''blackhole_write_throughput_MiBs_avg'' = Some w \<and>
    \<bar>read_fixed2 w - 3\<bar> \<le> 1 / 200 + 15 / 2 ^ 52"
  using average_gauges_accurate
    [of "[empty_stats\<lparr>bytes_written := 3145728, duration_us := 1000000\<rparr>]"]
  by (auto simp: empty_stats_def Let_def)

end
