(* ===== verification/Spec2Isabelle.thy ===== *)
theory Spec2Isabelle
  imports Entry Config_Log Concurrent_IO Server_Accesses Server_Interleaving Metrics_Accuracy
begin

text \<open>
  XrdBlackhole is an XRootD storage plugin that keeps no data: writes are counted and
  dropped, reads are made up, and a namespace in memory remembers the sizes. This
  library models its C++ code (\<^verbatim>\<open>src/XrdBlackhole\<close>) and proves what it promises and
  where it does not keep it.

  \<^bold>\<open>The program.\<close> Two global objects hold all shared state: the namespace
  \<^verbatim>\<open>g_blackholeFS\<close> (\<^verbatim>\<open>BlackholeFS\<close>: a map from paths to shared stubs and a descriptor
  counter, under one mutex) and the statistics \<^verbatim>\<open>g_statsManager\<close> (totals under another).
  The plugin object \<^verbatim>\<open>XrdBlackholeOss\<close> reads the configuration, answers calls on paths
  and makes file and directory handles. A file handle (\<^verbatim>\<open>XrdBlackholeOssFile\<close>) takes a
  pointer to a stub at \<^verbatim>\<open>Open\<close>, counts what its calls move, and at \<^verbatim>\<open>Close\<close> writes the
  size into the stub and submits a record to the statistics. A directory handle
  (\<^verbatim>\<open>XrdBlackholeOssDir\<close>) takes a snapshot of names. The metrics handler
  (\<^verbatim>\<open>XrdBlackholeMetrics\<close>) prints the totals.

  \<^bold>\<open>The theories\<close>, each importing those it calls:
  \<^item> \<^verbatim>\<open>Prelude\<close>: names for paths and machine integers, error numbers and open flags,
    lemmas on words and on the last slash of a path, and the locales
    \<open>budgeted_system\<close> (steps that keep an invariant while a bounded counter lasts; its
    lemmas carry the invariant and any growing quantity over a whole run),
    \<open>step_system\<close>, which it covers, and \<open>simulation\<close> (calls that return what a
    specification returns; its lemma carries that over a whole run).
  \<^item> \<^verbatim>\<open>Ordered_Map\<close>: \<^verbatim>\<open>std::map\<close> as a sorted association list; the locale \<open>std_map\<close>
    states what find, insert (which keeps an old entry) and erase promise each other,
    and is interpreted on it.
  \<^item> \<^verbatim>\<open>BlackholeFS\<close>: the namespace. A \<^verbatim>\<open>shared_ptr\<close> is a number into the store \<open>cell\<close>,
    so that the map and the handles really share stubs. Lookup lemmas for each call, the
    invariant \<open>fs_inv\<close>, the machine of all calls as an interpretation of
    \<open>budgeted_system\<close>, and the refinement of the abstract \<open>namespace\<close> (paths to stub
    values, no pointers, no order).
  \<^item> \<^verbatim>\<open>Binary64\<close>, \<^verbatim>\<open>CText\<close>, \<^verbatim>\<open>Printf\<close>: the parts of the C and C++ libraries the code
    uses. A \<^verbatim>\<open>double\<close> is a rational and each operation rounds to 53 bits, half to even
    (exponents are unbounded: no value here comes near overflow or underflow); decimal
    output, \<^verbatim>\<open>strtoull\<close>, and \<^verbatim>\<open>snprintf\<close> with one \<^verbatim>\<open>int\<close> argument.
  \<^item> \<^verbatim>\<open>Stats\<close>: the transfer record, the manager, its log lines; the accuracy of the
    throughput, and the totals over any sequence of transfers.
  \<^item> \<^verbatim>\<open>Config\<close>, \<^verbatim>\<open>Config_Lines\<close>: \<^verbatim>\<open>Configure\<close> and the four directive handlers, and
    their equivalence with a line-by-line interpreter. XRootD's tokeniser is a record of
    functions, with what it is documented to do as the predicate \<open>stream_laws\<close>.
  \<^item> \<^verbatim>\<open>OssFile\<close>, \<^verbatim>\<open>OssFile_Read\<close>, \<^verbatim>\<open>OssFile_Session\<close>: the file handle; the generator
    and the read calls (the locale \<open>byte_source\<close> states what a read pattern promises and
    is interpreted on both patterns); sessions from open to close, the throttle, and
    two handles on one stub.
  \<^item> \<^verbatim>\<open>OssDir\<close>, \<^verbatim>\<open>Oss\<close>, \<^verbatim>\<open>Metrics\<close>: the directory handle; the other calls of the plugin
    object and the attribute plugin; the metrics page and a scraper that reads it back.
    \<^verbatim>\<open>Metrics_Accuracy\<close> bounds the distance of the two averages on the page from the
    averages in exact arithmetic.
  \<^item> \<^verbatim>\<open>Plugin\<close>: the server as a transition system over any number of handles, with
    \<^verbatim>\<open>Open\<close> and \<^verbatim>\<open>Close\<close> cut in two halves between their calls of the namespace, its
    invariant, and what holds in every state between halves. The first half of a close
    is one step here although it stores two sizes without a mutex, and so is the second
    half of an open although it reads one.
  \<^item> \<^verbatim>\<open>Concurrent_IO\<close>: the I/O calls of several threads on one handle, interleaved at
    their atomic updates, and their equivalence with running them one after the other.
  \<^item> \<^verbatim>\<open>Concurrent_Close\<close>: the closes of several handles, interleaved at every access to
    shared memory by any schedule; they act one after the other unless two of them hold
    one file that is being written, and then its two sizes can come apart.
  \<^item> \<^verbatim>\<open>Server_Accesses\<close>: the server of \<^verbatim>\<open>Plugin\<close> with these accesses as its steps. What
    holds in every state it can reach (\<open>fs_shape\<close>: all of \<open>fs_inv\<close> but that a stub has one
    size), that a stub has one size as long as no two closes are at their stores to it,
    and that every run of \<^verbatim>\<open>Plugin\<close> is such a run.
  \<^item> \<^verbatim>\<open>File_Store\<close>, \<^verbatim>\<open>Server_Calls\<close>, \<^verbatim>\<open>Server_Refinement\<close>: a specification of the whole
    server, files with a size and a pattern, sessions on them and directory handles, and
    the proof that every call of the plugin on files and directories implements it for
    clients that do not write a file that is open elsewhere and do not rename or remove a
    file that is open (the locale \<open>simulation\<close> is interpreted on the server).
  \<^item> \<^verbatim>\<open>Split_Calls\<close>, \<^verbatim>\<open>Split_Refinement\<close>, \<^verbatim>\<open>Server_Interleaving\<close>: the same server with
    \<^verbatim>\<open>Open\<close> and \<^verbatim>\<open>Close\<close> cut in their halves, and the proof that the calls of all clients
    still act one after the other, each at its first half (a second interpretation of
    \<open>simulation\<close>). \<^verbatim>\<open>Split_Steps\<close> shows that such a run is a run of \<^verbatim>\<open>Plugin\<close>, so what
    holds in its reachable states holds here too.
  \<^item> \<^verbatim>\<open>Server_Runs\<close>: whole runs of the server: a stub without pointers never gets one
    again, and under weak fairness every call that has taken its first step returns (the
    locale \<open>leads_to\<close> is interpreted on the server's steps).
  \<^item> \<^verbatim>\<open>Configured_Server\<close>: the configuration and the server together: reading ends, what
    it leaves is well typed in every reachable state, and a \<^verbatim>\<open>seedfile\<close> line is followed
    from its text to the metrics page.
  \<^item> \<^verbatim>\<open>Logging\<close>, \<^verbatim>\<open>Config_Log\<close>: the messages and trace lines of the calls and of the
    configuration reader; a reader of the \<^verbatim>\<open>[XFER]\<close> line, and the agreement between
    what \<^verbatim>\<open>Configure\<close> returns and what it has logged. \<^verbatim>\<open>Entry\<close>: the factories of the
    three shared libraries.

  \<^bold>\<open>Correspondence.\<close> Definitions have the names of the methods; where a name is taken
  (by the library, or by a method of another class) a suffix tells them apart:
  \<open>open_fs\<close>, \<open>close_fs\<close>, \<open>rename_fs\<close>, \<open>exists_fs\<close> are methods of \<^verbatim>\<open>BlackholeFS\<close>,
  \<open>Read_prep\<close> and \<open>Read_aio\<close> overloads of \<^verbatim>\<open>Read\<close>, \<open>Close_dir\<close> is the directory's
  \<^verbatim>\<open>Close\<close>, \<open>m_size_cached\<close> the handle's \<^verbatim>\<open>m_size\<close>. Integers keep their width and wrap;
  a signed type is a word read with \<open>sint\<close>. Errors are the negative numbers the code
  returns. Clock readings (nanoseconds) and buffers are arguments; a buffer is returned
  as the call leaves it, and the sleep of a throttled write is returned as a number of
  microseconds.

  \<^bold>\<open>Bounds.\<close> The invariants of the namespace hold while the 64-bit descriptor counter
  does not wrap; the results of \<^verbatim>\<open>open\<close> are descriptors while it is below \<open>2 ^ 31\<close>, as
  the code returns it as \<^verbatim>\<open>int\<close>. Accuracy statements assume operands below \<open>2 ^ 53\<close>. The
  token loops of the configuration are partial functions: \<^const>\<open>None\<close> would be a loop
  that does not end (excluded under \<open>stream_laws\<close>) or a path format that C leaves
  undefined. No definition uses fuel; a schedule of closes is a list, and six turns for
  each thread are enough, as a close makes at most six accesses.

  \<^bold>\<open>Not modelled.\<close> The release of memory: a stub that nothing points to stays in the
  store, and \<^verbatim>\<open>Server_Runs\<close> shows that no run notices it. What C++ leaves undefined about
  an unlocked access: in \<^verbatim>\<open>Concurrent_Close\<close> and \<^verbatim>\<open>Server_Accesses\<close> the accesses of all
  threads happen in one order. Two opens or closes of one handle at the same time, which XRootD does not make.
  How XRootD's log prints a message. What is left of the sources is comments, includes,
  forward declarations and empty constructors.
\<close>

end
